(* ===== verification/Proxy_Prelude.thy ===== *)
theory Proxy_Prelude
  imports Main "HOL-Library.Word" "HOL-Library.Multiset" "HOL-Library.Monad_Syntax"
begin

text \<open>
  What the component theories share: the names of the model's basic types, the
  wrap-around of \<^verbatim>\<open>std::size_t\<close> subtraction, reachability of a step relation with
  the interface under which every invariant proof of the development runs, and the
  list and option facts the component proofs use.

  Conventions. A byte is a \<^typ>\<open>char\<close> and a byte string (\<^verbatim>\<open>std::string\<close>,
  \<^verbatim>\<open>std::string_view\<close>, the contents of a \<^verbatim>\<open>char[]\<close>) is a list of them. A
  \<^verbatim>\<open>std::size_t\<close> that counts bytes held in memory or positions in them is a
  \<^typ>\<open>nat\<close>: it is bounded by the address space, so its additions do not wrap; its
  subtractions are written with \<open>size_sub\<close>, which wraps at \<open>2 ^ 64\<close>. Counters
  that the code decrements on an event (\<^verbatim>\<open>queued_commands_\<close>,
  \<^verbatim>\<open>pending_replies_\<close>, \<^verbatim>\<open>refcount_\<close>) are machine words. An operation that may
  dereference a pointer returns an option: \<^const>\<open>None\<close> is undefined behaviour (a
  null or dangling pointer, an access out of bounds) or a loop that does not return.
\<close>

type_synonym bytes = "char list"
type_synonym addr = nat
type_synonym u16 = "16 word"
type_synonym u32 = "32 word"
type_synonym u64 = "64 word"

definition size_sub :: "nat \<Rightarrow> nat \<Rightarrow> nat" where
  "size_sub a b = (if b \<le> a then a - b else a + 2 ^ 64 - b)"

inductive reach :: "('s \<Rightarrow> bool) \<Rightarrow> ('s \<Rightarrow> 's \<Rightarrow> bool) \<Rightarrow> 's \<Rightarrow> bool"
  for init :: "'s \<Rightarrow> bool" and step :: "'s \<Rightarrow> 's \<Rightarrow> bool"
where
  reach_init: "init s \<Longrightarrow> reach init step s"
| reach_step: "reach init step s \<Longrightarrow> step s t \<Longrightarrow> reach init step t"

text \<open>
  The interface of a component that is a state machine: its initial states, its steps
  and a predicate that the former satisfy and the latter keep.
\<close>

locale invariant_system =
  fixes init :: "'s \<Rightarrow> bool"
    and step :: "'s \<Rightarrow> 's \<Rightarrow> bool"
    and inv :: "'s \<Rightarrow> bool"
  assumes inv_init: "init s \<Longrightarrow> inv s"
    and inv_step: "inv s \<Longrightarrow> step s t \<Longrightarrow> inv t"
begin

lemma reach_inv: "reach init step s \<Longrightarrow> inv s"
  by (induction rule: reach.induct) (auto intro: inv_init inv_step)

lemma reach_rel:
  assumes "reach init step s"
    and "\<And>t. init t \<Longrightarrow> P t"
    and "\<And>t u. reach init step t \<Longrightarrow> inv t \<Longrightarrow> P t \<Longrightarrow> step t u \<Longrightarrow> P u"
  shows "P s"
  using assms(1)
proof (induction rule: reach.induct)
  case (reach_init s)
  then show ?case by (rule assms(2))
next
  case (reach_step s t)
  then show ?case by (blast intro: assms(3) reach_inv)
qed

end

lemma size_sub_le [simp]: "b \<le> a \<Longrightarrow> size_sub a b = a - b"
  by (simp add: size_sub_def)

lemma size_sub_self [simp]: "size_sub a a = 0"
  by (simp add: size_sub_def)

lemma size_sub_wrap: "a < b \<Longrightarrow> b < 2 ^ 64 \<Longrightarrow> 0 < size_sub a b"
  by (simp add: size_sub_def)

lemma bind_Some_iff: "Option.bind x f = Some y \<longleftrightarrow> (\<exists>z. x = Some z \<and> f z = Some y)"
  by (cases x) auto

lemma take_take_append: "n \<le> length xs \<Longrightarrow> take n (xs @ ys) = take n xs"
  by simp

lemma sum_list_map_pos:
  "(\<And>x. x \<in> set xs \<Longrightarrow> 0 < f x) \<Longrightarrow> xs \<noteq> [] \<Longrightarrow> 0 < sum_list (map (f :: 'a \<Rightarrow> nat) xs)"
  by (cases xs) auto

lemma set_butlast_last: "xs \<noteq> [] \<Longrightarrow> set xs = insert (last xs) (set (butlast xs))"
  by (induction xs) auto

lemma mset_distinct_subset:
  "set as' \<subseteq> set as \<Longrightarrow> distinct as' \<Longrightarrow> count (mset as') x \<le> count (mset as) x"
  by (cases "x \<in> set as'") (auto simp: distinct_count_atmost_1 count_eq_zero_iff Suc_le_eq)

lemma foldl_map_upd:
  "foldl (\<lambda>r x. r(f x \<mapsto> g x)) r0 xs k =
     (case map_of (rev (map (\<lambda>x. (f x, g x)) xs)) k of None \<Rightarrow> r0 k | Some v \<Rightarrow> Some v)"
  by (induction xs rule: rev_induct) auto

lemma foldl_map_upd_distinct:
  assumes "distinct (map f xs)"
  shows "x \<in> set xs \<Longrightarrow> foldl (\<lambda>r x. r(f x \<mapsto> g x)) r0 xs (f x) = Some (g x)"
    and "k \<notin> f ` set xs \<Longrightarrow> foldl (\<lambda>r x. r(f x \<mapsto> g x)) r0 xs k = r0 k"
proof -
  let ?l = "rev (map (\<lambda>x. (f x, g x)) xs)"
  have d: "distinct (map fst ?l)" using assms by (simp add: rev_map [symmetric] comp_def)
  show "foldl (\<lambda>r x. r(f x \<mapsto> g x)) r0 xs (f x) = Some (g x)" if "x \<in> set xs"
    using that map_of_is_SomeI [OF d, of "f x" "g x"] by (simp add: foldl_map_upd)
  show "foldl (\<lambda>r x. r(f x \<mapsto> g x)) r0 xs k = r0 k" if "k \<notin> f ` set xs"
  proof -
    have "map_of ?l k = None" using that by (auto simp: map_of_eq_None_iff)
    then show ?thesis by (simp add: foldl_map_upd)
  qed
qed

lemma set_map_filter: "set (List.map_filter f xs) = {y. Some y \<in> f ` set xs}"
  by (induction xs) (auto simp: List.map_filter_simps split: option.splits)

lemma ucast_of_nat: "(ucast (r :: u32) :: u64) = of_nat (unat r)"
  by simp

text \<open>Counting a 32 bit counter down and its image in the 64 bit sum agree.\<close>

lemma ucast_pred:
  assumes "r \<noteq> 0"
  shows "(ucast (r - 1 :: u32) :: u64) = ucast r - 1" and "unat (r - 1) = unat r - 1" and "0 < unat r"
proof -
  show u: "unat (r - 1) = unat r - 1" "0 < unat r" using assms by (simp_all add: unat_minus_one unat_gt_0)
  then have "(of_nat (unat r) :: u64) = of_nat (unat (r - 1)) + 1"
    by (metis Suc_pred' of_nat_Suc add.commute)
  then show "(ucast (r - 1 :: u32) :: u64) = ucast r - 1" unfolding ucast_of_nat by (simp add: algebra_simps)
qed

lemma sum_ucast:
  "sum_list (map (\<lambda>x. ucast (f x :: u32)) xs) = (of_nat (sum_list (map (\<lambda>x. unat (f x)) xs)) :: u64)"
  by (induction xs) simp_all

end
