(* ===== verification/Proxy_Status.thy ===== *)
theory Proxy_Status
  imports Proxy_Prelude
begin

text \<open>The result type \<^verbatim>\<open>Status\<close> of \<^verbatim>\<open>include/redis_proxy/status.h\<close>.\<close>

datatype StatusCode = SC_kOk | SC_kInvalidArgument | SC_kIoError | SC_kProtocolError | SC_kClosed

record status =
  st_code :: StatusCode
  st_message :: string

definition Status_Ok :: status where
  "Status_Ok = \<lparr>st_code = SC_kOk, st_message = ''''\<rparr>"

definition Status_InvalidArgument :: "string \<Rightarrow> status" where
  "Status_InvalidArgument msg = \<lparr>st_code = SC_kInvalidArgument, st_message = msg\<rparr>"

definition Status_IoError :: "string \<Rightarrow> status" where
  "Status_IoError msg = \<lparr>st_code = SC_kIoError, st_message = msg\<rparr>"

definition Status_ProtocolError :: "string \<Rightarrow> status" where
  "Status_ProtocolError msg = \<lparr>st_code = SC_kProtocolError, st_message = msg\<rparr>"

definition Status_Closed :: "string \<Rightarrow> status" where
  "Status_Closed msg = \<lparr>st_code = SC_kClosed, st_message = msg\<rparr>"

definition status_ok :: "status \<Rightarrow> bool" where
  "status_ok st \<longleftrightarrow> st_code st = SC_kOk"

lemma status_ok_simps [simp]:
  "status_ok Status_Ok" "\<not> status_ok (Status_InvalidArgument msg)" "\<not> status_ok (Status_IoError msg)"
  "\<not> status_ok (Status_ProtocolError msg)" "\<not> status_ok (Status_Closed msg)"
  by (simp_all add: status_ok_def Status_Ok_def Status_InvalidArgument_def Status_IoError_def
      Status_ProtocolError_def Status_Closed_def)

lemma status_code_simps [simp]:
  "st_code Status_Ok = SC_kOk" "st_code (Status_InvalidArgument msg) = SC_kInvalidArgument"
  "st_code (Status_IoError msg) = SC_kIoError" "st_code (Status_ProtocolError msg) = SC_kProtocolError"
  "st_code (Status_Closed msg) = SC_kClosed"
  by (simp_all add: Status_Ok_def Status_InvalidArgument_def Status_IoError_def
      Status_ProtocolError_def Status_Closed_def)

lemma status_distinct [simp]:
  "Status_InvalidArgument e \<noteq> Status_Ok" "Status_IoError e \<noteq> Status_Ok"
  "Status_ProtocolError e \<noteq> Status_Ok" "Status_Closed e \<noteq> Status_Ok"
  "Status_Ok \<noteq> Status_ProtocolError e"
  by (simp_all add: Status_Ok_def Status_InvalidArgument_def Status_IoError_def Status_ProtocolError_def
      Status_Closed_def)

end
