(* ===== verification/Command_Rules.thy ===== *)
theory Command_Rules
  imports Proxy_Status
begin

text \<open>
  The command filter of \<^verbatim>\<open>src/command_rules.cpp\<close>: a table from upper-case command
  names to rules, the default table, and \<^verbatim>\<open>validate\<close>. \<^verbatim>\<open>std::toupper\<close> is that of
  the C locale, the one a program starts in; the \<^verbatim>\<open>unordered_map\<close> is a map, and an
  argument count is compared after its promotion to \<^verbatim>\<open>size_t\<close>.
\<close>

section \<open>The rules\<close>

record command_rule =
  allowed :: bool
  min_argc :: u16
  max_argc :: u16
  cr_read :: bool
  cr_write :: bool
  dangerous :: bool

type_synonym command_rules = "string \<rightharpoonup> command_rule"

definition UINT16_MAX :: u16 where
  "UINT16_MAX = 65535"

definition toupper :: "char \<Rightarrow> char" where
  "toupper c = (if 97 \<le> (of_char c :: nat) \<and> (of_char c :: nat) \<le> 122
                then char_of ((of_char c :: nat) - 32) else c)"

definition normalize_cmd :: "string \<Rightarrow> string" where
  "normalize_cmd command = map toupper command"

definition rules_allow :: "command_rules \<Rightarrow> string \<Rightarrow> u16 \<Rightarrow> u16 \<Rightarrow> bool \<Rightarrow> bool \<Rightarrow> command_rules" where
  "rules_allow rules command lo hi rd wr =
     rules(normalize_cmd command \<mapsto>
       \<lparr>allowed = True, min_argc = lo, max_argc = hi, cr_read = rd, cr_write = wr, dangerous = False\<rparr>)"

definition rules_deny :: "command_rules \<Rightarrow> string \<Rightarrow> command_rules" where
  "rules_deny rules command =
     rules(normalize_cmd command \<mapsto>
       \<lparr>allowed = False, min_argc = 0, max_argc = 0, cr_read = False, cr_write = False,
        dangerous = True\<rparr>)"

definition rules_setRule :: "command_rules \<Rightarrow> string \<Rightarrow> command_rule \<Rightarrow> command_rules" where
  "rules_setRule rules command rule = rules(normalize_cmd command \<mapsto> rule)"

text \<open>The calls of \<^verbatim>\<open>CommandRules::Default\<close>, in their order.\<close>

definition default_allowed :: "(string \<times> u16 \<times> u16 \<times> bool \<times> bool) list" where
  "default_allowed =
     [(''PING'', 1, 2, True, False), (''GET'', 2, 2, True, False),
      (''MGET'', 2, UINT16_MAX, True, False), (''SET'', 3, UINT16_MAX, False, True),
      (''MSET'', 3, UINT16_MAX, False, True), (''MSETNX'', 3, UINT16_MAX, False, True),
      (''GETSET'', 3, 3, False, True), (''SETNX'', 3, 3, False, True),
      (''SETEX'', 4, 4, False, True), (''PSETEX'', 4, 4, False, True),
      (''GETEX'', 2, UINT16_MAX, True, False), (''GETDEL'', 2, 2, False, True),
      (''APPEND'', 3, 3, False, True), (''STRLEN'', 2, 2, True, False),
      (''GETRANGE'', 4, 4, True, False), (''SETRANGE'', 4, 4, False, True),
      (''INCR'', 2, 2, False, True), (''DECR'', 2, 2, False, True),
      (''INCRBY'', 3, 3, False, True), (''DECRBY'', 3, 3, False, True),
      (''INCRBYFLOAT'', 3, 3, False, True), (''SADD'', 3, UINT16_MAX, False, True),
      (''SREM'', 3, UINT16_MAX, False, True), (''SMEMBERS'', 2, 2, True, False),
      (''SISMEMBER'', 3, 3, True, False), (''SMISMEMBER'', 3, UINT16_MAX, True, False),
      (''SCARD'', 2, 2, True, False), (''SPOP'', 2, 3, False, True),
      (''SRANDMEMBER'', 2, 3, True, False), (''SMOVE'', 4, 4, False, True),
      (''SINTER'', 2, UINT16_MAX, True, False), (''SINTERSTORE'', 3, UINT16_MAX, False, True),
      (''SUNION'', 2, UINT16_MAX, True, False), (''SUNIONSTORE'', 3, UINT16_MAX, False, True),
      (''SDIFF'', 2, UINT16_MAX, True, False), (''SDIFFSTORE'', 3, UINT16_MAX, False, True),
      (''LPUSH'', 3, UINT16_MAX, False, True), (''RPUSH'', 3, UINT16_MAX, False, True),
      (''LPUSHX'', 3, UINT16_MAX, False, True), (''RPUSHX'', 3, UINT16_MAX, False, True),
      (''LPOP'', 2, 3, False, True), (''RPOP'', 2, 3, False, True),
      (''LLEN'', 2, 2, True, False), (''LRANGE'', 4, 4, True, False),
      (''LINDEX'', 3, 3, True, False), (''LSET'', 4, 4, False, True),
      (''LINSERT'', 5, 5, False, True), (''LREM'', 4, 4, False, True),
      (''LTRIM'', 4, 4, False, True), (''LPOS'', 3, UINT16_MAX, True, False),
      (''LMOVE'', 5, 5, False, True), (''RPOPLPUSH'', 3, 3, False, True),
      (''HSET'', 4, UINT16_MAX, False, True), (''HGET'', 3, 3, True, False),
      (''HMSET'', 4, UINT16_MAX, False, True), (''HMGET'', 3, UINT16_MAX, True, False),
      (''HGETALL'', 2, 2, True, False), (''HDEL'', 3, UINT16_MAX, False, True),
      (''HEXISTS'', 3, 3, True, False), (''HKEYS'', 2, 2, True, False),
      (''HVALS'', 2, 2, True, False), (''HLEN'', 2, 2, True, False),
      (''HINCRBY'', 4, 4, False, True), (''HINCRBYFLOAT'', 4, 4, False, True),
      (''HSETNX'', 4, 4, False, True), (''HSTRLEN'', 3, 3, True, False),
      (''HRANDFIELD'', 2, 3, True, False), (''ZADD'', 4, UINT16_MAX, False, True),
      (''ZREM'', 3, UINT16_MAX, False, True), (''ZSCORE'', 3, 3, True, False),
      (''ZMSCORE'', 3, UINT16_MAX, True, False), (''ZINCRBY'', 4, 4, False, True),
      (''ZCARD'', 2, 2, True, False), (''ZCOUNT'', 4, 4, True, False),
      (''ZLEXCOUNT'', 4, 4, True, False), (''ZRANGE'', 4, UINT16_MAX, True, False),
      (''ZREVRANGE'', 4, UINT16_MAX, True, False),
      (''ZRANGEBYSCORE'', 4, UINT16_MAX, True, False),
      (''ZREVRANGEBYSCORE'', 4, UINT16_MAX, True, False),
      (''ZRANGEBYLEX'', 4, UINT16_MAX, True, False),
      (''ZREVRANGEBYLEX'', 4, UINT16_MAX, True, False),
      (''ZRANGESTORE'', 5, UINT16_MAX, False, True), (''ZRANK'', 3, 3, True, False),
      (''ZREVRANK'', 3, 3, True, False), (''ZREMRANGEBYRANK'', 4, 4, False, True),
      (''ZREMRANGEBYSCORE'', 4, 4, False, True), (''ZREMRANGEBYLEX'', 4, 4, False, True),
      (''ZPOPMIN'', 2, 3, False, True), (''ZPOPMAX'', 2, 3, False, True),
      (''ZINTER'', 3, UINT16_MAX, True, False), (''ZINTERSTORE'', 3, UINT16_MAX, False, True),
      (''ZUNION'', 3, UINT16_MAX, True, False), (''ZUNIONSTORE'', 3, UINT16_MAX, False, True),
      (''ZDIFF'', 3, UINT16_MAX, True, False), (''ZDIFFSTORE'', 3, UINT16_MAX, False, True),
      (''ZRANDMEMBER'', 2, 3, True, False), (''EXPIREAT'', 3, 4, False, True),
      (''PTTL'', 2, 2, True, False), (''PERSIST'', 2, 2, False, True),
      (''TYPE'', 2, 2, True, False), (''RENAME'', 3, 3, False, True),
      (''RENAMENX'', 3, 3, False, True), (''UNLINK'', 2, UINT16_MAX, False, True),
      (''TOUCH'', 2, UINT16_MAX, False, True), (''DEL'', 2, UINT16_MAX, False, True),
      (''EXISTS'', 2, UINT16_MAX, True, False), (''EXPIRE'', 3, 4, False, True),
      (''TTL'', 2, 2, True, False)]"

definition default_denied :: "string list" where
  "default_denied =
     [''AUTH'', ''SELECT'', ''CLIENT'', ''HELLO'', ''MULTI'', ''EXEC'', ''DISCARD'', ''WATCH'',
      ''UNWATCH'', ''SUBSCRIBE'', ''PSUBSCRIBE'', ''SSUBSCRIBE'', ''UNSUBSCRIBE'',
      ''PUNSUBSCRIBE'', ''SUNSUBSCRIBE'', ''PUBLISH'', ''PUBSUB'', ''SPUBLISH'', ''BLPOP'',
      ''BRPOP'', ''BLMOVE'', ''BLMPOP'', ''BZPOPMIN'', ''BZPOPMAX'', ''BZMPOP'',
      ''BRPOPLPUSH'', ''XREAD'', ''XREADGROUP'', ''DEBUG'', ''MODULE'', ''CONFIG'',
      ''SHUTDOWN'', ''SAVE'', ''BGSAVE'', ''BGREWRITEAOF'', ''FLUSHDB'', ''FLUSHALL'',
      ''KEYS'', ''SCAN'', ''SCRIPT'', ''EVAL'', ''EVALSHA'', ''FUNCTION'', ''ACL'',
      ''MONITOR'', ''SYNC'', ''PSYNC'']"

definition CommandRules_Default :: command_rules where
  "CommandRules_Default =
     foldl rules_deny
       (foldl (\<lambda>rules (command, lo, hi, rd, wr). rules_allow rules command lo hi rd wr)
         Map.empty default_allowed)
       default_denied"

definition validate :: "command_rules \<Rightarrow> string \<Rightarrow> nat \<Rightarrow> status" where
  "validate rules command argc =
     (case rules (normalize_cmd command) of
        None \<Rightarrow> Status_ProtocolError ''ERR proxy rejected unknown command''
      | Some rule \<Rightarrow>
          if \<not> allowed rule \<or> dangerous rule
          then Status_ProtocolError ''ERR proxy rejected command''
          else if argc < unat (min_argc rule) \<or> unat (max_argc rule) < argc
          then Status_ProtocolError ''ERR wrong number of arguments''
          else Status_Ok)"

section \<open>Normalisation\<close>

lemma toupper_idem [simp]: "toupper (toupper c) = toupper c"
  by (auto simp: toupper_def)

lemma normalize_idem [simp]: "normalize_cmd (normalize_cmd c) = normalize_cmd c"
  by (simp add: normalize_cmd_def)

section \<open>The default table\<close>

lemma default_names_upper: "list_all (\<lambda>(c, _). normalize_cmd c = c) default_allowed"
  by code_simp

lemma default_denied_upper: "list_all (\<lambda>c. normalize_cmd c = c) default_denied"
  by code_simp

lemma default_names_distinct: "distinct (map fst default_allowed @ default_denied)"
  by (simp add: default_allowed_def default_denied_def)

definition allow_rule :: "u16 \<times> u16 \<times> bool \<times> bool \<Rightarrow> command_rule" where
  "allow_rule e = (case e of (lo, hi, rd, wr) \<Rightarrow>
     \<lparr>allowed = True, min_argc = lo, max_argc = hi, cr_read = rd, cr_write = wr, dangerous = False\<rparr>)"

definition deny_rule :: command_rule where
  "deny_rule = \<lparr>allowed = False, min_argc = 0, max_argc = 0, cr_read = False, cr_write = False,
     dangerous = True\<rparr>"

lemma foldl_rules_allow:
  assumes "list_all (\<lambda>(c, _). normalize_cmd c = c) xs"
  shows "foldl (\<lambda>rules (command, lo, hi, rd, wr). rules_allow rules command lo hi rd wr) r0 xs =
    foldl (\<lambda>r x. r(fst x \<mapsto> allow_rule (snd x))) r0 xs"
  using assms
  by (induction xs arbitrary: r0) (auto simp: rules_allow_def allow_rule_def split: prod.splits)

lemma foldl_rules_deny:
  assumes "list_all (\<lambda>c. normalize_cmd c = c) xs"
  shows "foldl rules_deny r0 xs = foldl (\<lambda>r x. r(x \<mapsto> deny_rule)) r0 xs"
  using assms by (induction xs arbitrary: r0) (auto simp: rules_deny_def deny_rule_def)

lemma Default_eq:
  "CommandRules_Default =
     foldl (\<lambda>r x. r(x \<mapsto> deny_rule))
       (foldl (\<lambda>r x. r(fst x \<mapsto> allow_rule (snd x))) Map.empty default_allowed) default_denied"
  by (simp add: CommandRules_Default_def foldl_rules_allow [OF default_names_upper]
      foldl_rules_deny [OF default_denied_upper])

lemma Default_denied: "c \<in> set default_denied \<Longrightarrow> CommandRules_Default c = Some deny_rule"
  using default_names_distinct foldl_map_upd_distinct(1) [of "\<lambda>x. x" default_denied c "\<lambda>_. deny_rule"]
  by (simp add: Default_eq)

lemma Default_allowed:
  assumes "(c, e) \<in> set default_allowed"
  shows "CommandRules_Default c = Some (allow_rule e)"
proof -
  have d: "distinct (map fst default_allowed)" "distinct default_denied" "c \<notin> set default_denied"
    using default_names_distinct assms by force+
  show ?thesis
    using foldl_map_upd_distinct(2) [of "\<lambda>x. x" default_denied c "\<lambda>_. deny_rule"]
      foldl_map_upd_distinct(1) [OF d(1) assms, of "\<lambda>x. allow_rule (snd x)"] d(2,3)
    by (simp add: Default_eq)
qed

lemma Default_unknown:
  assumes "c \<notin> set default_denied" and "c \<notin> fst ` set default_allowed"
  shows "CommandRules_Default c = None"
proof -
  have d: "distinct (map fst default_allowed)" "distinct default_denied"
    using default_names_distinct by simp_all
  show ?thesis
    using foldl_map_upd_distinct(2) [of "\<lambda>x. x" default_denied c "\<lambda>_. deny_rule"]
      foldl_map_upd_distinct(2) [OF d(1) assms(2), of "\<lambda>x. allow_rule (snd x)"] d(2) assms(1)
    by (simp add: Default_eq)
qed

section \<open>Properties\<close>

text \<open>
  C21 The default filter accepts a command exactly when its upper-case name is listed as
  allowed and the number of arguments is within the listed bounds: nothing denied or
  unlisted passes, in any spelling, and no later entry of the table overrides an earlier.
\<close>

theorem default_accepts_iff:
  "validate CommandRules_Default c n = Status_Ok \<longleftrightarrow>
     (\<exists>lo hi rd wr. (normalize_cmd c, lo, hi, rd, wr) \<in> set default_allowed \<and>
        unat lo \<le> n \<and> n \<le> unat hi)"
proof (cases "normalize_cmd c \<in> set default_denied")
  case True
  then have "normalize_cmd c \<notin> fst ` set default_allowed" using default_names_distinct by auto
  then have "\<nexists>e. (normalize_cmd c, e) \<in> set default_allowed" by force
  then show ?thesis
    using Default_denied [OF True] by (simp add: validate_def deny_rule_def)
next
  case denied: False
  show ?thesis
  proof (cases "normalize_cmd c \<in> fst ` set default_allowed")
    case True
    then obtain lo hi rd wr where e: "(normalize_cmd c, lo, hi, rd, wr) \<in> set default_allowed" by force
    then have "(normalize_cmd c, e') \<in> set default_allowed \<longleftrightarrow> e' = (lo, hi, rd, wr)" for e'
      using eq_key_imp_eq_value [OF _ e, of e'] default_names_distinct by (auto simp: e)
    then show ?thesis
      using Default_allowed [OF e] by (simp add: validate_def allow_rule_def not_less)
  next
    case False
    then have "\<nexists>e. (normalize_cmd c, e) \<in> set default_allowed" by force
    then show ?thesis
      using Default_unknown [OF denied False] by (simp add: validate_def)
  qed
qed

text \<open>
  C29 Whatever the letter case and the number of arguments, a command on the deny list is
  rejected as such, one on neither list as unknown, and an allowed one with too few or
  too many arguments for its argument count.
\<close>

theorem default_rejects:
  "(normalize_cmd c \<in> set default_denied \<longrightarrow>
      validate CommandRules_Default c n = Status_ProtocolError ''ERR proxy rejected command'') \<and>
   (normalize_cmd c \<notin> set default_denied \<and> normalize_cmd c \<notin> fst ` set default_allowed \<longrightarrow>
      validate CommandRules_Default c n = Status_ProtocolError ''ERR proxy rejected unknown command'') \<and>
   ((normalize_cmd c, lo, hi, rd, wr) \<in> set default_allowed \<and> (n < unat lo \<or> unat hi < n) \<longrightarrow>
      validate CommandRules_Default c n = Status_ProtocolError ''ERR wrong number of arguments'')"
  using Default_denied [of "normalize_cmd c"] Default_unknown [of "normalize_cmd c"]
    Default_allowed [of "normalize_cmd c" "(lo, hi, rd, wr)"]
  by (auto simp: validate_def deny_rule_def allow_rule_def)

theorem default_rejects_witness:
  "validate CommandRules_Default ''flushAll'' 1 = Status_ProtocolError ''ERR proxy rejected command'' \<and>
   validate CommandRules_Default ''get'' 3 = Status_ProtocolError ''ERR wrong number of arguments''"
proof -
  have 1: "normalize_cmd ''flushAll'' \<in> set default_denied"
    by code_simp
  have 2: "(normalize_cmd ''get'', 2, 2, True, False) \<in> set default_allowed"
    by code_simp
  show ?thesis
    using 1 2 default_rejects [of "''flushAll''" 1] default_rejects [of "''get''" 3 2 2 True False]
    by simp
qed

text \<open>
  A rule set for a command governs every spelling of it and no other command: after
  \<^verbatim>\<open>allow\<close> the bounds decide, after \<^verbatim>\<open>deny\<close> nothing passes, and commands with a
  different upper-case name are answered as before.
\<close>

lemma rule_update_local:
  "validate (rules_allow rules c lo hi rd wr) d n =
     (if normalize_cmd d = normalize_cmd c
      then (if unat lo \<le> n \<and> n \<le> unat hi then Status_Ok
            else Status_ProtocolError ''ERR wrong number of arguments'')
      else validate rules d n) \<and>
   validate (rules_deny rules c) d n =
     (if normalize_cmd d = normalize_cmd c
      then Status_ProtocolError ''ERR proxy rejected command'' else validate rules d n) \<and>
   validate (rules_setRule rules c r) (normalize_cmd d) n = validate (rules_setRule rules c r) d n"
  by (auto simp: validate_def rules_allow_def rules_deny_def rules_setRule_def)

text \<open>
  Every allowed entry of the default table is satisfiable and classified: at least one
  argument (the name itself), lower bound not above the upper, and exactly one of read
  and write.
\<close>

lemma default_entries_sane:
  "(c, lo, hi, rd, wr) \<in> set default_allowed \<Longrightarrow>
     0 < lo \<and> lo \<le> hi \<and> (rd \<longleftrightarrow> \<not> wr) \<and> validate CommandRules_Default c (unat lo) = Status_Ok"
proof -
  assume e: "(c, lo, hi, rd, wr) \<in> set default_allowed"
  have "list_all (\<lambda>(c, lo, hi, rd, wr). 0 < lo \<and> lo \<le> hi \<and> (rd \<longleftrightarrow> \<not> wr)) default_allowed"
    by (simp add: default_allowed_def UINT16_MAX_def)
  with e have b: "0 < lo \<and> lo \<le> hi \<and> (rd \<longleftrightarrow> \<not> wr)" by (auto simp: list_all_iff)
  have "normalize_cmd c = c" using default_names_upper e by (auto simp: list_all_iff)
  then have "CommandRules_Default (normalize_cmd c) = Some (allow_rule (lo, hi, rd, wr))"
    using Default_allowed [OF e] by simp
  with b show ?thesis by (simp add: validate_def allow_rule_def word_le_nat_alt)
qed

end
