(* ===== verification/Buffer_Heap.thy ===== *)
theory Buffer_Heap
  imports Proxy_Prelude
begin

text \<open>
  The reference-counted block heap of \<^verbatim>\<open>src/buffer.cpp\<close>: \<^verbatim>\<open>BufferBlock\<close>,
  \<^verbatim>\<open>BlockPool\<close>, \<^verbatim>\<open>BufferSlice\<close> and \<^verbatim>\<open>BufferChain\<close>. A worker thread has one
  pool, so the pool and every block it ever made are one record \<open>mem\<close>: the
  \<^verbatim>\<open>BlockPool\<close>'s own fields, the blocks in use by address, and the next address
  \<^verbatim>\<open>new\<close> returns. A block on the free list keeps its address and its storage there and
  is not in \<open>m_heap\<close>: an access through a pointer that outlived the block's last
  reference, like one through a null pointer, is \<^const>\<open>None\<close>. \<open>m_junk\<close> is what memory holds at an address that
  \<^verbatim>\<open>new char[capacity]\<close> has not initialised. Pointers to blocks are addresses; the
  back-pointer \<^verbatim>\<open>pool_\<close> of a block is this one pool.
\<close>

section \<open>BufferBlock\<close>

record block =
  b_data :: bytes
  b_capacity :: nat
  b_begin :: nat
  b_end :: nat
  b_refcount :: u32

record mem =
  m_block_size :: nat
  m_free :: "(addr \<times> block) list"
  m_heap :: "addr \<rightharpoonup> block"
  m_next :: addr
  m_junk :: "addr \<Rightarrow> nat \<Rightarrow> char"

definition BufferBlock_new :: "nat \<Rightarrow> (nat \<Rightarrow> char) \<Rightarrow> block" where
  "BufferBlock_new cap junk =
     \<lparr>b_data = map junk [0..<cap], b_capacity = cap, b_begin = 0, b_end = 0, b_refcount = 1\<rparr>"

definition block_writableBytes :: "block \<Rightarrow> nat" where
  "block_writableBytes b = size_sub (b_capacity b) (b_end b)"

definition block_size :: "block \<Rightarrow> nat" where
  "block_size b = size_sub (b_end b) (b_begin b)"

definition block_advanceEnd :: "nat \<Rightarrow> block \<Rightarrow> block" where
  "block_advanceEnd n b = b\<lparr>b_end := b_end b + n\<rparr>"

definition block_consume :: "nat \<Rightarrow> block \<Rightarrow> block" where
  "block_consume n b = b\<lparr>b_begin := min (b_end b) (b_begin b + n)\<rparr>"

definition block_reset :: "block \<Rightarrow> block" where
  "block_reset b = b\<lparr>b_begin := 0, b_end := 0, b_refcount := 1\<rparr>"

text \<open>A read of \<open>n\<close> bytes of a block's storage, and the bytes of its window.\<close>

definition read_bytes :: "nat \<Rightarrow> nat \<Rightarrow> bytes \<Rightarrow> bytes option" where
  "read_bytes off n xs = (if off + n \<le> length xs then Some (take n (drop off xs)) else None)"

definition block_bytes :: "block \<Rightarrow> bytes" where
  "block_bytes b = take (block_size b) (drop (b_begin b) (b_data b))"

text \<open>A method call through a \<^verbatim>\<open>BufferBlock*\<close> and a \<^verbatim>\<open>memcpy\<close> to its storage.\<close>

definition upd_block :: "addr \<Rightarrow> (block \<Rightarrow> block) \<Rightarrow> mem \<Rightarrow> mem option" where
  "upd_block a f m =
     (case m_heap m a of None \<Rightarrow> None
      | Some b \<Rightarrow> Some (m\<lparr>m_heap := (m_heap m)(a \<mapsto> f b)\<rparr>))"

definition write_bytes :: "nat \<Rightarrow> bytes \<Rightarrow> bytes \<Rightarrow> bytes" where
  "write_bytes off src dst = take off dst @ src @ drop (off + length src) dst"

definition block_write :: "addr \<Rightarrow> nat \<Rightarrow> bytes \<Rightarrow> mem \<Rightarrow> mem option" where
  "block_write a off src m =
     (case m_heap m a of None \<Rightarrow> None
      | Some b \<Rightarrow>
          if off + length src \<le> length (b_data b)
          then Some (m\<lparr>m_heap := (m_heap m)(a \<mapsto> b\<lparr>b_data := write_bytes off src (b_data b)\<rparr>)\<rparr>)
          else None)"

section \<open>BlockPool\<close>

definition BlockPool_new :: "nat \<Rightarrow> (addr \<Rightarrow> nat \<Rightarrow> char) \<Rightarrow> mem" where
  "BlockPool_new sz junk =
     \<lparr>m_block_size = sz, m_free = [], m_heap = Map.empty, m_next = 0, m_junk = junk\<rparr>"

definition pool_acquire :: "mem \<Rightarrow> (addr \<times> mem) option" where
  "pool_acquire m =
     (if m_free m = []
      then Some (m_next m,
                 m\<lparr>m_heap := (m_heap m)
                     (m_next m \<mapsto> BufferBlock_new (m_block_size m) (m_junk m (m_next m))),
                   m_next := Suc (m_next m)\<rparr>)
      else do {
        let (a, b) = last (m_free m);
        Some (a, m\<lparr>m_free := butlast (m_free m), m_heap := (m_heap m)(a \<mapsto> block_reset b)\<rparr>)
      })"

definition pool_recycle :: "addr \<Rightarrow> mem \<Rightarrow> mem option" where
  "pool_recycle a m = do {
     b \<leftarrow> m_heap m a;
     Some (m\<lparr>m_heap := (m_heap m)(a := None), m_free := m_free m @ [(a, block_reset b)]\<rparr>)
   }"

definition block_retain :: "addr \<Rightarrow> mem \<Rightarrow> mem option" where
  "block_retain a m = upd_block a (\<lambda>b. b\<lparr>b_refcount := b_refcount b + 1\<rparr>) m"

definition block_release :: "addr \<Rightarrow> mem \<Rightarrow> mem option" where
  "block_release a m = do {
     m1 \<leftarrow> upd_block a (\<lambda>b. b\<lparr>b_refcount := b_refcount b - 1\<rparr>) m;
     b \<leftarrow> m_heap m1 a;
     if b_refcount b = 0 then pool_recycle a m1 else Some m1
   }"

section \<open>BufferSlice\<close>

record slice =
  s_block :: "addr option"
  s_offset :: nat
  s_length :: nat

definition slice_empty :: slice where
  "slice_empty = \<lparr>s_block = None, s_offset = 0, s_length = 0\<rparr>"

definition slice_make :: "addr option \<Rightarrow> nat \<Rightarrow> nat \<Rightarrow> bool \<Rightarrow> mem \<Rightarrow> (slice \<times> mem) option" where
  "slice_make blk off len add_ref m = do {
     m1 \<leftarrow> (case blk of
             None \<Rightarrow> Some m
           | Some a \<Rightarrow> if add_ref then block_retain a m else Some m);
     Some (\<lparr>s_block = blk, s_offset = off, s_length = len\<rparr>, m1)
   }"

definition slice_retain :: "addr option \<Rightarrow> nat \<Rightarrow> nat \<Rightarrow> mem \<Rightarrow> (slice \<times> mem) option" where
  "slice_retain blk off len m = slice_make blk off len True m"

definition slice_copy :: "slice \<Rightarrow> mem \<Rightarrow> (slice \<times> mem) option" where
  "slice_copy other m = slice_make (s_block other) (s_offset other) (s_length other) True m"

definition slice_reset :: "slice \<Rightarrow> mem \<Rightarrow> (slice \<times> mem) option" where
  "slice_reset s m = do {
     m1 \<leftarrow> (case s_block s of None \<Rightarrow> Some m | Some a \<Rightarrow> block_release a m);
     Some (s\<lparr>s_block := None, s_length := 0\<rparr>, m1)
   }"

definition slice_destroy :: "slice \<Rightarrow> mem \<Rightarrow> mem option" where
  "slice_destroy s m = do { (_, m1) \<leftarrow> slice_reset s m; Some m1 }"

text \<open>
  The assignments, for two distinct slice objects \<open>this\<close> and \<open>other\<close>
  (\<^verbatim>\<open>this == &other\<close> leaves everything as it is). The moves return the moved-to and
  the moved-from slice.
\<close>

definition slice_assign :: "slice \<Rightarrow> slice \<Rightarrow> mem \<Rightarrow> (slice \<times> mem) option" where
  "slice_assign this other m = do {
     (_, m1) \<leftarrow> slice_reset this m;
     m2 \<leftarrow> (case s_block other of None \<Rightarrow> Some m1 | Some a \<Rightarrow> block_retain a m1);
     Some (\<lparr>s_block = s_block other, s_offset = s_offset other, s_length = s_length other\<rparr>, m2)
   }"

definition slice_move :: "slice \<Rightarrow> slice \<times> slice" where
  "slice_move other =
     (\<lparr>s_block = s_block other, s_offset = s_offset other, s_length = s_length other\<rparr>,
      other\<lparr>s_block := None, s_length := 0\<rparr>)"

definition slice_move_assign :: "slice \<Rightarrow> slice \<Rightarrow> mem \<Rightarrow> (slice \<times> slice \<times> mem) option" where
  "slice_move_assign this other m = do {
     (_, m1) \<leftarrow> slice_reset this m;
     Some (\<lparr>s_block = s_block other, s_offset = s_offset other, s_length = s_length other\<rparr>,
           other\<lparr>s_block := None, s_length := 0\<rparr>, m1)
   }"

text \<open>The bytes \<^verbatim>\<open>[data(), data() + size())\<close>; \<^verbatim>\<open>data()\<close> dereferences the block.\<close>

definition slice_bytes :: "mem \<Rightarrow> slice \<Rightarrow> bytes option" where
  "slice_bytes m s = do {
     a \<leftarrow> s_block s;
     b \<leftarrow> m_heap m a;
     read_bytes (s_offset s) (s_length s) (b_data b)
   }"

section \<open>BufferChain\<close>

record chain =
  c_slices :: "slice list"
  c_total :: nat

definition chain_empty :: chain where
  "chain_empty = \<lparr>c_slices = [], c_total = 0\<rparr>"

definition chain_append :: "chain \<Rightarrow> slice \<Rightarrow> chain" where
  "chain_append c s =
     c\<lparr>c_total := c_total c + s_length s, c_slices := c_slices c @ [fst (slice_move s)]\<rparr>"

definition chain_appendChain :: "chain \<Rightarrow> chain \<Rightarrow> chain \<times> chain" where
  "chain_appendChain c d =
     (foldl chain_append c (c_slices d), d\<lparr>c_slices := [], c_total := 0\<rparr>)"

fun slices_copy :: "slice list \<Rightarrow> mem \<Rightarrow> (slice list \<times> mem) option" where
  "slices_copy [] m = Some ([], m)"
| "slices_copy (s # ss) m = do {
     (s1, m1) \<leftarrow> slice_copy s m;
     (ss1, m2) \<leftarrow> slices_copy ss m1;
     Some (s1 # ss1, m2)
   }"

definition chain_copy :: "chain \<Rightarrow> mem \<Rightarrow> (chain \<times> mem) option" where
  "chain_copy c m = do {
     (ss, m1) \<leftarrow> slices_copy (c_slices c) m;
     Some (\<lparr>c_slices = ss, c_total = c_total c\<rparr>, m1)
   }"

fun slices_destroy :: "slice list \<Rightarrow> mem \<Rightarrow> mem option" where
  "slices_destroy [] m = Some m"
| "slices_destroy (s # ss) m = do { m1 \<leftarrow> slice_destroy s m; slices_destroy ss m1 }"

definition chain_destroy :: "chain \<Rightarrow> mem \<Rightarrow> mem option" where
  "chain_destroy c m = slices_destroy (c_slices c) m"

definition chain_move :: "chain \<Rightarrow> chain \<times> chain" where
  "chain_move other =
     (\<lparr>c_slices = c_slices other, c_total = c_total other\<rparr>,
      other\<lparr>c_slices := [], c_total := 0\<rparr>)"

definition chain_move_assign :: "chain \<Rightarrow> chain \<Rightarrow> mem \<Rightarrow> (chain \<times> chain \<times> mem) option" where
  "chain_move_assign this other m = do {
     m1 \<leftarrow> slices_destroy (c_slices this) m;
     Some (\<lparr>c_slices = c_slices other, c_total = c_total other\<rparr>,
           other\<lparr>c_slices := [], c_total := 0\<rparr>, m1)
   }"

fun slices_string :: "mem \<Rightarrow> slice list \<Rightarrow> bytes option" where
  "slices_string m [] = Some []"
| "slices_string m (s # ss) = do {
     x \<leftarrow> slice_bytes m s;
     xs \<leftarrow> slices_string m ss;
     Some (x @ xs)
   }"

definition chain_toString :: "mem \<Rightarrow> chain \<Rightarrow> bytes option" where
  "chain_toString m c = slices_string m (c_slices c)"

section \<open>Ownership: the invariant of the heap\<close>

text \<open>
  \<open>R\<close> is the multiset of all the references held by live owners (one for each
  occurrence of a block in an \<^verbatim>\<open>IoBuffer\<close> and one for each slice). The heap is well
  formed for \<open>R\<close> when every block in use has an owner and its counter is the number of
  its owners, every other block ever made is on the free list exactly once, and every
  block's window lies inside its storage.
\<close>

definition block_ok :: "nat \<Rightarrow> block \<Rightarrow> bool" where
  "block_ok sz b \<longleftrightarrow>
     length (b_data b) = sz \<and> b_capacity b = sz \<and> b_begin b \<le> b_end b \<and> b_end b \<le> sz"

definition addr_ok :: "mem \<Rightarrow> addr multiset \<Rightarrow> addr \<Rightarrow> bool" where
  "addr_ok m R a \<longleftrightarrow>
     (case m_heap m a of
        None \<Rightarrow> a \<notin># R \<and> (a < m_next m \<longleftrightarrow> a \<in> fst ` set (m_free m))
      | Some b \<Rightarrow>
          a < m_next m \<and> block_ok (m_block_size m) b \<and> a \<notin> fst ` set (m_free m) \<and>
          a \<in># R \<and> unat (b_refcount b) = count R a)"

definition heap_ok :: "mem \<Rightarrow> addr multiset \<Rightarrow> bool" where
  "heap_ok m R \<longleftrightarrow>
     distinct (map fst (m_free m)) \<and> (\<forall>(a, b) \<in> set (m_free m). block_ok (m_block_size m) b) \<and> (\<forall>a. addr_ok m R a)"

definition slice_refs :: "slice \<Rightarrow> addr multiset" where
  "slice_refs s = (case s_block s of None \<Rightarrow> {#} | Some a \<Rightarrow> {#a#})"

definition slices_refs :: "slice list \<Rightarrow> addr multiset" where
  "slices_refs ss = sum_list (map slice_refs ss)"

definition chain_refs :: "chain \<Rightarrow> addr multiset" where
  "chain_refs c = slices_refs (c_slices c)"

text \<open>A slice that owns its block and lies in the part of it already written.\<close>

definition slice_ok :: "mem \<Rightarrow> slice \<Rightarrow> bool" where
  "slice_ok m s \<longleftrightarrow>
     (\<exists>a b. s_block s = Some a \<and> m_heap m a = Some b \<and> s_offset s + s_length s \<le> b_end b \<and>
        s_offset s + s_length s \<le> length (b_data b))"

definition chain_ok :: "mem \<Rightarrow> chain \<Rightarrow> bool" where
  "chain_ok m c \<longleftrightarrow>
     list_all (slice_ok m) (c_slices c) \<and> c_total c = sum_list (map s_length (c_slices c))"

text \<open>
  What an operation does to the blocks of others: nothing but the counter
  (\<open>unchanged\<close>), or at most an advance of its window over bytes that stay (\<open>grown\<close>).
\<close>

definition unchanged :: "mem \<Rightarrow> mem \<Rightarrow> addr \<Rightarrow> bool" where
  "unchanged m m' a \<longleftrightarrow>
     (\<exists>b r. m_heap m a = Some b \<and> m_heap m' a = Some (b\<lparr>b_refcount := r\<rparr>))"

definition grown :: "mem \<Rightarrow> mem \<Rightarrow> addr \<Rightarrow> bool" where
  "grown m m' a \<longleftrightarrow>
     (\<exists>b b'. m_heap m a = Some b \<and> m_heap m' a = Some b' \<and>
        b_begin b \<le> b_begin b' \<and> b_end b \<le> b_end b' \<and>
        take (b_end b) (b_data b') = take (b_end b) (b_data b))"

section \<open>Lemmas on single blocks\<close>

lemma upd_block_Some [simp]:
  "m_heap m a = Some b \<Longrightarrow> upd_block a f m = Some (m\<lparr>m_heap := (m_heap m)(a \<mapsto> f b)\<rparr>)"
  by (simp add: upd_block_def)

lemma block_size_ok: "block_ok sz b \<Longrightarrow> block_size b = b_end b - b_begin b"
  by (simp add: block_ok_def block_size_def)

lemma read_block:
  "block_ok sz b \<Longrightarrow> read_bytes (b_begin b) (block_size b) (b_data b) = Some (block_bytes b)"
  by (simp add: read_bytes_def block_bytes_def block_ok_def block_size_def)

lemma length_block_bytes: "block_ok sz b \<Longrightarrow> length (block_bytes b) = block_size b"
  by (auto simp: block_bytes_def block_size_def block_ok_def)

lemma block_bytes_refcount [simp]: "block_bytes (b\<lparr>b_refcount := r\<rparr>) = block_bytes b"
  by (simp add: block_bytes_def block_size_def)

lemma block_size_refcount [simp]: "block_size (b\<lparr>b_refcount := r\<rparr>) = block_size b"
  by (simp add: block_size_def)

lemma block_ok_refcount [simp]: "block_ok sz (b\<lparr>b_refcount := r\<rparr>) = block_ok sz b"
  by (simp add: block_ok_def)

lemma block_ok_consume:
  "block_ok sz b \<Longrightarrow> block_ok sz (block_consume n b)"
  by (auto simp: block_ok_def block_consume_def)

lemma block_size_consume:
  "block_ok sz b \<Longrightarrow> block_size (block_consume n b) = block_size b - n"
  by (auto simp: block_ok_def block_consume_def block_size_def)

lemma block_bytes_consume:
  "block_ok sz b \<Longrightarrow> block_bytes (block_consume n b) = drop n (block_bytes b)"
  by (auto simp: block_bytes_def block_size_consume block_size_ok drop_take min_def
        block_consume_def block_ok_def add.commute)

lemma length_write_bytes [simp]:
  "off + length src \<le> length dst \<Longrightarrow> length (write_bytes off src dst) = length dst"
  by (simp add: write_bytes_def)

lemma take_write_bytes:
  "n \<le> off \<Longrightarrow> off \<le> length dst \<Longrightarrow> take n (write_bytes off src dst) = take n dst"
  by (simp add: write_bytes_def)

section \<open>Frame relations\<close>

lemma unchanged_refl: "a \<in> dom (m_heap m) \<Longrightarrow> unchanged m m a"
proof -
  assume "a \<in> dom (m_heap m)"
  then obtain b where "m_heap m a = Some b" by blast
  then show ?thesis
    unfolding unchanged_def by (intro exI [of _ b] exI [of _ "b_refcount b"]) simp
qed

lemma unchanged_trans: "unchanged m1 m2 a \<Longrightarrow> unchanged m2 m3 a \<Longrightarrow> unchanged m1 m3 a"
  by (auto simp: unchanged_def)

lemma grown_refl: "a \<in> dom (m_heap m) \<Longrightarrow> grown m m a"
  by (auto simp: grown_def)

lemma grown_trans:
  assumes "grown m1 m2 a" and "grown m2 m3 a"
  shows "grown m1 m3 a"
proof -
  obtain b1 b2 b3 where b: "m_heap m1 a = Some b1" "m_heap m2 a = Some b2" "m_heap m3 a = Some b3"
    and le: "b_end b1 \<le> b_end b2" "b_end b2 \<le> b_end b3"
      "b_begin b1 \<le> b_begin b2" "b_begin b2 \<le> b_begin b3"
    and t: "take (b_end b1) (b_data b2) = take (b_end b1) (b_data b1)"
      "take (b_end b2) (b_data b3) = take (b_end b2) (b_data b2)"
    using assms by (auto simp: grown_def)
  have "take (b_end b1) (b_data b3) = take (b_end b1) (take (b_end b2) (b_data b3))"
    using le by (simp add: min_absorb1)
  also have "\<dots> = take (b_end b1) (b_data b2)"
    using le t(2) by (simp add: min_absorb1)
  finally show ?thesis
    using b le t(1) by (auto simp: grown_def)
qed

lemma unchanged_grown: "unchanged m m' a \<Longrightarrow> grown m m' a"
  by (auto simp: unchanged_def grown_def)

lemma slice_ok_grown:
  assumes "slice_ok m s" and "grown m m' (the (s_block s))"
  shows "slice_ok m' s" and "slice_bytes m' s = slice_bytes m s"
proof -
  obtain a b b' where a: "s_block s = Some a" and b: "m_heap m a = Some b" "m_heap m' a = Some b'"
    and le: "s_offset s + s_length s \<le> b_end b" "b_end b \<le> b_end b'"
      "s_offset s + s_length s \<le> length (b_data b)"
    and t: "take (b_end b) (b_data b') = take (b_end b) (b_data b)"
    using assms by (auto simp: slice_ok_def grown_def)
  have len: "s_offset s + s_length s \<le> length (b_data b')"
    using arg_cong [OF t, of length] le(1,3) by (simp add: min_def split: if_splits)
  show "slice_ok m' s" using a b le len by (auto simp: slice_ok_def)
  have *: "take (s_length s) (drop (s_offset s) xs) =
      take (s_length s) (drop (s_offset s) (take (b_end b) xs))" for xs :: bytes
    using le(1) by (simp add: drop_take min_def)
  show "slice_bytes m' s = slice_bytes m s"
    using a b t le(3) len * [of "b_data b'"] * [of "b_data b"] by (simp add: slice_bytes_def read_bytes_def)
qed

lemma slice_refs_ok: "slice_ok m s \<Longrightarrow> slice_refs s = {#the (s_block s)#}"
  by (auto simp: slice_ok_def slice_refs_def)

lemma slices_refs_simps [simp]:
  "slices_refs [] = {#}"
  "slices_refs (s # ss) = slice_refs s + slices_refs ss"
  "slices_refs (ss @ ts) = slices_refs ss + slices_refs ts"
  by (simp_all add: slices_refs_def)

lemma slices_grown:
  assumes "list_all (slice_ok m) ss" and "\<And>a. a \<in># slices_refs ss \<Longrightarrow> grown m m' a"
  shows "list_all (slice_ok m') ss \<and> slices_string m' ss = slices_string m ss"
  using assms
proof (induction ss)
  case (Cons s ss)
  have s: "slice_ok m s" using Cons.prems by simp
  then have "grown m m' (the (s_block s))"
    using Cons.prems(2) [of "the (s_block s)"] by (simp add: slice_refs_ok)
  with s have "slice_ok m' s" "slice_bytes m' s = slice_bytes m s"
    by (rule slice_ok_grown)+
  moreover have "list_all (slice_ok m') ss \<and> slices_string m' ss = slices_string m ss"
    using Cons.prems by (intro Cons.IH) auto
  ultimately show ?case by simp
qed simp

text \<open>A chain keeps its bytes while the blocks it owns only grow.\<close>

lemma chain_grown:
  assumes "chain_ok m c" and "\<And>a. a \<in># chain_refs c \<Longrightarrow> grown m m' a"
  shows "chain_ok m' c" and "chain_toString m' c = chain_toString m c"
  using slices_grown [of m "c_slices c" m'] assms
  by (auto simp: chain_ok_def chain_refs_def chain_toString_def)

section \<open>Each heap operation, with its frame\<close>

lemma heap_okD:
  assumes "heap_ok m R"
  shows "m_heap m a = Some b \<Longrightarrow> block_ok (m_block_size m) b"
    and "m_heap m a = Some b \<Longrightarrow> a < m_next m"
    and "a \<in># R \<Longrightarrow> \<exists>b. m_heap m a = Some b"
    and "a \<in># R \<Longrightarrow> a \<notin> fst ` set (m_free m)"
    and "m_heap m a = Some b \<Longrightarrow> a \<in># R \<and> unat (b_refcount b) = count R a"
    and "(a, b) \<in> set (m_free m) \<Longrightarrow> m_heap m a = None \<and> a < m_next m \<and> block_ok (m_block_size m) b"
proof -
  have ok: "addr_ok m R a" using assms by (simp add: heap_ok_def)
  show "m_heap m a = Some b \<Longrightarrow> block_ok (m_block_size m) b"
    and "m_heap m a = Some b \<Longrightarrow> a < m_next m"
    and "m_heap m a = Some b \<Longrightarrow> a \<in># R \<and> unat (b_refcount b) = count R a"
    using ok by (simp_all add: addr_ok_def)
  show "a \<in># R \<Longrightarrow> \<exists>b. m_heap m a = Some b"
    using ok by (auto simp: addr_ok_def split: option.splits)
  show "a \<in># R \<Longrightarrow> a \<notin> fst ` set (m_free m)"
    using ok by (auto simp: addr_ok_def split: option.splits)
  show "m_heap m a = None \<and> a < m_next m \<and> block_ok (m_block_size m) b" if "(a, b) \<in> set (m_free m)"
  proof -
    have "a \<in> fst ` set (m_free m)" using that by (metis fst_conv imageI)
    moreover have "block_ok (m_block_size m) b" using assms that by (auto simp: heap_ok_def)
    ultimately show ?thesis using ok by (cases "m_heap m a") (simp_all add: addr_ok_def)
  qed
qed

text \<open>The blocks in use are the owned ones; all others are on the free list.\<close>

lemma heap_ok_blocks:
  assumes "heap_ok m R"
  shows "dom (m_heap m) = set_mset R" and "\<forall>a b. m_heap m a = Some b \<longrightarrow> unat (b_refcount b) = count R a"
    and "distinct (map fst (m_free m))" and "fst ` set (m_free m) = {..<m_next m} - set_mset R"
proof -
  have ok: "addr_ok m R a" for a using assms by (simp add: heap_ok_def)
  show "dom (m_heap m) = set_mset R" using heap_okD(3,5) [OF assms] by fastforce
  show "\<forall>a b. m_heap m a = Some b \<longrightarrow> unat (b_refcount b) = count R a" using heap_okD(5) [OF assms] by blast
  show "distinct (map fst (m_free m))" using assms by (simp add: heap_ok_def)
  have "a \<in> fst ` set (m_free m) \<longleftrightarrow> a < m_next m \<and> a \<notin># R" for a
    using ok [of a] by (cases "m_heap m a") (auto simp: addr_ok_def)
  then show "fst ` set (m_free m) = {..<m_next m} - set_mset R" by auto
qed

lemma heap_ok_new [simp]: "heap_ok (BlockPool_new sz junk) {#}"
  by (simp add: heap_ok_def addr_ok_def BlockPool_new_def)

text \<open>
  Every operation changes one block: it is enough to look at that block and at how the
  other addresses' entries, free-list membership and owner counts compare.
\<close>

lemma heap_ok_change:
  assumes "heap_ok m R"
    and "distinct (map fst (m_free m'))" and "\<forall>(x, b) \<in> set (m_free m'). block_ok (m_block_size m) b"
    and "m_block_size m' = m_block_size m" and "m_next m \<le> m_next m'" and "m_next m' \<le> max (m_next m) (Suc a)"
    and "\<And>x. x \<noteq> a \<Longrightarrow> m_heap m' x = m_heap m x"
    and "\<And>x. x \<noteq> a \<Longrightarrow> x \<in> fst ` set (m_free m') \<longleftrightarrow> x \<in> fst ` set (m_free m)"
    and "\<And>x. x \<noteq> a \<Longrightarrow> count R' x = count R x"
    and "a \<le> m_next m" and "addr_ok m' R' a"
  shows "heap_ok m' R'"
proof -
  have "addr_ok m' R' x" for x
  proof (cases "x = a")
    case False
    then have "x \<in># R' \<longleftrightarrow> x \<in># R" and "x < m_next m' \<longleftrightarrow> x < m_next m"
      using assms(5,6,9,10) by (metis count_greater_zero_iff, linarith)
    moreover have "addr_ok m R x" using assms(1) by (simp add: heap_ok_def)
    ultimately show ?thesis
      using False assms(4,7-9) by (auto simp: addr_ok_def split: option.splits)
  qed (use assms(11) in simp)
  with assms(2-4) show ?thesis by (simp add: heap_ok_def)
qed

lemma unchanged_change:
  assumes "heap_ok m R" and "\<And>x. x \<noteq> a \<Longrightarrow> m_heap m' x = m_heap m x"
    and "x = a \<Longrightarrow> unchanged m m' a" and "x \<in># R"
  shows "unchanged m m' x"
proof (cases "x = a")
  case False
  have "x \<in> dom (m_heap m)" using heap_okD(3) [OF assms(1,4)] by blast
  then have "unchanged m m x" by (rule unchanged_refl)
  with False assms(2) show ?thesis by (simp add: unchanged_def)
qed (use assms in blast)

lemma heap_ok_update:
  assumes "heap_ok m R" and "m_heap m a = Some b"
    and "block_ok (m_block_size m) b'" and "b_refcount b' = b_refcount b"
  shows "heap_ok (m\<lparr>m_heap := (m_heap m)(a \<mapsto> b')\<rparr>) R"
proof (rule heap_ok_change [OF assms(1), where a = a])
  have "addr_ok m R a" using assms(1) by (simp add: heap_ok_def)
  then show "addr_ok (m\<lparr>m_heap := (m_heap m)(a \<mapsto> b')\<rparr>) R a"
    using assms by (simp add: addr_ok_def)
qed (use assms(1) heap_okD(2) [OF assms(1,2)] in \<open>simp_all add: heap_ok_def\<close>)

lemma retain_spec:
  assumes "heap_ok m R" and "a \<in># R" and "Suc (count R a) < 2 ^ 32"
  shows "\<exists>m'. block_retain a m = Some m' \<and> heap_ok m' (add_mset a R) \<and>
    m_block_size m' = m_block_size m \<and> (\<forall>x. x \<in># R \<longrightarrow> unchanged m m' x)"
proof -
  obtain b where b: "m_heap m a = Some b" using assms heap_okD(3) by blast
  have c: "unat (b_refcount b) = count R a" using heap_okD(5) [OF assms(1) b] by simp
  have n: "unat (b_refcount b + 1) = Suc (count R a)"
    using assms(3) c by (simp add: unat_word_ariths)
  let ?m = "m\<lparr>m_heap := (m_heap m)(a \<mapsto> b\<lparr>b_refcount := b_refcount b + 1\<rparr>)\<rparr>"
  have "heap_ok ?m (add_mset a R)"
  proof (rule heap_ok_change [OF assms(1), where a = a])
    show "addr_ok ?m (add_mset a R) a"
      using heap_okD(1,2) [OF assms(1) b] heap_okD(4) [OF assms(1,2)] n
      by (simp add: addr_ok_def)
  qed (use assms(1) heap_okD(2) [OF assms(1) b] in \<open>simp_all add: heap_ok_def\<close>)
  moreover have "unchanged m ?m x" if "x \<in># R" for x
    by (rule unchanged_change [OF assms(1) _ _ that, where a = a])
      (use b in \<open>auto simp: unchanged_def\<close>)
  ultimately show ?thesis using b by (auto simp: block_retain_def)
qed

lemma recycle_spec:
  assumes "heap_ok m R" and "a \<in># R" and "count R a = 1" and "m_heap m a = Some b"
  shows "\<exists>m'. pool_recycle a (m\<lparr>m_heap := (m_heap m)(a \<mapsto> b\<lparr>b_refcount := r\<rparr>)\<rparr>) = Some m' \<and>
    heap_ok m' (R - {#a#}) \<and> m_block_size m' = m_block_size m \<and> (\<forall>x. x \<noteq> a \<longrightarrow> m_heap m' x = m_heap m x)"
proof -
  let ?m = "m\<lparr>m_heap := (m_heap m)(a := None), m_free := m_free m @ [(a, block_reset b)]\<rparr>"
  have "heap_ok ?m (R - {#a#})"
  proof (rule heap_ok_change [OF assms(1), where a = a])
    have "a \<notin># R - {#a#}" using assms(3) by (simp add: not_in_iff)
    then show "addr_ok ?m (R - {#a#}) a" using heap_okD(2) [OF assms(1,4)] by (simp add: addr_ok_def)
    show "distinct (map fst (m_free ?m))"
      using assms(1) heap_okD(4) [OF assms(1,2)] by (simp add: heap_ok_def)
    show "\<forall>(x, c) \<in> set (m_free ?m). block_ok (m_block_size m) c"
      using heap_okD(1) [OF assms(1,4)] assms(1) by (auto simp: heap_ok_def block_ok_def block_reset_def)
  qed (use heap_okD(2) [OF assms(1,4)] in simp_all)
  then show ?thesis
    by (simp add: pool_recycle_def block_reset_def)
qed

lemma release_spec:
  assumes "heap_ok m (add_mset a F)"
  shows "\<exists>m'. block_release a m = Some m' \<and> heap_ok m' F \<and> m_block_size m' = m_block_size m \<and>
    (\<forall>x. x \<in># F \<longrightarrow> unchanged m m' x)"
proof -
  let ?R = "add_mset a F"
  have aR: "a \<in># ?R" by simp
  obtain b where b: "m_heap m a = Some b" using heap_okD(3) [OF assms aR] by blast
  have c: "unat (b_refcount b) = Suc (count F a)" using heap_okD(5) [OF assms b] by simp
  then have "b_refcount b \<noteq> 0" by auto
  then have n: "unat (b_refcount b - 1) = count F a" using c by (simp add: unat_minus_one)
  let ?b = "b\<lparr>b_refcount := b_refcount b - 1\<rparr>"
  let ?m = "m\<lparr>m_heap := (m_heap m)(a \<mapsto> ?b)\<rparr>"
  show ?thesis
  proof (cases "a \<in># F")
    case True
    then have "b_refcount b - 1 \<noteq> 0" using n by (metis not_in_iff unat_0)
    moreover have "heap_ok ?m F"
    proof (rule heap_ok_change [OF assms, where a = a])
      show "addr_ok ?m F a"
        using heap_okD(1,2) [OF assms b] heap_okD(4) [OF assms aR] n True
        by (simp add: addr_ok_def)
    qed (use assms heap_okD(2) [OF assms b] in \<open>simp_all add: heap_ok_def\<close>)
    moreover have "unchanged m ?m x" if "x \<in># F" for x
      by (rule unchanged_change [OF assms, where a = a])
        (use b that in \<open>auto simp: unchanged_def\<close>)
    ultimately show ?thesis using b True by (simp add: block_release_def)
  next
    case False
    then have z: "b_refcount b - 1 = 0" using n by (metis not_in_iff unat_eq_zero)
    have "count ?R a = 1" using False by (simp add: not_in_iff)
    from recycle_spec [OF assms aR this b, of "b_refcount b - 1"]
    obtain m' where m': "pool_recycle a ?m = Some m'" "heap_ok m' F"
      "m_block_size m' = m_block_size m" "\<forall>x. x \<noteq> a \<longrightarrow> m_heap m' x = m_heap m x"
      by auto
    have "unchanged m m' x" if "x \<in># F" for x
      by (rule unchanged_change [OF assms, where a = a])
        (use m'(4) False that in auto)
    with m' z b False show ?thesis by (simp add: block_release_def)
  qed
qed

lemma acquire_spec:
  assumes "heap_ok m R"
  shows "\<exists>a b m'. pool_acquire m = Some (a, m') \<and> heap_ok m' (add_mset a R) \<and> a \<notin># R \<and>
    m_heap m' a = Some b \<and> b_begin b = 0 \<and> b_end b = 0 \<and> m_block_size m' = m_block_size m \<and>
    (\<forall>x. x \<in># R \<longrightarrow> unchanged m m' x)"
proof (cases "m_free m = []")
  case True
  let ?a = "m_next m"
  let ?b = "BufferBlock_new (m_block_size m) (m_junk m ?a)"
  let ?m = "m\<lparr>m_heap := (m_heap m)(?a \<mapsto> ?b), m_next := Suc ?a\<rparr>"
  have none: "m_heap m ?a = None"
    using heap_okD(2) [OF assms, of ?a] by (cases "m_heap m ?a") auto
  then have nR: "?a \<notin># R" using heap_okD(3) [OF assms] by fastforce
  have b: "block_ok (m_block_size m) ?b" by (simp add: block_ok_def BufferBlock_new_def)
  have "heap_ok ?m (add_mset ?a R)"
  proof (rule heap_ok_change [OF assms, where a = ?a])
    show "addr_ok ?m (add_mset ?a R) ?a"
      using b nR True by (simp add: addr_ok_def BufferBlock_new_def not_in_iff)
  qed (simp_all add: True)
  moreover have "unchanged m ?m x" if "x \<in># R" for x
    by (rule unchanged_change [OF assms, where a = ?a]) (use nR that in auto)
  ultimately show ?thesis
    using True nR by (simp add: pool_acquire_def BufferBlock_new_def)
next
  case False
  then obtain fs a b where free: "m_free m = fs @ [(a, b)]" by (metis rev_exhaust surj_pair)
  then have ab: "m_heap m a = None" "a < m_next m" "block_ok (m_block_size m) b"
    using heap_okD(6) [OF assms, of a b] by simp_all
  then have nR: "a \<notin># R" using heap_okD(3) [OF assms] by fastforce
  let ?m = "m\<lparr>m_free := fs, m_heap := (m_heap m)(a \<mapsto> block_reset b)\<rparr>"
  have d: "distinct (map fst fs)" "a \<notin> fst ` set fs" "\<forall>(x, c) \<in> set fs. block_ok (m_block_size m) c"
    using assms by (simp_all add: heap_ok_def free)
  have "heap_ok ?m (add_mset a R)"
  proof (rule heap_ok_change [OF assms, where a = a])
    show "addr_ok ?m (add_mset a R) a"
      using ab d(2) nR by (simp add: addr_ok_def block_reset_def block_ok_def not_in_iff)
    show "x \<in> fst ` set (m_free ?m) \<longleftrightarrow> x \<in> fst ` set (m_free m)" if "x \<noteq> a" for x
      using that by (simp add: free)
  qed (use d ab in simp_all)
  moreover have "unchanged m ?m x" if "x \<in># R" for x
    by (rule unchanged_change [OF assms, where a = a]) (use nR that in auto)
  ultimately show ?thesis
    using nR by (simp add: pool_acquire_def block_reset_def free)
qed

section \<open>Slices and chains as owners\<close>

lemma slice_destroy_spec:
  assumes "heap_ok m (slice_refs s + F)"
  shows "\<exists>m'. slice_destroy s m = Some m' \<and> heap_ok m' F \<and> m_block_size m' = m_block_size m \<and>
    (\<forall>x. x \<in># F \<longrightarrow> unchanged m m' x)"
proof (cases "s_block s")
  case None
  then show ?thesis
    using assms heap_okD(3) [OF assms]
    by (auto simp: slice_destroy_def slice_reset_def slice_refs_def intro!: unchanged_refl)
next
  case (Some a)
  then have "heap_ok m (add_mset a F)" using assms by (simp add: slice_refs_def)
  from release_spec [OF this] Some show ?thesis
    by (auto simp: slice_destroy_def slice_reset_def)
qed

lemma slices_destroy_spec:
  assumes "heap_ok m (slices_refs ss + F)"
  shows "\<exists>m'. slices_destroy ss m = Some m' \<and> heap_ok m' F \<and> m_block_size m' = m_block_size m \<and>
    (\<forall>x. x \<in># F \<longrightarrow> unchanged m m' x)"
  using assms
proof (induction ss arbitrary: m)
  case Nil
  then show ?case using heap_okD(3) [of m F] by (auto intro!: unchanged_refl)
next
  case (Cons s ss)
  from Cons.prems have "heap_ok m (slice_refs s + (slices_refs ss + F))" by (simp add: add.assoc)
  from slice_destroy_spec [OF this]
  obtain m1 where 1: "slice_destroy s m = Some m1" "heap_ok m1 (slices_refs ss + F)"
    "m_block_size m1 = m_block_size m" "\<forall>x. x \<in># slices_refs ss + F \<longrightarrow> unchanged m m1 x"
    by blast
  from Cons.IH [OF 1(2)] obtain m2 where 2: "slices_destroy ss m1 = Some m2" "heap_ok m2 F"
    "m_block_size m2 = m_block_size m1" "\<forall>x. x \<in># F \<longrightarrow> unchanged m1 m2 x"
    by blast
  have "unchanged m m2 x" if "x \<in># F" for x
    using 1(4) 2(4) that unchanged_trans [of m m1 x m2] by simp
  with 1 2 show ?case by simp
qed

lemma chain_destroy_spec:
  assumes "heap_ok m (chain_refs c + F)"
  shows "\<exists>m'. chain_destroy c m = Some m' \<and> heap_ok m' F \<and> m_block_size m' = m_block_size m \<and>
    (\<forall>x. x \<in># F \<longrightarrow> unchanged m m' x)"
  using slices_destroy_spec [of m "c_slices c" F] assms
  by (simp add: chain_destroy_def chain_refs_def)

lemma slice_move_fst [simp]: "fst (slice_move s) = s"
  by (simp add: slice_move_def)

lemma chain_append_simps [simp]:
  "c_slices (chain_append c s) = c_slices c @ [s]"
  "c_total (chain_append c s) = c_total c + s_length s"
  by (simp_all add: chain_append_def)

lemma slices_string_append:
  "slices_string m (ss @ ts) =
     do { x \<leftarrow> slices_string m ss; y \<leftarrow> slices_string m ts; Some (x @ y) }"
  by (induction ss) (auto split: Option.bind_split)

lemma slices_string_ok: "list_all (slice_ok m) ss \<Longrightarrow> \<exists>x. slices_string m ss = Some x"
  by (induction ss) (auto simp: slice_ok_def slice_bytes_def read_bytes_def)

lemma slice_bytes_length: "slice_bytes m s = Some x \<Longrightarrow> length x = s_length s"
  by (auto simp: slice_bytes_def read_bytes_def bind_Some_iff split: if_splits)

lemma slices_string_length:
  "slices_string m ss = Some x \<Longrightarrow> length x = sum_list (map s_length ss)"
  by (induction ss arbitrary: x) (auto simp: bind_Some_iff slice_bytes_length)

lemma chain_toString_ok: "chain_ok m c \<Longrightarrow> \<exists>x. chain_toString m c = Some x"
  by (auto simp: chain_ok_def chain_toString_def intro: slices_string_ok)

lemma chain_append_ok:
  "chain_ok m c \<Longrightarrow> slice_ok m s \<Longrightarrow> chain_ok m (chain_append c s)"
  by (simp add: chain_ok_def)

lemma foldl_chain_append:
  "c_slices (foldl chain_append c ss) = c_slices c @ ss"
  "c_total (foldl chain_append c ss) = c_total c + sum_list (map s_length ss)"
  by (induction ss arbitrary: c) simp_all

text \<open>
  \<^verbatim>\<open>appendChain\<close> moves the slices: no counter changes, the target's bytes are the
  concatenation, the source is empty and its references are the target's.
\<close>

lemma appendChain_spec:
  assumes "chain_ok m c" and "chain_ok m d" and "chain_appendChain c d = (c', d')"
  shows "chain_ok m c'" and "d' = chain_empty" and "c_total c' = c_total c + c_total d"
    and "chain_refs c' = chain_refs c + chain_refs d"
    and "chain_toString m c' = do { x \<leftarrow> chain_toString m c; y \<leftarrow> chain_toString m d; Some (x @ y) }"
  using assms
  by (auto simp: chain_appendChain_def chain_ok_def foldl_chain_append chain_empty_def chain_refs_def
        chain_toString_def slices_string_append)

end
