(* ===== verification/Byte_Queue.thy ===== *)
theory Byte_Queue
  imports Proxy_Prelude
begin

text \<open>
  What the proxy promises of a byte buffer: that it is a queue of bytes. The contract
  is a locale over the operations a client of \<^verbatim>\<open>IoBuffer\<close> calls, and its client lemma
  says that any sequence of them gives the same views and the same final contents as
  on a plain list. \<^verbatim>\<open>Io_Buffer\<close> interprets it.
\<close>

datatype bq_op = Append bytes | Consume nat | View | Clear

text \<open>The reference: the operations on a list of bytes, with the views that were seen.\<close>

fun bq_spec :: "bq_op list \<Rightarrow> bytes \<Rightarrow> bytes list \<times> bytes" where
  "bq_spec [] xs = ([], xs)"
| "bq_spec (Append d # ops) xs = bq_spec ops (xs @ d)"
| "bq_spec (Consume n # ops) xs = bq_spec ops (drop n xs)"
| "bq_spec (View # ops) xs = (let (vs, ys) = bq_spec ops xs in (xs # vs, ys))"
| "bq_spec (Clear # ops) xs = bq_spec ops []"

text \<open>The same sequence on an implementation.\<close>

fun bq_run ::
  "(bytes \<Rightarrow> 's \<Rightarrow> 's option) \<Rightarrow> (nat \<Rightarrow> 's \<Rightarrow> 's option) \<Rightarrow> ('s \<Rightarrow> (bytes \<times> 's) option) \<Rightarrow>
     ('s \<Rightarrow> 's option) \<Rightarrow> bq_op list \<Rightarrow> 's \<Rightarrow> (bytes list \<times> 's) option" where
  "bq_run app con vw clr [] s = Some ([], s)"
| "bq_run app con vw clr (Append d # ops) s = do { s1 \<leftarrow> app d s; bq_run app con vw clr ops s1 }"
| "bq_run app con vw clr (Consume n # ops) s = do { s1 \<leftarrow> con n s; bq_run app con vw clr ops s1 }"
| "bq_run app con vw clr (View # ops) s = do {
     (v, s1) \<leftarrow> vw s;
     (vs, s2) \<leftarrow> bq_run app con vw clr ops s1;
     Some (v # vs, s2)
   }"
| "bq_run app con vw clr (Clear # ops) s = do { s1 \<leftarrow> clr s; bq_run app con vw clr ops s1 }"

locale byte_queue =
  fixes queue :: "'s \<Rightarrow> bytes"
    and inv :: "'s \<Rightarrow> bool"
    and app :: "bytes \<Rightarrow> 's \<Rightarrow> 's option"
    and con :: "nat \<Rightarrow> 's \<Rightarrow> 's option"
    and vw :: "'s \<Rightarrow> (bytes \<times> 's) option"
    and clr :: "'s \<Rightarrow> 's option"
  assumes app_law: "inv s \<Longrightarrow> \<exists>s'. app d s = Some s' \<and> inv s' \<and> queue s' = queue s @ d"
    and con_law: "inv s \<Longrightarrow> \<exists>s'. con n s = Some s' \<and> inv s' \<and> queue s' = drop n (queue s)"
    and vw_law: "inv s \<Longrightarrow> \<exists>s'. vw s = Some (queue s, s') \<and> inv s' \<and> queue s' = queue s"
    and clr_law: "inv s \<Longrightarrow> \<exists>s'. clr s = Some s' \<and> inv s' \<and> queue s' = []"
begin

lemma run_refines:
  "inv s \<Longrightarrow> \<exists>s'. bq_run app con vw clr ops s = Some (fst (bq_spec ops (queue s)), s') \<and>
     inv s' \<and> queue s' = snd (bq_spec ops (queue s))"
proof (induction ops arbitrary: s)
  case (Cons op ops)
  show ?case
  proof (cases op)
    case (Append d)
    with app_law [OF Cons.prems, of d] Cons.IH show ?thesis by fastforce
  next
    case (Consume n)
    with con_law [OF Cons.prems, of n] Cons.IH show ?thesis by fastforce
  next
    case View
    from vw_law [OF Cons.prems] obtain s1 where "vw s = Some (queue s, s1)" "inv s1" "queue s1 = queue s"
      by blast
    with Cons.IH [of s1] View show ?thesis by (auto split: prod.splits)
  next
    case Clear
    with clr_law [OF Cons.prems] Cons.IH show ?thesis by fastforce
  qed
qed simp

end

end
