(* ===== verification/Io_Buffer.thy ===== *)
theory Io_Buffer
  imports Buffer_Heap Byte_Queue
begin

text \<open>
  \<^verbatim>\<open>IoBuffer\<close> and \<^verbatim>\<open>MakeBufferChain\<close> of \<^verbatim>\<open>src/buffer.cpp\<close>: the byte queue each
  connection reads into and cuts zero-copy slices from. The operations take and return
  the heap and the buffer. The loops that are not structural are
  \<^theory_text>\<open>partial_function (option)\<close>: \<^verbatim>\<open>append\<close> does not return for blocks of
  capacity 0. The contract is a queue of bytes, \<open>contents\<close>.
\<close>

section \<open>The operations\<close>

record iobuf =
  io_blocks :: "addr list"
  io_readable :: nat
  io_linearized :: bytes
  io_lin_offset :: nat

definition IoBuffer_new :: iobuf where
  "IoBuffer_new = \<lparr>io_blocks = [], io_readable = 0, io_linearized = [], io_lin_offset = 0\<rparr>"

fun release_all :: "addr list \<Rightarrow> mem \<Rightarrow> mem option" where
  "release_all [] m = Some m"
| "release_all (a # as) m = do { m1 \<leftarrow> block_release a m; release_all as m1 }"

definition io_clear :: "mem \<Rightarrow> iobuf \<Rightarrow> (mem \<times> iobuf) option" where
  "io_clear m q = do {
     m1 \<leftarrow> release_all (io_blocks q) m;
     Some (m1, q\<lparr>io_blocks := [], io_readable := 0, io_linearized := [], io_lin_offset := 0\<rparr>)
   }"

definition back_full :: "mem \<Rightarrow> iobuf \<Rightarrow> bool option" where
  "back_full m q =
     (if io_blocks q = [] then Some True
      else do { b \<leftarrow> m_heap m (last (io_blocks q)); Some (block_writableBytes b = 0) })"

text \<open>Returns the pointer (block and position) and the number of writable bytes.\<close>

definition io_reserveWritable :: "mem \<Rightarrow> iobuf \<Rightarrow> (mem \<times> iobuf \<times> (addr \<times> nat) \<times> nat) option" where
  "io_reserveWritable m q = do {
     full \<leftarrow> back_full m q;
     (m1, q1) \<leftarrow> (if full
                  then do { (a, m1) \<leftarrow> pool_acquire m; Some (m1, q\<lparr>io_blocks := io_blocks q @ [a]\<rparr>) }
                  else Some (m, q));
     b \<leftarrow> m_heap m1 (last (io_blocks q1));
     Some (m1, q1, (last (io_blocks q1), b_end b), block_writableBytes b)
   }"

definition io_commitWrite :: "nat \<Rightarrow> mem \<Rightarrow> iobuf \<Rightarrow> (mem \<times> iobuf) option" where
  "io_commitWrite n m q =
     (if io_blocks q = [] then None
      else do {
        m1 \<leftarrow> upd_block (last (io_blocks q)) (block_advanceEnd n) m;
        Some (m1, q\<lparr>io_readable := io_readable q + n, io_linearized := [], io_lin_offset := 0\<rparr>)
      })"

partial_function (option) io_append :: "mem \<Rightarrow> iobuf \<Rightarrow> bytes \<Rightarrow> (mem \<times> iobuf) option" where
  "io_append m q data =
     (if data = [] then Some (m, q)
      else do {
        (m1, q1, dst, writable) \<leftarrow> io_reserveWritable m q;
        let n = min writable (length data);
        m2 \<leftarrow> block_write (fst dst) (snd dst) (take n data) m1;
        (m3, q3) \<leftarrow> io_commitWrite n m2 q1;
        io_append m3 q3 (drop n data)
      })"

partial_function (option) io_consume_loop :: "mem \<Rightarrow> addr list \<Rightarrow> nat \<Rightarrow> (mem \<times> addr list) option" where
  "io_consume_loop m as n =
     (if n = 0 \<or> as = [] then Some (m, as)
      else do {
        b \<leftarrow> m_heap m (hd as);
        let tk = min n (block_size b);
        m1 \<leftarrow> upd_block (hd as) (block_consume tk) m;
        b1 \<leftarrow> m_heap m1 (hd as);
        if block_size b1 = 0
        then do { m2 \<leftarrow> block_release (hd as) m1; io_consume_loop m2 (tl as) (n - tk) }
        else io_consume_loop m1 as (n - tk)
      })"

definition io_consume :: "nat \<Rightarrow> mem \<Rightarrow> iobuf \<Rightarrow> (mem \<times> iobuf) option" where
  "io_consume n0 m q = do {
     let n = min n0 (io_readable q);
     let q1 = q\<lparr>io_readable := io_readable q - n,
                io_lin_offset := (if io_linearized q \<noteq> [] then io_lin_offset q + n
                                  else io_lin_offset q)\<rparr>;
     (m1, as) \<leftarrow> io_consume_loop m (io_blocks q1) n;
     Some (m1, q1\<lparr>io_blocks := as\<rparr>)
   }"

fun blocks_bytes :: "mem \<Rightarrow> addr list \<Rightarrow> bytes option" where
  "blocks_bytes m [] = Some []"
| "blocks_bytes m (a # as) = do {
     b \<leftarrow> m_heap m a;
     x \<leftarrow> read_bytes (b_begin b) (block_size b) (b_data b);
     xs \<leftarrow> blocks_bytes m as;
     Some (x @ xs)
   }"

text \<open>\<^verbatim>\<open>string_view::substr\<close> throws when the offset is past the end.\<close>

definition io_readableView :: "mem \<Rightarrow> iobuf \<Rightarrow> (bytes \<times> iobuf) option" where
  "io_readableView m q =
     (if io_readable q = 0 then Some ([], q)
      else if io_blocks q = [] then None
      else do {
        b \<leftarrow> m_heap m (hd (io_blocks q));
        if block_size b = io_readable q
        then do { v \<leftarrow> read_bytes (b_begin b) (io_readable q) (b_data b); Some (v, q) }
        else do {
          q1 \<leftarrow> (if io_linearized q = []
                 then do {
                   xs \<leftarrow> blocks_bytes m (io_blocks q);
                   Some (q\<lparr>io_linearized := xs, io_lin_offset := 0\<rparr>)
                 }
                 else Some q);
          if io_lin_offset q1 \<le> length (io_linearized q1)
          then Some (drop (io_lin_offset q1) (io_linearized q1), q1)
          else None
        }
      })"

fun slice_loop :: "mem \<Rightarrow> addr list \<Rightarrow> nat \<Rightarrow> chain \<Rightarrow> (mem \<times> chain) option" where
  "slice_loop m [] remaining c = Some (m, c)"
| "slice_loop m (a # as) remaining c = do {
     b \<leftarrow> m_heap m a;
     let tk = min remaining (block_size b);
     (s, m1) \<leftarrow> slice_retain (Some a) (b_begin b) tk m;
     let c1 = chain_append c s;
     if remaining - tk = 0 then Some (m1, c1) else slice_loop m1 as (remaining - tk) c1
   }"

definition io_slicePrefix :: "nat \<Rightarrow> mem \<Rightarrow> iobuf \<Rightarrow> (chain \<times> mem \<times> iobuf) option" where
  "io_slicePrefix n m q =
     (if n = 0 then Some (chain_empty, m, q)
      else do {
        (m1, c) \<leftarrow> slice_loop m (io_blocks q) n chain_empty;
        (m2, q2) \<leftarrow> io_consume n m1 q;
        Some (c, m2, q2)
      })"

definition MakeBufferChain :: "bytes \<Rightarrow> mem \<Rightarrow> (chain \<times> mem) option" where
  "MakeBufferChain data m = do {
     (m1, q1) \<leftarrow> io_append m IoBuffer_new data;
     (c, m2, q2) \<leftarrow> io_slicePrefix (length data) m1 q1;
     (m3, _) \<leftarrow> io_clear m2 q2;
     Some (c, m3)
   }"

section \<open>The abstract byte queue and the invariant\<close>

definition contents :: "mem \<Rightarrow> iobuf \<Rightarrow> bytes" where
  "contents m q = concat (map (\<lambda>a. block_bytes (the (m_heap m a))) (io_blocks q))"

text \<open>
  The blocks of a buffer are pairwise distinct and owned by it; only the last one may be
  empty, and then nothing was ever written to it; \<^verbatim>\<open>readable_bytes_\<close> counts the queue; a non-empty linearization is, from its
  offset on, the queue.
\<close>

definition iobuf_ok :: "mem \<Rightarrow> iobuf \<Rightarrow> bool" where
  "iobuf_ok m q \<longleftrightarrow>
     distinct (io_blocks q) \<and>
     (\<forall>a \<in> set (io_blocks q). a \<in> dom (m_heap m)) \<and>
     (\<forall>a \<in> set (butlast (io_blocks q)). 0 < block_size (the (m_heap m a))) \<and>
     (\<forall>a \<in> set (io_blocks q). block_size (the (m_heap m a)) = 0 \<longrightarrow> b_end (the (m_heap m a)) = 0) \<and>
     io_readable q = length (contents m q) \<and>
     (if io_linearized q = [] then io_lin_offset q = 0
      else io_lin_offset q \<le> length (io_linearized q) \<and>
           drop (io_lin_offset q) (io_linearized q) = contents m q)"

definition io_refs :: "iobuf \<Rightarrow> addr multiset" where
  "io_refs q = mset (io_blocks q)"

text \<open>
  Every slice cut from a block consumed at least one of its bytes, so a block has at most
  one owner more than the number of its consumed bytes.
\<close>

definition refs_tight :: "mem \<Rightarrow> addr multiset \<Rightarrow> bool" where
  "refs_tight m R \<longleftrightarrow> (\<forall>a b. m_heap m a = Some b \<longrightarrow> a \<in># R \<longrightarrow> count R a \<le> Suc (b_begin b))"

text \<open>A buffer among other owners \<open>F\<close>, in a pool whose block size fits the counters.\<close>

definition io_inv :: "mem \<Rightarrow> iobuf \<Rightarrow> addr multiset \<Rightarrow> bool" where
  "io_inv m q F \<longleftrightarrow>
     heap_ok m (io_refs q + F) \<and> iobuf_ok m q \<and> refs_tight m (io_refs q + F) \<and>
     0 < m_block_size m \<and> m_block_size m + 2 < 2 ^ 32"

text \<open>How many bytes of block \<open>x\<close> the first \<open>n\<close> bytes of the blocks \<open>as\<close> take.\<close>

fun portion :: "mem \<Rightarrow> addr list \<Rightarrow> nat \<Rightarrow> addr \<Rightarrow> nat" where
  "portion m [] n x = 0"
| "portion m (a # as) n x =
     (let tk = min n (block_size (the (m_heap m a)))
      in if x = a then tk else portion m as (n - tk) x)"

definition moved :: "mem \<Rightarrow> mem \<Rightarrow> nat \<Rightarrow> addr \<Rightarrow> bool" where
  "moved m m' d a \<longleftrightarrow>
     (\<exists>b r. m_heap m a = Some b \<and>
        m_heap m' a = Some (b\<lparr>b_begin := b_begin b + d, b_refcount := r\<rparr>))"

text \<open>The postcondition of \<^verbatim>\<open>consume\<close>'s loop, for the owners \<open>F\<close> other than the buffer.\<close>

definition consumed ::
  "mem \<Rightarrow> addr list \<Rightarrow> addr multiset \<Rightarrow> nat \<Rightarrow> mem \<Rightarrow> addr list \<Rightarrow> bool" where
  "consumed m as F n m' as' \<longleftrightarrow>
     heap_ok m' (mset as' + F) \<and> m_block_size m' = m_block_size m \<and>
     (\<exists>pre. as = pre @ as') \<and>
     concat (map (\<lambda>a. block_bytes (the (m_heap m' a))) as') =
       drop n (concat (map (\<lambda>a. block_bytes (the (m_heap m a))) as)) \<and>
     (\<forall>x. x \<in># mset as' + F \<longrightarrow> moved m m' (portion m as n x) x) \<and>
     (\<forall>x \<in> set as'. 0 < portion m as n x \<longrightarrow> 0 < block_size (the (m_heap m' x)))"

text \<open>The postcondition of \<^verbatim>\<open>slicePrefix\<close>'s loop, which adds the slices \<open>ss\<close>.\<close>

definition sliced ::
  "mem \<Rightarrow> addr list \<Rightarrow> addr multiset \<Rightarrow> nat \<Rightarrow> mem \<Rightarrow> slice list \<Rightarrow> bool" where
  "sliced m as R n m' ss \<longleftrightarrow>
     heap_ok m' (slices_refs ss + R) \<and> m_block_size m' = m_block_size m \<and>
     (\<forall>x. x \<in># R \<longrightarrow> unchanged m m' x) \<and> list_all (slice_ok m') ss \<and>
     slices_string m' ss =
       Some (take n (concat (map (\<lambda>a. block_bytes (the (m_heap m a))) as))) \<and>
     (\<forall>x. count (slices_refs ss) x \<le> portion m as n x)"

section \<open>Frame lemmas\<close>

lemma moved_0 [simp]: "moved m m' 0 a = unchanged m m' a"
  by (simp add: moved_def unchanged_def)

lemma moved_trans: "moved m1 m2 d a \<Longrightarrow> moved m2 m3 e a \<Longrightarrow> moved m1 m3 (d + e) a"
  by (auto simp: moved_def add.assoc)

lemma moved_grown: "moved m m' d a \<Longrightarrow> grown m m' a"
  by (auto simp: moved_def grown_def)

abbreviation bytes_of :: "mem \<Rightarrow> addr list \<Rightarrow> bytes" where
  "bytes_of m as \<equiv> concat (map (\<lambda>a. block_bytes (the (m_heap m a))) as)"

lemma bytes_of_unchanged:
  "(\<And>a. a \<in> set as \<Longrightarrow> unchanged m m' a) \<Longrightarrow> bytes_of m' as = bytes_of m as"
proof (induction as)
  case (Cons a as)
  then have "unchanged m m' a" by simp
  then have "block_bytes (the (m_heap m' a)) = block_bytes (the (m_heap m a))"
    by (auto simp: unchanged_def)
  with Cons show ?case by simp
qed simp

lemma portion_unchanged:
  "(\<And>a. a \<in> set as \<Longrightarrow> unchanged m m' a) \<Longrightarrow> portion m' as n x = portion m as n x"
proof (induction as arbitrary: n)
  case (Cons a as)
  then have "unchanged m m' a" by simp
  then have "block_size (the (m_heap m' a)) = block_size (the (m_heap m a))"
    by (auto simp: unchanged_def)
  with Cons show ?case by (simp add: Let_def)
qed simp

lemma portion_notin: "x \<notin> set as \<Longrightarrow> portion m as n x = 0"
  by (induction as arbitrary: n) (auto simp: Let_def)

lemma portion_0 [simp]: "portion m as 0 x = 0"
  by (induction as) (auto simp: Let_def)

lemma blocks_bytes_ok:
  assumes "heap_ok m R"
  shows "(\<And>a. a \<in> set as \<Longrightarrow> a \<in> dom (m_heap m)) \<Longrightarrow> blocks_bytes m as = Some (bytes_of m as)"
proof (induction as)
  case (Cons a as)
  then obtain b where b: "m_heap m a = Some b" by auto
  with read_block [OF heap_okD(1) [OF assms b]] Cons show ?case by simp
qed simp

lemma iobuf_ok_unchanged:
  assumes "iobuf_ok m q" and "\<And>a. a \<in> set (io_blocks q) \<Longrightarrow> unchanged m m' a"
  shows "iobuf_ok m' q" and "contents m' q = contents m q"
proof -
  show c: "contents m' q = contents m q"
    using bytes_of_unchanged [of "io_blocks q" m m'] assms(2) by (simp add: contents_def)
  have e: "block_size (the (m_heap m' a)) = block_size (the (m_heap m a))"
    "b_end (the (m_heap m' a)) = b_end (the (m_heap m a))" "a \<in> dom (m_heap m')"
    if "a \<in> set (io_blocks q)" for a
    using assms(2) [OF that] by (auto simp: unchanged_def)
  show "iobuf_ok m' q"
    using assms(1) c e in_set_butlastD [of _ "io_blocks q"] by (auto simp: iobuf_ok_def)
qed

section \<open>consume\<close>

lemma upd_consume_spec:
  assumes "heap_ok m R" and "m_heap m a = Some b" and "tk \<le> block_size b"
  shows "\<exists>m1. upd_block a (block_consume tk) m = Some m1 \<and> heap_ok m1 R \<and>
    m_block_size m1 = m_block_size m \<and> m_heap m1 a = Some (block_consume tk b) \<and>
    moved m m1 tk a \<and> (\<forall>x. x \<in># R \<longrightarrow> x \<noteq> a \<longrightarrow> unchanged m m1 x)"
proof -
  have ok: "block_ok (m_block_size m) b" using heap_okD(1) [OF assms(1,2)] .
  let ?m = "m\<lparr>m_heap := (m_heap m)(a \<mapsto> block_consume tk b)\<rparr>"
  have "b_begin b + tk \<le> b_end b"
    using assms(3) ok by (auto simp: block_size_def block_ok_def)
  then have "block_consume tk b = b\<lparr>b_begin := b_begin b + tk, b_refcount := b_refcount b\<rparr>"
    by (simp add: block_consume_def min_absorb2)
  then have "moved m ?m tk a" using assms(2)
    unfolding moved_def by (intro exI [of _ b] exI [of _ "b_refcount b"]) simp
  moreover have "heap_ok ?m R"
    using heap_ok_update [OF assms(1,2) block_ok_consume [OF ok, of tk]]
    by (simp add: block_consume_def)
  moreover have "unchanged m ?m x" if "x \<in># R" "x \<noteq> a" for x
    using unchanged_change [OF assms(1) _ _ that(1), of a ?m] that(2) by simp
  ultimately show ?thesis using assms(2) by simp
qed

lemma consumed_nothing:
  assumes "heap_ok m (mset as + F)" and "n = 0 \<or> as = []"
  shows "consumed m as F n m as"
proof -
  have "unchanged m m x" if "x \<in># mset as + F" for x
    using heap_okD(3) [OF assms(1) that] by (intro unchanged_refl) blast
  then show ?thesis using assms by (auto simp: consumed_def)
qed

text \<open>The front block is used up: the loop drops it and goes on with the rest.\<close>

lemma consumed_pop:
  assumes "distinct (a # as)" and "m_heap m a = Some b" and "block_size b \<le> n"
    and "block_ok sz b" and "moved m m2 (block_size b) a \<or> a \<notin># F"
    and "\<And>x. x \<in># mset as + F \<Longrightarrow> x \<noteq> a \<Longrightarrow> unchanged m m2 x"
    and "m_block_size m2 = m_block_size m"
    and "consumed m2 as F (n - block_size b) m' as'"
  shows "consumed m (a # as) F n m' as'"
proof -
  let ?k = "n - block_size b"
  from assms(8) obtain pre where c: "heap_ok m' (mset as' + F)" "m_block_size m' = m_block_size m2"
    "as = pre @ as'" "bytes_of m' as' = drop ?k (bytes_of m2 as)"
    "\<And>x. x \<in># mset as' + F \<Longrightarrow> moved m2 m' (portion m2 as ?k x) x"
    "\<And>x. x \<in> set as' \<Longrightarrow> 0 < portion m2 as ?k x \<Longrightarrow> 0 < block_size (the (m_heap m' x))"
    unfolding consumed_def by blast
  have un: "unchanged m m2 x" if "x \<in> set as" for x
    using assms(1,6) that by auto
  have p: "portion m (a # as) n x = (if x = a then block_size b else portion m2 as ?k x)" for x
    using portion_unchanged [of as m m2] un assms(2,3) by (simp add: Let_def min_absorb2)
  have "bytes_of m' as' = drop n (bytes_of m (a # as))"
    using c(4) bytes_of_unchanged [of as m m2] un assms(2,3) length_block_bytes [OF assms(4)] by simp
  moreover have "moved m m' (portion m (a # as) n x) x" if x: "x \<in># mset as' + F" for x
  proof (cases "x = a")
    case True
    then have "a \<notin> set as" and "a \<in># F" using assms(1) x c(3) by auto
    then have "moved m m2 (block_size b) a" and "moved m2 m' 0 a"
      using assms(5) c(5) [OF x] True by (simp_all add: portion_notin)
    then show ?thesis
      using True moved_trans [of m m2 "block_size b" a m' 0] by (simp add: p del: portion.simps)
  next
    case False
    then have "moved m m2 0 x" using assms(6) [of x] x c(3) by auto
    with False c(5) [OF x] show ?thesis
      using moved_trans [of m m2 0 x m'] by (simp add: p del: portion.simps)
  qed
  moreover have "0 < block_size (the (m_heap m' x))"
    if "x \<in> set as'" "0 < portion m (a # as) n x" for x
  proof -
    have "x \<noteq> a" using that(1) c(3) assms(1) by auto
    then show ?thesis using that c(6) by (simp add: p del: portion.simps)
  qed
  ultimately show ?thesis
    using c(1-3) assms(7) unfolding consumed_def by auto
qed

text \<open>The front block has more than \<open>n\<close> bytes: the loop advances it and stops.\<close>

lemma consumed_front:
  assumes "heap_ok m1 (mset (a # as) + F)" and "m_block_size m1 = m_block_size m"
    and "distinct (a # as)" and "m_heap m a = Some b" and "n < block_size b"
    and "block_ok sz b" and "m_heap m1 a = Some (block_consume n b)" and "moved m m1 n a"
    and "\<And>x. x \<in># mset (a # as) + F \<Longrightarrow> x \<noteq> a \<Longrightarrow> unchanged m m1 x"
  shows "consumed m (a # as) F n m1 (a # as)"
proof -
  have un: "unchanged m m1 x" if "x \<in> set as" for x
    using assms(3,9) that by auto
  have p: "portion m (a # as) n x = (if x = a then n else 0)" for x
    using assms(4,5) by (simp add: Let_def)
  have "bytes_of m1 (a # as) = drop n (bytes_of m (a # as))"
    using bytes_of_unchanged [of as m m1] un assms(4,5,7)
      block_bytes_consume [OF assms(6)] length_block_bytes [OF assms(6)] by simp
  moreover have "moved m m1 (portion m (a # as) n x) x" if "x \<in># mset (a # as) + F" for x
    using assms(8) assms(9) [OF that] p [of x] by (cases "x = a") simp_all
  moreover have "0 < block_size (the (m_heap m1 x))" if "0 < portion m (a # as) n x" for x
    using that p [of x] assms(5,7) block_size_consume [OF assms(6), of n]
    by (simp split: if_splits)
  ultimately show ?thesis
    using assms(1,2) unfolding consumed_def by blast
qed

lemma consume_loop_spec:
  assumes "heap_ok m (mset as + F)" and "distinct as"
  shows "\<exists>m' as'. io_consume_loop m as n = Some (m', as') \<and> consumed m as F n m' as'"
  using assms
proof (induction as arbitrary: m n)
  case Nil
  then show ?case using consumed_nothing [of m "[]" F n]
    by (simp add: io_consume_loop.simps [of m "[]"])
next
  case (Cons a as)
  show ?case
  proof (cases "n = 0")
    case True
    then show ?thesis using consumed_nothing [of m "a # as" F n] Cons.prems(1)
      by (simp add: io_consume_loop.simps [of m "a # as"])
  next
    case False
    obtain b where b: "m_heap m a = Some b" using heap_okD(3) [OF Cons.prems(1), of a] by auto
    have ok: "block_ok (m_block_size m) b" using heap_okD(1) [OF Cons.prems(1) b] .
    define tk where "tk = min n (block_size b)"
    obtain m1 where m1: "upd_block a (block_consume tk) m = Some m1"
      "heap_ok m1 (mset (a # as) + F)" "m_block_size m1 = m_block_size m"
      "m_heap m1 a = Some (block_consume tk b)" "moved m m1 tk a"
      "\<And>x. x \<in># mset (a # as) + F \<Longrightarrow> x \<noteq> a \<Longrightarrow> unchanged m m1 x"
      using upd_consume_spec [OF Cons.prems(1) b, of tk] by (auto simp: tk_def)
    have sz: "block_size (block_consume tk b) = block_size b - tk"
      using ok by (simp add: block_size_consume)
    show ?thesis
    proof (cases "block_size b \<le> n")
      case True
      then have tk: "tk = block_size b" by (simp add: tk_def)
      obtain m2 where m2: "block_release a m1 = Some m2" "heap_ok m2 (mset as + F)"
        "m_block_size m2 = m_block_size m1" "\<And>x. x \<in># mset as + F \<Longrightarrow> unchanged m1 m2 x"
        using release_spec [of m1 a "mset as + F"] m1(2) by auto
      from Cons.IH [OF m2(2), of "n - tk"] Cons.prems(2) obtain m' as' where
        IH: "io_consume_loop m2 as (n - tk) = Some (m', as')" "consumed m2 as F (n - tk) m' as'"
        by auto
      have "moved m m2 tk a \<or> a \<notin># F"
        using m1(5) m2(4) [of a] moved_trans [of m m1 tk a m2 0] by auto
      then have "consumed m (a # as) F n m' as'"
        using Cons.prems(2) b True ok m1(3,6) m2(3,4) IH(2) tk unchanged_trans [of m m1 _ m2]
        by (intro consumed_pop [of a as m b]) auto
      moreover have "io_consume_loop m (a # as) n = Some (m', as')"
        using False b m1(1,4) m2(1) IH(1) sz tk
        by (simp add: io_consume_loop.simps [of m "a # as" n] Let_def tk_def [symmetric])
      ultimately show ?thesis by blast
    next
      case small: False
      then have tk: "tk = n" by (simp add: tk_def)
      have "consumed m (a # as) F n m1 (a # as)"
        using m1 Cons.prems(2) b small ok tk by (intro consumed_front [of m1 a as F m b]) auto
      moreover have "io_consume_loop m (a # as) n = Some (m1, a # as)"
        using False small b m1(1,4) sz unfolding tk
        by (simp add: io_consume_loop.simps [of m "a # as" n]
            io_consume_loop.simps [of m1 "a # as" 0] Let_def)
      ultimately show ?thesis by blast
    qed
  qed
qed

lemma consumed_blocks_ok:
  assumes "iobuf_ok m q" and "consumed m (io_blocks q) F n m' as"
  shows "distinct as" and "\<And>a. a \<in> set as \<Longrightarrow> a \<in> dom (m_heap m')"
    and "\<And>a. a \<in> set (butlast as) \<Longrightarrow> 0 < block_size (the (m_heap m' a))"
    and "\<And>a. a \<in> set as \<Longrightarrow> block_size (the (m_heap m' a)) = 0 \<Longrightarrow> b_end (the (m_heap m' a)) = 0"
proof -
  from assms(2) obtain pre where c: "io_blocks q = pre @ as"
      "\<And>x. x \<in># mset as + F \<Longrightarrow> moved m m' (portion m (io_blocks q) n x) x"
      "\<And>x. x \<in> set as \<Longrightarrow> 0 < portion m (io_blocks q) n x \<Longrightarrow> 0 < block_size (the (m_heap m' x))"
    unfolding consumed_def by blast
  have mv: "moved m m' (portion m (io_blocks q) n x) x" if "x \<in> set as" for x
    using c(2) that by simp
  have sz: "0 < block_size (the (m_heap m' x)) \<or>
      block_size (the (m_heap m' x)) = block_size (the (m_heap m x)) \<and>
      b_end (the (m_heap m' x)) = b_end (the (m_heap m x))" if "x \<in> set as" for x
    using mv [OF that] c(3) [OF that]
    by (cases "portion m (io_blocks q) n x") (auto simp: unchanged_def)
  have sub: "x \<in> set (butlast (io_blocks q))" if "x \<in> set (butlast as)" for x
    using that c(1) by (auto simp: butlast_append)
  show "distinct as" using assms(1) c(1) by (simp add: iobuf_ok_def)
  show "a \<in> dom (m_heap m')" if "a \<in> set as" for a
    using mv [OF that] by (auto simp: moved_def)
  show "0 < block_size (the (m_heap m' a))" if "a \<in> set (butlast as)" for a
    using sz [OF in_set_butlastD [OF that]] sub [OF that] assms(1) by (auto simp: iobuf_ok_def)
  show "b_end (the (m_heap m' a)) = 0" if "a \<in> set as" "block_size (the (m_heap m' a)) = 0" for a
    using sz [OF that(1)] that assms(1) c(1) by (auto simp: iobuf_ok_def)
qed

lemma drop_linearized:
  "k \<le> length xs \<Longrightarrow> n \<le> length (drop k xs) \<Longrightarrow>
     k + n \<le> length xs \<and> drop (k + n) xs = drop n (drop k xs)"
  by (simp add: add.commute)

text \<open>
  \<^verbatim>\<open>consume\<close> removes the first \<open>n\<close> bytes (all of them when there are fewer), keeps
  the buffer well formed, and changes of every other owner's block at most its begin.
\<close>

lemma consume_spec:
  assumes "heap_ok m (io_refs q + F)" and "iobuf_ok m q"
  shows "\<exists>m' q'. io_consume n m q = Some (m', q') \<and> heap_ok m' (io_refs q' + F) \<and>
    iobuf_ok m' q' \<and> contents m' q' = drop n (contents m q) \<and>
    m_block_size m' = m_block_size m \<and> set (io_blocks q') \<subseteq> set (io_blocks q) \<and>
    (\<forall>x. x \<in># io_refs q' + F \<longrightarrow> moved m m' (portion m (io_blocks q) (min n (io_readable q)) x) x)"
proof -
  let ?n = "min n (io_readable q)"
  have d: "distinct (io_blocks q)" using assms(2) by (simp add: iobuf_ok_def)
  from consume_loop_spec [OF assms(1) [unfolded io_refs_def] d, of ?n] obtain m' as where
    run: "io_consume_loop m (io_blocks q) ?n = Some (m', as)"
    and post: "consumed m (io_blocks q) F ?n m' as"
    by blast
  define q' where "q' = q\<lparr>io_readable := io_readable q - ?n,
    io_lin_offset := (if io_linearized q \<noteq> [] then io_lin_offset q + ?n else io_lin_offset q),
    io_blocks := as\<rparr>"
  have eq: "io_consume n m q = Some (m', q')"
    using run by (simp add: io_consume_def q'_def Let_def)
  have len: "io_readable q = length (contents m q)" using assms(2) by (simp add: iobuf_ok_def)
  have ct: "contents m' q' = drop ?n (contents m q)"
    using post by (simp add: contents_def q'_def consumed_def)
  have lin: "if io_linearized q' = [] then io_lin_offset q' = 0
      else io_lin_offset q' \<le> length (io_linearized q') \<and>
        drop (io_lin_offset q') (io_linearized q') = contents m' q'"
    using assms(2) ct len drop_linearized [of "io_lin_offset q" "io_linearized q" ?n]
    by (cases "io_linearized q = []") (simp_all add: q'_def iobuf_ok_def)
  have "iobuf_ok m' q'"
    using consumed_blocks_ok [OF assms(2) post] lin len ct
    unfolding iobuf_ok_def by (simp add: q'_def)
  moreover have "contents m' q' = drop n (contents m q)"
    using ct len by (simp add: min_def)
  moreover have "set as \<subseteq> set (io_blocks q)"
    using post by (auto simp: consumed_def)
  ultimately show ?thesis
    using eq post
    by (intro exI [of _ m'] exI [of _ q'] conjI)
      (simp_all add: q'_def io_refs_def consumed_def)
qed

section \<open>reserveWritable, commitWrite, append\<close>

lemma iobuf_ok_emptyD:
  assumes "iobuf_ok m q" and "a \<in> set (io_blocks q)" and "m_heap m a = Some b" and "block_size b = 0"
  shows "b_end b = 0"
proof -
  have "block_size (the (m_heap m a)) = 0 \<longrightarrow> b_end (the (m_heap m a)) = 0"
    using assms(1,2) unfolding iobuf_ok_def by blast
  with assms(3,4) show ?thesis by simp
qed

lemma back_full_spec:
  assumes "heap_ok m (io_refs q + F)" and "iobuf_ok m q" and "0 < m_block_size m"
  shows "\<exists>f. back_full m q = Some f \<and>
    (f \<longrightarrow> (\<forall>a \<in> set (io_blocks q). 0 < block_size (the (m_heap m a)))) \<and>
    (\<not> f \<longrightarrow> io_blocks q \<noteq> [] \<and> (\<exists>b. m_heap m (last (io_blocks q)) = Some b \<and> 0 < block_writableBytes b))"
proof (cases "io_blocks q = []")
  case False
  let ?a = "last (io_blocks q)"
  obtain b where b: "m_heap m ?a = Some b"
    using heap_okD(3) [OF assms(1), of ?a] False by (auto simp: io_refs_def)
  have ok: "block_ok (m_block_size m) b" using heap_okD(1) [OF assms(1) b] .
  have "0 < block_size b" if "block_writableBytes b = 0"
  proof (rule ccontr)
    assume "\<not> 0 < block_size b"
    then have "b_end b = 0" using iobuf_ok_emptyD [OF assms(2) _ b] False by simp
    with that ok assms(3) show False by (simp add: block_writableBytes_def block_ok_def)
  qed
  then have "\<forall>a \<in> set (io_blocks q). 0 < block_size (the (m_heap m a))"
    if "block_writableBytes b = 0"
    using that assms(2) b set_butlast_last [OF False] by (auto simp: iobuf_ok_def)
  with b False show ?thesis by (auto simp: back_full_def)
qed (intro exI [of _ True], simp add: back_full_def)

text \<open>After a successful \<^verbatim>\<open>reserveWritable\<close> the last block has room at its end.\<close>

lemma reserve_spec:
  assumes "heap_ok m (io_refs q + F)" and "iobuf_ok m q" and "0 < m_block_size m"
  shows "\<exists>m1 q1 a b. io_reserveWritable m q = Some (m1, q1, (a, b_end b), block_writableBytes b) \<and>
    heap_ok m1 (io_refs q1 + F) \<and> iobuf_ok m1 q1 \<and> contents m1 q1 = contents m q \<and>
    io_blocks q1 \<noteq> [] \<and> a = last (io_blocks q1) \<and> m_heap m1 a = Some b \<and>
    0 < block_writableBytes b \<and> m_block_size m1 = m_block_size m \<and>
    (io_blocks q1 = io_blocks q \<or> io_blocks q1 = io_blocks q @ [a] \<and> a \<notin># io_refs q + F) \<and>
    (\<forall>x. x \<in># io_refs q + F \<longrightarrow> unchanged m m1 x)"
proof -
  from back_full_spec [OF assms] obtain f where f: "back_full m q = Some f"
    "f \<Longrightarrow> \<forall>a \<in> set (io_blocks q). 0 < block_size (the (m_heap m a))"
    "\<not> f \<Longrightarrow> io_blocks q \<noteq> [] \<and>
       (\<exists>b. m_heap m (last (io_blocks q)) = Some b \<and> 0 < block_writableBytes b)"
    by blast
  show ?thesis
  proof (cases f)
    case False
    then show ?thesis
      using f(1) f(3) [OF False] assms heap_okD(3) [OF assms(1)]
      by (auto simp: io_reserveWritable_def intro!: unchanged_refl)
  next
    case True
    from acquire_spec [OF assms(1)] obtain a b m1 where acq: "pool_acquire m = Some (a, m1)"
      "heap_ok m1 (add_mset a (io_refs q + F))" "a \<notin># io_refs q + F" "m_heap m1 a = Some b"
      "b_begin b = 0" "b_end b = 0" "m_block_size m1 = m_block_size m"
      "\<And>x. x \<in># io_refs q + F \<Longrightarrow> unchanged m m1 x"
      by blast
    define q1 where "q1 = q\<lparr>io_blocks := io_blocks q @ [a]\<rparr>"
    have ok: "block_ok (m_block_size m) b" using heap_okD(1) [OF acq(2,4)] acq(7) by simp
    have wr: "block_writableBytes b = m_block_size m" and sz: "block_size b = 0"
      using ok acq(5,6) by (simp_all add: block_writableBytes_def block_size_def block_ok_def)
    have q: "iobuf_ok m1 q" "contents m1 q = contents m q"
      using iobuf_ok_unchanged [OF assms(2), of m1] acq(8) by (simp_all add: io_refs_def)
    have "block_size (the (m_heap m1 x)) = block_size (the (m_heap m x))"
      if "x \<in> set (io_blocks q)" for x
      using acq(8) [of x] that by (auto simp: unchanged_def io_refs_def)
    then have pos: "\<forall>x \<in> set (io_blocks q). 0 < block_size (the (m_heap m1 x))"
      using f(2) [OF True] by simp
    have ct: "contents m1 q1 = contents m q"
      using q(2) acq(4) sz by (simp add: contents_def q1_def block_bytes_def)
    have "iobuf_ok m1 q1"
      using q acq(3,4,6) pos ct by (auto simp: iobuf_ok_def q1_def io_refs_def)
    moreover have "heap_ok m1 (io_refs q1 + F)"
      using acq(2) by (simp add: q1_def io_refs_def)
    ultimately show ?thesis
      using f(1) True acq wr assms(3) ct
      by (auto simp: io_reserveWritable_def q1_def)
  qed
qed

definition block_written :: "bytes \<Rightarrow> block \<Rightarrow> block" where
  "block_written src b =
     block_advanceEnd (length src) (b\<lparr>b_data := write_bytes (b_end b) src (b_data b)\<rparr>)"

lemma block_written_ok:
  assumes "block_ok sz b" and "length src \<le> block_writableBytes b"
  shows "block_ok sz (block_written src b)" and "block_bytes (block_written src b) = block_bytes b @ src"
    and "b_refcount (block_written src b) = b_refcount b" and "b_begin (block_written src b) = b_begin b"
    and "b_end (block_written src b) = b_end b + length src"
    and "take (b_end b) (b_data (block_written src b)) = take (b_end b) (b_data b)"
    and "b_end b + length src \<le> length (b_data b)"
proof -
  show room: "b_end b + length src \<le> length (b_data b)"
    using assms by (auto simp: block_ok_def block_writableBytes_def)
  show "block_ok sz (block_written src b)"
    using assms(1) room by (simp add: block_ok_def block_written_def block_advanceEnd_def)
  have "drop (b_begin b) (take (b_end b) (b_data b)) = block_bytes b"
    using assms(1) by (simp add: block_bytes_def block_size_def block_ok_def drop_take)
  moreover have "block_bytes (block_written src b) =
      take (b_end b + length src - b_begin b)
        (drop (b_begin b) (take (b_end b) (b_data b)) @ src @ drop (b_end b + length src) (b_data b))"
    using assms(1)
    by (simp add: block_bytes_def block_size_def block_written_def block_advanceEnd_def block_ok_def
        write_bytes_def)
  moreover have "length (block_bytes b) = b_end b - b_begin b" and "b_begin b \<le> b_end b"
    using length_block_bytes [OF assms(1)] block_size_ok [OF assms(1)] assms(1)
    by (simp_all add: block_ok_def)
  ultimately show "block_bytes (block_written src b) = block_bytes b @ src"
    by simp
  show "take (b_end b) (b_data (block_written src b)) = take (b_end b) (b_data b)"
    using room by (simp add: block_written_def block_advanceEnd_def take_write_bytes)
qed (simp_all add: block_written_def block_advanceEnd_def)

text \<open>A buffer stays well formed when bytes are appended to its last block.\<close>

lemma iobuf_ok_written:
  assumes "iobuf_ok m q" and "io_blocks q = as @ [a]" and "m_heap m a = Some b"
    and "block_ok sz b" and "length src \<le> block_writableBytes b"
    and "m' = m\<lparr>m_heap := (m_heap m)(a \<mapsto> block_written src b)\<rparr>"
    and "q' = q\<lparr>io_readable := io_readable q + length src, io_linearized := [], io_lin_offset := 0\<rparr>"
  shows "iobuf_ok m' q'" and "contents m' q' = contents m q @ src"
proof -
  note w = block_written_ok [OF assms(4,5)]
  have nin: "a \<notin> set as" using assms(1,2) by (simp add: iobuf_ok_def)
  then have same: "m_heap m' x = m_heap m x" if "x \<in> set as" for x
    using that assms(6) by auto
  have "bytes_of m' as = bytes_of m as" using same by (auto intro!: arg_cong [of _ _ concat])
  then show ct: "contents m' q' = contents m q @ src"
    using assms(2,3,6,7) w(2) by (simp add: contents_def)
  have e: "b_end (block_written src b) = 0" if "block_size (block_written src b) = 0"
  proof -
    have "length (block_bytes (block_written src b)) = 0"
      using length_block_bytes [OF w(1)] that by simp
    then have "src = []" and "block_size b = 0"
      using w(2) length_block_bytes [OF assms(4)] by auto
    then show ?thesis
      using iobuf_ok_emptyD [OF assms(1) _ assms(3)] assms(2) w(5) by simp
  qed
  show "iobuf_ok m' q'"
    using assms(1,2,3,6,7) same nin e ct unfolding iobuf_ok_def by auto
qed

text \<open>
  Bytes written at the reserved place and committed are appended to the queue. No other
  owner's bytes change: the write is behind every slice of the block.
\<close>

lemma write_commit_spec:
  assumes "heap_ok m (io_refs q + F)" and "iobuf_ok m q" and "io_blocks q \<noteq> []"
    and "a = last (io_blocks q)" and "m_heap m a = Some b" and "length src \<le> block_writableBytes b"
  shows "\<exists>m1 m2 q2. block_write a (b_end b) src m = Some m1 \<and>
    io_commitWrite (length src) m1 q = Some (m2, q2) \<and>
    heap_ok m2 (io_refs q2 + F) \<and> iobuf_ok m2 q2 \<and> io_blocks q2 = io_blocks q \<and>
    contents m2 q2 = contents m q @ src \<and> m_block_size m2 = m_block_size m \<and>
    (\<forall>x. x \<in># io_refs q + F \<longrightarrow> grown m m2 x \<and> (x \<noteq> a \<longrightarrow> unchanged m m2 x)) \<and>
    (\<exists>b'. m_heap m2 a = Some b' \<and> b_begin b' = b_begin b)"
proof -
  have ok: "block_ok (m_block_size m) b" using heap_okD(1) [OF assms(1,5)] .
  note w = block_written_ok [OF ok assms(6)]
  define m2 where "m2 = m\<lparr>m_heap := (m_heap m)(a \<mapsto> block_written src b)\<rparr>"
  define q2 where "q2 = q\<lparr>io_readable := io_readable q + length src,
    io_linearized := [], io_lin_offset := 0\<rparr>"
  obtain m1 where run: "block_write a (b_end b) src m = Some m1"
    "io_commitWrite (length src) m1 q = Some (m2, q2)"
    using assms(3-5) w(7)
    by (simp add: block_write_def io_commitWrite_def m2_def q2_def block_written_def)
  have hok: "heap_ok m2 (io_refs q2 + F)"
    using heap_ok_update [OF assms(1,5) w(1,3)] by (simp add: m2_def q2_def io_refs_def)
  have un: "unchanged m m2 x" if "x \<in># io_refs q + F" "x \<noteq> a" for x
    using unchanged_change [OF assms(1) _ _ that(1), of a m2] that(2) by (simp add: m2_def)
  have "grown m m2 a" using assms(5) w(4-6) by (simp add: grown_def m2_def)
  then have gr: "grown m m2 x" if "x \<in># io_refs q + F" for x
    using un [OF that] unchanged_grown by (cases "x = a") auto
  have "io_blocks q = butlast (io_blocks q) @ [a]" using assms(3,4) by simp
  note iobuf_ok_written [OF assms(2) this assms(5) ok assms(6) m2_def q2_def]
  with run hok un gr w(4) show ?thesis
    by (intro exI [of _ m1] exI [of _ m2] exI [of _ q2]) (auto simp: m2_def q2_def)
qed

lemma refs_tightD: "refs_tight m R \<Longrightarrow> m_heap m a = Some b \<Longrightarrow> a \<in># R \<Longrightarrow> count R a \<le> Suc (b_begin b)"
  unfolding refs_tight_def by blast

lemma refs_tight_mono:
  assumes "refs_tight m R"
    and "\<And>x. x \<in># R' \<Longrightarrow> grown m m' x \<and> count R' x \<le> count R x \<or> count R' x \<le> 1"
  shows "refs_tight m' R'"
  unfolding refs_tight_def
proof (intro allI impI)
  fix x b' assume x: "m_heap m' x = Some b'" "x \<in># R'"
  consider "count R' x \<le> 1" | "grown m m' x" "count R' x \<le> count R x" using assms(2) [OF x(2)] by blast
  then show "count R' x \<le> Suc (b_begin b')"
  proof cases
    case 2
    then obtain b where b: "m_heap m x = Some b" "b_begin b \<le> b_begin b'"
      using x(1) by (auto simp: grown_def)
    moreover have "x \<in># R" using 2(2) x(2) by (metis count_greater_zero_iff order_less_le_trans)
    ultimately show ?thesis using assms(1) 2(2) by (fastforce simp: refs_tight_def)
  qed simp
qed

lemma refs_tight_moved:
  assumes "refs_tight m R"
    and "\<And>x. x \<in># R' \<Longrightarrow> x \<in># R \<and> (\<exists>d. moved m m' d x \<and> count R' x \<le> count R x + d)"
  shows "refs_tight m' R'"
  unfolding refs_tight_def
proof (intro allI impI)
  fix x b' assume x: "m_heap m' x = Some b'" "x \<in># R'"
  from assms(2) [OF x(2)] obtain d where d: "x \<in># R" "moved m m' d x" "count R' x \<le> count R x + d"
    by blast
  then obtain b where "m_heap m x = Some b" "b_begin b' = b_begin b + d"
    using x(1) by (auto simp: moved_def)
  with refs_tightD [OF assms(1) _ d(1)] d(3) show "count R' x \<le> Suc (b_begin b')" by fastforce
qed

text \<open>One round of the append loop: reserve, copy what fits, commit.\<close>

lemma append_round:
  assumes "heap_ok m (io_refs q + F)" and "iobuf_ok m q" and "0 < m_block_size m"
    and "refs_tight m (io_refs q + F)" and "data \<noteq> []"
  shows "\<exists>n m' q'. 0 < n \<and> n \<le> length data \<and>
    io_append m q data = io_append m' q' (drop n data) \<and> heap_ok m' (io_refs q' + F) \<and>
    iobuf_ok m' q' \<and> contents m' q' = contents m q @ take n data \<and>
    m_block_size m' = m_block_size m \<and> refs_tight m' (io_refs q' + F) \<and>
    (\<forall>x. x \<in># F \<longrightarrow> grown m m' x \<and>
       (x \<notin> set (io_blocks q) \<longrightarrow> unchanged m m' x \<and> x \<notin> set (io_blocks q')))"
proof -
  obtain m1 q1 a b where r: "io_reserveWritable m q = Some (m1, q1, (a, b_end b), block_writableBytes b)"
    "heap_ok m1 (io_refs q1 + F)" "iobuf_ok m1 q1" "contents m1 q1 = contents m q"
    "io_blocks q1 \<noteq> []" "a = last (io_blocks q1)" "m_heap m1 a = Some b"
    "0 < block_writableBytes b" "m_block_size m1 = m_block_size m"
    "io_blocks q1 = io_blocks q \<or> io_blocks q1 = io_blocks q @ [a] \<and> a \<notin># io_refs q + F"
    "\<And>x. x \<in># io_refs q + F \<Longrightarrow> unchanged m m1 x"
    using reserve_spec [OF assms(1-3)] by blast
  define n where "n = min (block_writableBytes b) (length data)"
  have n: "length (take n data) = n" "n \<le> block_writableBytes b" "0 < n" "n \<le> length data"
    using assms(5) r(8) by (auto simp: n_def)
  obtain m2 m3 q3 where w: "block_write a (b_end b) (take n data) m1 = Some m2"
    "io_commitWrite n m2 q1 = Some (m3, q3)" "heap_ok m3 (io_refs q3 + F)" "iobuf_ok m3 q3"
    "io_blocks q3 = io_blocks q1" "contents m3 q3 = contents m1 q1 @ take n data"
    "m_block_size m3 = m_block_size m1"
    "\<And>x. x \<in># io_refs q1 + F \<Longrightarrow> grown m1 m3 x"
    "\<And>x. x \<in># io_refs q1 + F \<Longrightarrow> x \<noteq> a \<Longrightarrow> unchanged m1 m3 x"
    using write_commit_spec [OF r(2,3,5,6,7), of "take n data"] n(1,2) by auto
  have gr: "grown m m3 x" if "x \<in># io_refs q + F" for x
  proof -
    have "x \<in># io_refs q1 + F" using that r(10) by (auto simp: io_refs_def)
    then show ?thesis using r(11) [OF that] w(8) grown_trans unchanged_grown by blast
  qed
  have "refs_tight m3 (io_refs q3 + F)"
  proof (rule refs_tight_mono [OF assms(4)])
    fix x assume "x \<in># io_refs q3 + F"
    then show "grown m m3 x \<and> count (io_refs q3 + F) x \<le> count (io_refs q + F) x \<or>
        count (io_refs q3 + F) x \<le> 1"
      using gr [of x] r(10) w(5) by (auto simp: io_refs_def not_in_iff)
  qed
  moreover have "unchanged m m3 x \<and> x \<notin> set (io_blocks q3)"
    if "x \<in># F" "x \<notin> set (io_blocks q)" for x
  proof -
    have "x \<notin> set (io_blocks q1)" using that r(10) by (elim disjE conjE) auto
    then have "x \<noteq> a" "x \<notin> set (io_blocks q3)" using r(5,6) w(5) by auto
    then show ?thesis using that r(11) [of x] w(9) [of x] unchanged_trans by auto
  qed
  moreover have "io_append m q data = io_append m3 q3 (drop n data)"
    using assms(5) r(1) w(1,2) n_def
    by (simp add: io_append.simps [of m q data] Let_def)
  ultimately show ?thesis
    using n w(3,4,6,7) r(4,9) gr by (intro exI [of _ n] exI [of _ m3] exI [of _ q3]) simp
qed

text \<open>
  \<^verbatim>\<open>append\<close> returns whenever blocks have positive capacity, adds the data to the queue,
  and leaves the bytes of every other owner as they are.
\<close>

lemma append_spec:
  assumes "heap_ok m (io_refs q + F)" and "iobuf_ok m q" and "0 < m_block_size m"
    and "refs_tight m (io_refs q + F)"
  shows "\<exists>m' q'. io_append m q data = Some (m', q') \<and> heap_ok m' (io_refs q' + F) \<and>
    iobuf_ok m' q' \<and> contents m' q' = contents m q @ data \<and> m_block_size m' = m_block_size m \<and>
    refs_tight m' (io_refs q' + F) \<and>
    (\<forall>x. x \<in># F \<longrightarrow> grown m m' x \<and> 
       (x \<notin> set (io_blocks q) \<longrightarrow> unchanged m m' x \<and> x \<notin> set (io_blocks q')))"
  using assms
proof (induction "length data" arbitrary: m q data rule: less_induct)
  case less
  show ?case
  proof (cases "data = []")
    case True
    then show ?thesis
      using less.prems heap_okD(3) [OF less.prems(1)]
      by (auto simp: io_append.simps [of m q] intro!: unchanged_refl grown_refl)
  next
    case False
    from append_round [OF less.prems False] obtain n m1 q1 where
      1: "0 < n" "n \<le> length data" "io_append m q data = io_append m1 q1 (drop n data)"
      "heap_ok m1 (io_refs q1 + F)" "iobuf_ok m1 q1" "contents m1 q1 = contents m q @ take n data"
      "m_block_size m1 = m_block_size m" "refs_tight m1 (io_refs q1 + F)"
      "\<And>x. x \<in># F \<Longrightarrow> grown m m1 x"
      "\<And>x. x \<in># F \<Longrightarrow> x \<notin> set (io_blocks q) \<Longrightarrow> unchanged m m1 x \<and> x \<notin> set (io_blocks q1)"
      by blast
    from less.hyps [OF _ 1(4,5) _ 1(8), of "drop n data"] 1(1,2,7) less.prems(3) False
    obtain m' q' where 2: "io_append m1 q1 (drop n data) = Some (m', q')"
      "heap_ok m' (io_refs q' + F)" "iobuf_ok m' q'"
      "contents m' q' = contents m1 q1 @ drop n data" "m_block_size m' = m_block_size m1"
      "refs_tight m' (io_refs q' + F)"
      "\<And>x. x \<in># F \<Longrightarrow> grown m1 m' x"
      "\<And>x. x \<in># F \<Longrightarrow> x \<notin> set (io_blocks q1) \<Longrightarrow> unchanged m1 m' x \<and> x \<notin> set (io_blocks q')"
      by auto
    have "grown m m' x" if "x \<in># F" for x
      using 1(9) [OF that] 2(7) [OF that] grown_trans by blast
    moreover have "unchanged m m' x \<and> x \<notin> set (io_blocks q')" if "x \<in># F" "x \<notin> set (io_blocks q)" for x
      using 1(10) [OF that] 2(8) [OF that(1)] unchanged_trans by blast
    ultimately show ?thesis
      using 1(3,6,7) 2(1-6) by (intro exI [of _ m'] exI [of _ q']) simp
  qed
qed

section \<open>readableView\<close>

lemma contents_front:
  assumes "iobuf_ok m q" and "io_blocks q = a # as" and "m_heap m a = Some b" and "block_ok sz b"
    and "block_size b = io_readable q"
  shows "contents m q = block_bytes b"
proof -
  have "contents m q = block_bytes b @ bytes_of m as"
    using assms(2,3) by (simp add: contents_def)
  moreover have "length (contents m q) = length (block_bytes b)"
    using assms(1,5) length_block_bytes [OF assms(4)] by (simp add: iobuf_ok_def)
  ultimately show ?thesis by simp
qed

lemma view_spec:
  assumes "heap_ok m (io_refs q + F)" and "iobuf_ok m q"
  shows "\<exists>q'. io_readableView m q = Some (contents m q, q') \<and> iobuf_ok m q' \<and>
    io_blocks q' = io_blocks q \<and> io_readable q' = io_readable q"
proof (cases "io_readable q = 0")
  case True
  then have "contents m q = []" using assms(2) by (simp add: iobuf_ok_def)
  with True assms(2) show ?thesis by (simp add: io_readableView_def)
next
  case False
  have len: "io_readable q = length (contents m q)" using assms(2) by (simp add: iobuf_ok_def)
  then obtain a as where q: "io_blocks q = a # as"
    using False by (cases "io_blocks q") (auto simp: contents_def)
  obtain b where b: "m_heap m a = Some b"
    using heap_okD(3) [OF assms(1), of a] q by (auto simp: io_refs_def)
  have ok: "block_ok (m_block_size m) b" using heap_okD(1) [OF assms(1) b] .
  have all: "blocks_bytes m (io_blocks q) = Some (contents m q)"
    using blocks_bytes_ok [OF assms(1), of "io_blocks q"] assms(2) by (simp add: iobuf_ok_def contents_def)
  show ?thesis
  proof (cases "block_size b = io_readable q")
    case True
    from contents_front [OF assms(2) q b ok True] read_block [OF ok] True False q b assms(2) show ?thesis
      by (simp add: io_readableView_def)
  next
    case other: False
    show ?thesis
    proof (cases "io_linearized q = []")
      case True
      define q1 where "q1 = q\<lparr>io_linearized := contents m q, io_lin_offset := 0\<rparr>"
      have "contents m q1 = contents m q" by (simp add: contents_def q1_def)
      then have "iobuf_ok m q1" using assms(2) by (simp add: iobuf_ok_def q1_def)
      with True other False q b all show ?thesis
        by (simp add: io_readableView_def q1_def)
    next
      case lin: False
      then have "io_lin_offset q \<le> length (io_linearized q)"
        "drop (io_lin_offset q) (io_linearized q) = contents m q"
        using assms(2) by (simp_all add: iobuf_ok_def)
      with lin other False q b assms(2) show ?thesis
        by (simp add: io_readableView_def)
    qed
  qed
qed

section \<open>slicePrefix\<close>

lemma slice_take_bytes:
  assumes "m_heap m a = Some b" and "block_ok sz b" and "tk \<le> block_size b"
  shows "slice_ok m \<lparr>s_block = Some a, s_offset = b_begin b, s_length = tk\<rparr>"
    and "slice_bytes m \<lparr>s_block = Some a, s_offset = b_begin b, s_length = tk\<rparr> =
      Some (take tk (block_bytes b))"
  using assms
  by (auto simp: slice_ok_def slice_bytes_def read_bytes_def block_bytes_def block_size_def block_ok_def min_def)

text \<open>One round: a slice of the front block, then the slices of the rest if bytes remain.\<close>

lemma sliced_Cons:
  assumes "m_heap m a = Some b" and "block_ok sz b" and "tk = min n (block_size b)" and "0 < tk"
    and "a \<in># R" and "a \<notin> set as" and "set as \<subseteq> set_mset R"
    and "m_block_size m1 = m_block_size m" and "\<And>x. x \<in># R \<Longrightarrow> unchanged m m1 x"
    and "sliced m1 as (add_mset a R) (n - tk) m' ss"
  shows "sliced m (a # as) R n m' (\<lparr>s_block = Some a, s_offset = b_begin b, s_length = tk\<rparr> # ss)"
proof -
  let ?s = "\<lparr>s_block = Some a, s_offset = b_begin b, s_length = tk\<rparr>"
  from assms(10) have IH: "heap_ok m' (slices_refs ss + add_mset a R)"
    "m_block_size m' = m_block_size m1" "\<And>x. x \<in># add_mset a R \<Longrightarrow> unchanged m1 m' x"
    "list_all (slice_ok m') ss" "slices_string m' ss = Some (take (n - tk) (bytes_of m1 as))"
    "\<And>x. count (slices_refs ss) x \<le> portion m1 as (n - tk) x"
    unfolding sliced_def by blast+
  have un: "unchanged m m1 x" if "x \<in> set as" for x
    using assms(7,9) that by blast
  have un': "unchanged m m' x" if "x \<in># R" for x
    using assms(9) [OF that] IH(3) [of x] that unchanged_trans by auto
  have "slice_ok m ?s" "slice_bytes m ?s = Some (take tk (block_bytes b))"
    using slice_take_bytes [OF assms(1,2), of tk] assms(3) by simp_all
  then have "slice_ok m' ?s" "slice_bytes m' ?s = Some (take tk (block_bytes b))"
    using slice_ok_grown [of m ?s m'] unchanged_grown un' [OF assms(5)] by simp_all
  moreover have "take n (bytes_of m (a # as)) = take tk (block_bytes b) @ take (n - tk) (bytes_of m1 as)"
    using assms(1,3) length_block_bytes [OF assms(2)] bytes_of_unchanged [of as m m1] un
    by (simp add: min_def)
  moreover have "count (slices_refs (?s # ss)) x \<le> portion m (a # as) n x" for x
    using IH(6) [of x] portion_unchanged [of as m m1] un portion_notin [OF assms(6)] assms(1,3,4)
    by (cases "x = a") (auto simp: Let_def slice_refs_def)
  moreover have "heap_ok m' (slices_refs (?s # ss) + R)"
    using IH(1) by (simp add: slice_refs_def ac_simps)
  ultimately show ?thesis
    using IH(2,4,5) un' assms(8) unfolding sliced_def by simp
qed

lemma slice_loop_spec:
  assumes "heap_ok m R" and "\<And>a. a \<in> set as \<Longrightarrow> a \<in># R \<and> Suc (count R a) < 2 ^ 32"
    and "distinct as" and "0 < n" and "n \<le> length (bytes_of m as)"
    and "\<And>a. a \<in> set (butlast as) \<Longrightarrow> 0 < block_size (the (m_heap m a))"
  shows "\<exists>m' ss. slice_loop m as n c = Some (m', foldl chain_append c ss) \<and> sliced m as R n m' ss"
  using assms
proof (induction as arbitrary: m R n c)
  case (Cons a as)
  obtain b where b: "m_heap m a = Some b"
    using heap_okD(3) [OF Cons.prems(1)] Cons.prems(2) by auto
  have ok: "block_ok (m_block_size m) b" using heap_okD(1) [OF Cons.prems(1) b] .
  define tk where "tk = min n (block_size b)"
  let ?s = "\<lparr>s_block = Some a, s_offset = b_begin b, s_length = tk\<rparr>"
  have tk: "0 < tk"
    using Cons.prems(4,5) Cons.prems(6) [of a] b length_block_bytes [OF ok]
    by (cases "as = []") (auto simp: tk_def)
  have aR: "a \<in># R" "Suc (count R a) < 2 ^ 32" using Cons.prems(2) by simp_all
  from retain_spec [OF Cons.prems(1) aR] obtain m1 where m1: "block_retain a m = Some m1"
    "heap_ok m1 (add_mset a R)" "m_block_size m1 = m_block_size m"
    "\<And>x. x \<in># R \<Longrightarrow> unchanged m m1 x"
    by blast
  have sub: "a \<notin> set as" "set as \<subseteq> set_mset R" using Cons.prems(2,3) by auto
  then have un: "unchanged m m1 x" if "x \<in> set as" for x using m1(4) that by blast
  have "\<exists>m' ss. (if n - tk = 0 then Some (m1, chain_append c ?s)
      else slice_loop m1 as (n - tk) (chain_append c ?s)) =
        Some (m', foldl chain_append (chain_append c ?s) ss) \<and>
      sliced m1 as (add_mset a R) (n - tk) m' ss"
  proof (cases "n - tk = 0")
    case True
    moreover have "unchanged m1 m1 x" if "x \<in># add_mset a R" for x
      using heap_okD(3) [OF m1(2) that] by (intro unchanged_refl) blast
    ultimately show ?thesis
      using m1(2) by (intro exI [of _ m1] exI [of _ "[]"]) (simp add: sliced_def)
  next
    case False
    then have more: "tk = block_size b" "block_size b < n"
      by (auto simp: tk_def min_def split: if_splits)
    have "\<exists>m' ss. slice_loop m1 as (n - tk) (chain_append c ?s) =
        Some (m', foldl chain_append (chain_append c ?s) ss) \<and>
        sliced m1 as (add_mset a R) (n - tk) m' ss"
    proof (rule Cons.IH [OF m1(2)])
      show "x \<in># add_mset a R \<and> Suc (count (add_mset a R) x) < 2 ^ 32" if "x \<in> set as" for x
        using Cons.prems(2) that sub(1) by auto
      show "n - tk \<le> length (bytes_of m1 as)"
        using Cons.prems(5) more b length_block_bytes [OF ok] bytes_of_unchanged [of as m m1] un
        by simp
      show "0 < block_size (the (m_heap m1 x))" if "x \<in> set (butlast as)" for x
      proof -
        have "x \<in> set (butlast (a # as))" using that by (cases "as = []") simp_all
        from Cons.prems(6) [OF this] un [OF in_set_butlastD [OF that]] show ?thesis
          by (auto simp: unchanged_def)
      qed
    qed (use Cons.prems(3) False in simp_all)
    with False show ?thesis by simp
  qed
  then obtain m' ss where IH: "(if n - tk = 0 then Some (m1, chain_append c ?s)
      else slice_loop m1 as (n - tk) (chain_append c ?s)) =
        Some (m', foldl chain_append (chain_append c ?s) ss)"
    "sliced m1 as (add_mset a R) (n - tk) m' ss"
    by blast
  have "slice_loop m (a # as) n c = Some (m', foldl chain_append c (?s # ss))"
    using b m1(1) IH(1) unfolding tk_def by (simp add: slice_retain_def slice_make_def Let_def)
  moreover have "sliced m (a # as) R n m' (?s # ss)"
    using sliced_Cons [OF b ok tk_def tk aR(1) sub m1(3,4) IH(2)] .
  ultimately show ?case by blast
qed simp

text \<open>The two phases of \<^verbatim>\<open>slicePrefix\<close>: retain the slices, then consume what they cover.\<close>

lemma slice_phase:
  assumes "heap_ok m (io_refs q + F)" and "iobuf_ok m q" and "refs_tight m (io_refs q + F)"
    and "m_block_size m + 2 < 2 ^ 32" and "n \<le> io_readable q" and "0 < n"
  shows "\<exists>m1 c. slice_loop m (io_blocks q) n chain_empty = Some (m1, c) \<and> chain_ok m1 c \<and>
    chain_toString m1 c = Some (take n (contents m q)) \<and>
    heap_ok m1 (io_refs q + (chain_refs c + F)) \<and> m_block_size m1 = m_block_size m \<and>
    (\<forall>x. x \<in># io_refs q + F \<longrightarrow> unchanged m m1 x) \<and>
    (\<forall>x. count (chain_refs c) x \<le> portion m (io_blocks q) n x)"
proof -
  let ?R = "io_refs q + F"
  have room: "a \<in># ?R \<and> Suc (count ?R a) < 2 ^ 32" if "a \<in> set (io_blocks q)" for a
  proof -
    have aR: "a \<in># ?R" using that by (simp add: io_refs_def)
    then obtain b where b: "m_heap m a = Some b" using heap_okD(3) [OF assms(1)] by blast
    have "b_begin b \<le> m_block_size m" using heap_okD(1) [OF assms(1) b] by (simp add: block_ok_def)
    with refs_tightD [OF assms(3) b aR] show ?thesis using assms(4) aR by simp
  qed
  have "\<exists>m1 ss. slice_loop m (io_blocks q) n chain_empty = Some (m1, foldl chain_append chain_empty ss) \<and>
      sliced m (io_blocks q) ?R n m1 ss"
    using assms(2,5,6) room
    by (intro slice_loop_spec [OF assms(1)]) (auto simp: iobuf_ok_def contents_def)
  then obtain m1 ss where
    run: "slice_loop m (io_blocks q) n chain_empty = Some (m1, foldl chain_append chain_empty ss)"
    and sl: "heap_ok m1 (slices_refs ss + ?R)" "m_block_size m1 = m_block_size m"
      "\<forall>x. x \<in># ?R \<longrightarrow> unchanged m m1 x" "list_all (slice_ok m1) ss"
      "slices_string m1 ss = Some (take n (contents m q))"
      "\<forall>x. count (slices_refs ss) x \<le> portion m (io_blocks q) n x"
    unfolding sliced_def contents_def by blast
  have "heap_ok m1 (io_refs q + (slices_refs ss + F))" using sl(1) by (simp add: ac_simps)
  with run sl(2-6) show ?thesis
    by (intro exI [of _ m1] exI [of _ "foldl chain_append chain_empty ss"])
      (simp add: foldl_chain_append chain_empty_def chain_refs_def chain_ok_def chain_toString_def)
qed

lemma refs_tight_slices:
  assumes "refs_tight m (io_refs q + F)" and "iobuf_ok m' q'"
    and "set (io_blocks q') \<subseteq> set (io_blocks q)"
    and "\<And>x. count C x \<le> portion m (io_blocks q) n x"
    and "\<And>x. x \<in># io_refs q + F \<Longrightarrow> x \<in># io_refs q' + (C + F) \<Longrightarrow>
      moved m m' (portion m (io_blocks q) n x) x"
  shows "refs_tight m' (io_refs q' + (C + F))"
proof (rule refs_tight_moved [OF assms(1)])
  fix x assume x: "x \<in># io_refs q' + (C + F)"
  have io: "count (io_refs q') x \<le> count (io_refs q) x"
    using mset_distinct_subset [OF assms(3)] assms(2) by (simp add: io_refs_def iobuf_ok_def)
  have R: "x \<in># io_refs q + F"
    using x assms(3) assms(4) [of x] portion_notin [of x "io_blocks q" m n]
    by (cases "x \<in> set (io_blocks q)") (auto simp: io_refs_def count_eq_zero_iff)
  then show "x \<in># io_refs q + F \<and> (\<exists>d. moved m m' d x \<and>
      count (io_refs q' + (C + F)) x \<le> count (io_refs q + F) x + d)"
    using assms(4) [of x] io assms(5) [OF R x]
    by (intro conjI exI [of _ "portion m (io_blocks q) n x"]) simp_all
qed

text \<open>
  \<^verbatim>\<open>slicePrefix\<close> cuts the first \<open>n\<close> bytes off the queue and returns them as a chain
  that shares the blocks: the bytes are those of the queue's prefix, they stay what they
  are whatever happens to the buffer later, and no reference counter overflows.
\<close>

lemma slicePrefix_spec:
  assumes "heap_ok m (io_refs q + F)" and "iobuf_ok m q" and "refs_tight m (io_refs q + F)"
    and "m_block_size m + 2 < 2 ^ 32" and "n \<le> io_readable q"
  shows "\<exists>c m' q'. io_slicePrefix n m q = Some (c, m', q') \<and>
    heap_ok m' (io_refs q' + (chain_refs c + F)) \<and> iobuf_ok m' q' \<and> chain_ok m' c \<and>
    chain_toString m' c = Some (take n (contents m q)) \<and> contents m' q' = drop n (contents m q) \<and>
    m_block_size m' = m_block_size m \<and> refs_tight m' (io_refs q' + (chain_refs c + F)) \<and>
    set (io_blocks q') \<subseteq> set (io_blocks q) \<and>
    (\<forall>x. x \<in># F \<longrightarrow> grown m m' x \<and> (x \<notin> set (io_blocks q) \<longrightarrow> unchanged m m' x))"
proof (cases "n = 0")
  case True
  have "unchanged m m x" if "x \<in># F" for x
    using heap_okD(3) [OF assms(1), of x] that by (intro unchanged_refl) auto
  with True assms(1-3) show ?thesis
    by (simp add: io_slicePrefix_def chain_refs_def chain_ok_def chain_toString_def chain_empty_def
        unchanged_grown)
next
  case False
  from slice_phase [OF assms] False obtain m1 c where
    run1: "slice_loop m (io_blocks q) n chain_empty = Some (m1, c)"
    and c: "chain_ok m1 c" "chain_toString m1 c = Some (take n (contents m q))"
      "heap_ok m1 (io_refs q + (chain_refs c + F))" "m_block_size m1 = m_block_size m"
    and un: "\<And>x. x \<in># io_refs q + F \<Longrightarrow> unchanged m m1 x"
    and cnt: "\<And>x. count (chain_refs c) x \<le> portion m (io_blocks q) n x"
    by blast
  have unq: "unchanged m m1 x" if "x \<in> set (io_blocks q)" for x
    using un that by (simp add: io_refs_def)
  have q1: "iobuf_ok m1 q" "contents m1 q = contents m q"
    by (rule iobuf_ok_unchanged [OF assms(2)], erule unq)+
  have por: "portion m1 (io_blocks q) (min n (io_readable q)) = portion m (io_blocks q) n"
    using portion_unchanged [of "io_blocks q" m m1] unq assms(5) by (auto simp: min_absorb1)
  from consume_spec [OF c(3) q1(1), of n] obtain m' q' where
    run2: "io_consume n m1 q = Some (m', q')"
    and k: "heap_ok m' (io_refs q' + (chain_refs c + F))" "iobuf_ok m' q'"
      "contents m' q' = drop n (contents m q)" "m_block_size m' = m_block_size m"
      "set (io_blocks q') \<subseteq> set (io_blocks q)"
      "\<And>x. x \<in># io_refs q' + (chain_refs c + F) \<Longrightarrow> moved m1 m' (portion m (io_blocks q) n x) x"
    unfolding por c(4) q1(2) by blast
  have mv: "moved m m' (portion m (io_blocks q) n x) x"
    if "x \<in># io_refs q + F" "x \<in># io_refs q' + (chain_refs c + F)" for x
    using un [OF that(1)] k(6) [OF that(2)] moved_trans [of m m1 0 x m'] by simp
  have "grown m1 m' x" if "x \<in># chain_refs c" for x
    using k(6) [of x] that moved_grown by auto
  note cok = chain_grown [OF c(1) this]
  have fr: "grown m m' x \<and> (x \<notin> set (io_blocks q) \<longrightarrow> unchanged m m' x)" if "x \<in># F" for x
    using mv [of x] that moved_grown [of m m' _ x] portion_notin [of x "io_blocks q" m n] by auto
  have "refs_tight m' (io_refs q' + (chain_refs c + F))"
    by (rule refs_tight_slices [OF assms(3) k(2,5) cnt mv])
  then show ?thesis
    using False run1 run2 k(1-5) cok fr c(2) by (simp add: io_slicePrefix_def)
qed

section \<open>clear and MakeBufferChain\<close>

lemma release_all_spec:
  assumes "heap_ok m (mset as + F)"
  shows "\<exists>m'. release_all as m = Some m' \<and> heap_ok m' F \<and> m_block_size m' = m_block_size m \<and>
    (\<forall>x. x \<in># F \<longrightarrow> unchanged m m' x)"
  using assms
proof (induction as arbitrary: m)
  case Nil
  then show ?case using heap_okD(3) [of m F] by (auto intro!: unchanged_refl)
next
  case (Cons a as)
  from release_spec [of m a "mset as + F"] Cons.prems obtain m1 where
    1: "block_release a m = Some m1" "heap_ok m1 (mset as + F)" "m_block_size m1 = m_block_size m"
    "\<And>x. x \<in># mset as + F \<Longrightarrow> unchanged m m1 x"
    by auto
  from Cons.IH [OF 1(2)] obtain m2 where 2: "release_all as m1 = Some m2" "heap_ok m2 F"
    "m_block_size m2 = m_block_size m1" "\<And>x. x \<in># F \<Longrightarrow> unchanged m1 m2 x"
    by blast
  have "unchanged m m2 x" if "x \<in># F" for x
    using 1(4) [of x] 2(4) [OF that] that unchanged_trans by auto
  with 1 2 show ?case by simp
qed

lemma IoBuffer_new_ok [simp]:
  "iobuf_ok m IoBuffer_new" "contents m IoBuffer_new = []" "io_refs IoBuffer_new = {#}"
  "io_blocks IoBuffer_new = []"
  by (simp_all add: iobuf_ok_def IoBuffer_new_def contents_def io_refs_def)

lemma clear_spec:
  assumes "heap_ok m (io_refs q + F)"
  shows "\<exists>m'. io_clear m q = Some (m', IoBuffer_new) \<and> heap_ok m' F \<and>
    m_block_size m' = m_block_size m \<and> (\<forall>x. x \<in># F \<longrightarrow> unchanged m m' x)"
  using release_all_spec [of m "io_blocks q" F] assms
  by (auto simp: io_clear_def io_refs_def IoBuffer_new_def)

text \<open>
  \<^verbatim>\<open>MakeBufferChain\<close> puts a byte string on the heap: the chain reads back as that
  string, and no other owner is affected.
\<close>

lemma MakeBufferChain_spec:
  assumes "heap_ok m F" and "refs_tight m F" and "0 < m_block_size m" and "m_block_size m + 2 < 2 ^ 32"
  shows "\<exists>c m'. MakeBufferChain data m = Some (c, m') \<and> heap_ok m' (chain_refs c + F) \<and>
    refs_tight m' (chain_refs c + F) \<and> chain_ok m' c \<and> chain_toString m' c = Some data \<and>
    m_block_size m' = m_block_size m \<and> (\<forall>x. x \<in># F \<longrightarrow> unchanged m m' x)"
proof -
  from append_spec [of m IoBuffer_new F data] assms obtain m1 q1 where
    1: "io_append m IoBuffer_new data = Some (m1, q1)" "heap_ok m1 (io_refs q1 + F)" "iobuf_ok m1 q1"
      "contents m1 q1 = data" "m_block_size m1 = m_block_size m" "refs_tight m1 (io_refs q1 + F)"
    and fr1: "\<And>x. x \<in># F \<Longrightarrow> unchanged m m1 x \<and> x \<notin> set (io_blocks q1)"
    by auto
  have "length data \<le> io_readable q1" using 1(3,4) by (simp add: iobuf_ok_def)
  from slicePrefix_spec [OF 1(2,3,6) _ this] 1(5) assms(4) obtain c m2 q2 where
    2: "io_slicePrefix (length data) m1 q1 = Some (c, m2, q2)"
      "heap_ok m2 (io_refs q2 + (chain_refs c + F))" "chain_ok m2 c"
      "chain_toString m2 c = Some data" "m_block_size m2 = m_block_size m1"
      "refs_tight m2 (io_refs q2 + (chain_refs c + F))"
    and fr2: "\<And>x. x \<in># F \<Longrightarrow> x \<notin> set (io_blocks q1) \<Longrightarrow> unchanged m1 m2 x"
    using 1(4) by auto
  from clear_spec [OF 2(2)] obtain m3 where
    3: "io_clear m2 q2 = Some (m3, IoBuffer_new)" "heap_ok m3 (chain_refs c + F)"
      "m_block_size m3 = m_block_size m2"
    and fr3: "\<And>x. x \<in># chain_refs c + F \<Longrightarrow> unchanged m2 m3 x"
    by blast
  have gr: "grown m2 m3 x" if "x \<in># chain_refs c" for x
    using fr3 [of x] that unchanged_grown by auto
  have "refs_tight m3 (chain_refs c + F)"
    by (rule refs_tight_mono [OF 2(6)]) (use fr3 unchanged_grown in simp)
  moreover have "unchanged m m3 x" if "x \<in># F" for x
    using fr1 [OF that] fr2 [OF that] fr3 [of x] that unchanged_trans by (meson union_iff)
  ultimately show ?thesis
    using 1(1,5) 2(1,4,5) 3 chain_grown [OF 2(3) gr]
    by (simp add: MakeBufferChain_def)
qed

section \<open>The buffer's contract\<close>

lemma io_inv_readable: "io_inv m q F \<Longrightarrow> io_readable q = length (contents m q)"
  by (simp add: io_inv_def iobuf_ok_def)

lemma io_inv_view:
  assumes "io_inv m q F"
  shows "\<exists>q'. io_readableView m q = Some (contents m q, q') \<and> io_inv m q' F \<and>
    contents m q' = contents m q \<and> io_blocks q' = io_blocks q"
proof -
  from view_spec [of m q F] assms obtain q' where v: "io_readableView m q = Some (contents m q, q')"
    "iobuf_ok m q'" "io_blocks q' = io_blocks q"
    by (auto simp: io_inv_def)
  then have "contents m q' = contents m q" by (simp add: contents_def)
  with v assms show ?thesis by (simp add: io_inv_def io_refs_def)
qed

lemma io_inv_reserve:
  assumes "io_inv m q F"
  shows "\<exists>m1 q1 a b. io_reserveWritable m q = Some (m1, q1, (a, b_end b), block_writableBytes b) \<and>
    io_inv m1 q1 F \<and> contents m1 q1 = contents m q \<and> io_blocks q1 \<noteq> [] \<and> a = last (io_blocks q1) \<and>
    m_heap m1 a = Some b \<and> 0 < block_writableBytes b \<and> (\<forall>x. x \<in># F \<longrightarrow> grown m m1 x)"
proof -
  have i: "heap_ok m (io_refs q + F)" "iobuf_ok m q" "0 < m_block_size m" "refs_tight m (io_refs q + F)"
    using assms by (simp_all add: io_inv_def)
  from reserve_spec [OF i(1-3)] obtain m1 q1 a b where
    r: "io_reserveWritable m q = Some (m1, q1, (a, b_end b), block_writableBytes b)"
      "heap_ok m1 (io_refs q1 + F)" "iobuf_ok m1 q1" "contents m1 q1 = contents m q"
      "io_blocks q1 \<noteq> []" "a = last (io_blocks q1)" "m_heap m1 a = Some b"
      "0 < block_writableBytes b" "m_block_size m1 = m_block_size m"
      "io_blocks q1 = io_blocks q \<or> io_blocks q1 = io_blocks q @ [a] \<and> a \<notin># io_refs q + F"
    and gr: "\<And>x. x \<in># io_refs q + F \<Longrightarrow> grown m m1 x"
    using unchanged_grown by blast
  have "refs_tight m1 (io_refs q1 + F)"
  proof (rule refs_tight_mono [OF i(4)])
    fix x assume "x \<in># io_refs q1 + F"
    then show "grown m m1 x \<and> count (io_refs q1 + F) x \<le> count (io_refs q + F) x \<or>
        count (io_refs q1 + F) x \<le> 1"
      using gr [of x] r(10) by (auto simp: io_refs_def not_in_iff)
  qed
  then have "io_inv m1 q1 F" using r(2,3,9) assms by (simp add: io_inv_def)
  with r gr show ?thesis by (intro exI [of _ m1] exI [of _ q1] exI [of _ a] exI [of _ b]) simp
qed

lemma io_inv_write_commit:
  assumes "io_inv m q F" and "io_blocks q \<noteq> []" and "a = last (io_blocks q)" and "m_heap m a = Some b"
    and "length src \<le> block_writableBytes b"
  shows "\<exists>m1 m2 q2. block_write a (b_end b) src m = Some m1 \<and>
    io_commitWrite (length src) m1 q = Some (m2, q2) \<and> io_inv m2 q2 F \<and>
    contents m2 q2 = contents m q @ src \<and> (\<forall>x. x \<in># F \<longrightarrow> grown m m2 x)"
proof -
  have i: "heap_ok m (io_refs q + F)" "iobuf_ok m q" "refs_tight m (io_refs q + F)"
    using assms(1) by (simp_all add: io_inv_def)
  from write_commit_spec [OF i(1,2) assms(2-5)] obtain m1 m2 q2 where
    w: "block_write a (b_end b) src m = Some m1" "io_commitWrite (length src) m1 q = Some (m2, q2)"
      "heap_ok m2 (io_refs q2 + F)" "iobuf_ok m2 q2" "io_blocks q2 = io_blocks q"
      "contents m2 q2 = contents m q @ src" "m_block_size m2 = m_block_size m"
    and gr: "\<And>x. x \<in># io_refs q + F \<Longrightarrow> grown m m2 x"
    by blast
  have "refs_tight m2 (io_refs q2 + F)"
    by (rule refs_tight_mono [OF i(3)]) (use gr w(5) in \<open>simp add: io_refs_def\<close>)
  then have "io_inv m2 q2 F" using w(3,4,7) assms(1) by (simp add: io_inv_def)
  with w(1,2,6) gr show ?thesis by (intro exI [of _ m1] exI [of _ m2] exI [of _ q2]) simp
qed

lemma io_inv_append:
  assumes "io_inv m q F"
  shows "\<exists>m' q'. io_append m q data = Some (m', q') \<and> io_inv m' q' F \<and>
    contents m' q' = contents m q @ data \<and> (\<forall>x. x \<in># F \<longrightarrow> grown m m' x)"
  using append_spec [of m q F data] assms by (auto simp: io_inv_def)

lemma refs_tight_consumed:
  assumes "refs_tight m (io_refs q + F)" and "iobuf_ok m' q'"
    and "set (io_blocks q') \<subseteq> set (io_blocks q)"
    and "\<And>x. x \<in># io_refs q' + F \<Longrightarrow> grown m m' x"
  shows "refs_tight m' (io_refs q' + F)"
proof (rule refs_tight_mono [OF assms(1)])
  fix x assume "x \<in># io_refs q' + F"
  moreover have "count (io_refs q') x \<le> count (io_refs q) x"
    using mset_distinct_subset [OF assms(3)] assms(2) by (simp add: io_refs_def iobuf_ok_def)
  ultimately show "grown m m' x \<and> count (io_refs q' + F) x \<le> count (io_refs q + F) x \<or>
      count (io_refs q' + F) x \<le> 1"
    using assms(4) by simp
qed

lemma io_inv_consume:
  assumes "io_inv m q F"
  shows "\<exists>m' q'. io_consume n m q = Some (m', q') \<and> io_inv m' q' F \<and>
    contents m' q' = drop n (contents m q) \<and> (\<forall>x. x \<in># F \<longrightarrow> grown m m' x)"
proof -
  from consume_spec [of m q F n] assms obtain m' q' where c: "io_consume n m q = Some (m', q')"
    "heap_ok m' (io_refs q' + F)" "iobuf_ok m' q'" "contents m' q' = drop n (contents m q)"
    "m_block_size m' = m_block_size m" "set (io_blocks q') \<subseteq> set (io_blocks q)"
    "\<forall>x. x \<in># io_refs q' + F \<longrightarrow> moved m m' (portion m (io_blocks q) (min n (io_readable q)) x) x"
    unfolding io_inv_def by blast
  then have gr: "grown m m' x" if "x \<in># io_refs q' + F" for x
    using that moved_grown by blast
  have "refs_tight m' (io_refs q' + F)"
    by (rule refs_tight_consumed [OF _ c(3,6) gr]) (use assms in \<open>simp add: io_inv_def\<close>)
  with c gr assms show ?thesis by (auto simp: io_inv_def)
qed

lemma io_inv_slicePrefix:
  assumes "io_inv m q F" and "n \<le> length (contents m q)"
  shows "\<exists>c m' q'. io_slicePrefix n m q = Some (c, m', q') \<and> io_inv m' q' (chain_refs c + F) \<and>
    chain_ok m' c \<and> chain_toString m' c = Some (take n (contents m q)) \<and>
    contents m' q' = drop n (contents m q) \<and> (\<forall>x. x \<in># F \<longrightarrow> grown m m' x)"
  using slicePrefix_spec [of m q F n] assms io_inv_readable [OF assms(1)]
  by (auto simp: io_inv_def)

lemma io_inv_drop_chain:
  assumes "io_inv m q (chain_refs c + F)"
  shows "\<exists>m'. chain_destroy c m = Some m' \<and> io_inv m' q F \<and> contents m' q = contents m q \<and>
    (\<forall>x. x \<in># F \<longrightarrow> unchanged m m' x)"
proof -
  have "heap_ok m (chain_refs c + (io_refs q + F))" using assms by (simp add: io_inv_def ac_simps)
  from chain_destroy_spec [OF this] obtain m' where d: "chain_destroy c m = Some m'"
    "heap_ok m' (io_refs q + F)" "m_block_size m' = m_block_size m"
    "\<And>x. x \<in># io_refs q + F \<Longrightarrow> unchanged m m' x"
    by blast
  have q: "iobuf_ok m' q" "contents m' q = contents m q"
    using iobuf_ok_unchanged [of m q m'] d(4) assms by (simp_all add: io_inv_def io_refs_def)
  have "refs_tight m (io_refs q + (chain_refs c + F))" using assms by (simp add: io_inv_def)
  then have "refs_tight m' (io_refs q + F)"
    by (rule refs_tight_mono) (use d(4) unchanged_grown in simp)
  with d q assms show ?thesis by (simp add: io_inv_def)
qed

lemma io_inv_new:
  assumes "0 < sz" and "sz + 2 < 2 ^ 32"
  shows "io_inv (BlockPool_new sz junk) IoBuffer_new {#}"
  using assms by (simp add: io_inv_def io_refs_def refs_tight_def) (simp add: IoBuffer_new_def BlockPool_new_def)

text \<open>A buffer over blocks of eight bytes: the concrete input of the examples.\<close>

lemma example_buffer:
  "\<exists>m q. io_append (BlockPool_new 8 (\<lambda>_ _. CHR 0x00)) IoBuffer_new data = Some (m, q) \<and>
     io_inv m q {#} \<and> contents m q = data"
proof -
  have "contents (BlockPool_new 8 (\<lambda>_ _. CHR 0x00)) IoBuffer_new = []"
    by (simp add: contents_def IoBuffer_new_def)
  with io_inv_append [OF io_inv_new [of 8 "\<lambda>_ _. CHR 0x00"], of data] show ?thesis by auto
qed

lemma io_inv_clear:
  assumes "io_inv m q F"
  shows "\<exists>m'. io_clear m q = Some (m', IoBuffer_new) \<and> io_inv m' IoBuffer_new F \<and>
    (\<forall>x. x \<in># F \<longrightarrow> unchanged m m' x)"
proof -
  from clear_spec [of m q F] assms obtain m' where c: "io_clear m q = Some (m', IoBuffer_new)"
    "heap_ok m' F" "m_block_size m' = m_block_size m" "\<And>x. x \<in># F \<Longrightarrow> unchanged m m' x"
    by (auto simp: io_inv_def)
  have "refs_tight m (io_refs q + F)" using assms by (simp add: io_inv_def)
  then have "refs_tight m' F"
    by (rule refs_tight_mono) (use c(4) unchanged_grown in simp)
  with c assms show ?thesis by (simp add: io_inv_def)
qed

interpretation io: byte_queue
  "\<lambda>(m, q). contents m q" "\<lambda>(m, q). io_inv m q F"
  "\<lambda>d (m, q). io_append m q d" "\<lambda>n (m, q). io_consume n m q"
  "\<lambda>(m, q). map_option (\<lambda>(v, q'). (v, (m, q'))) (io_readableView m q)"
  "\<lambda>(m, q). io_clear m q"
  for F
proof (unfold_locales, goal_cases)
  case (1 s d)
  then show ?case using io_inv_append [of "fst s" "snd s" F d] by (auto simp: case_prod_beta)
next
  case (2 s n)
  then show ?case using io_inv_consume [of "fst s" "snd s" F n] by (auto simp: case_prod_beta)
next
  case (3 s)
  then show ?case using io_inv_view [of "fst s" "snd s" F] by (auto simp: case_prod_beta)
next
  case (4 s)
  then show ?case using io_inv_clear [of "fst s" "snd s" F] by (auto simp: case_prod_beta)
qed

text \<open>
  C30 An \<^verbatim>\<open>IoBuffer\<close> is a byte queue. However reads, appends, partial consumption and
  clears are interleaved, over however many blocks, shared with however many slices
  (\<open>F\<close>), no operation fails, every view is what a plain byte list would give, the
  linearization cache is never stale, and the reference counts stay exact.
\<close>

theorem iobuffer_refines_bytes:
  assumes "io_inv m q F"
  shows "\<exists>m' q'. bq_run (\<lambda>d (m, q). io_append m q d) (\<lambda>n (m, q). io_consume n m q)
      (\<lambda>(m, q). map_option (\<lambda>(v, q'). (v, (m, q'))) (io_readableView m q))
      (\<lambda>(m, q). io_clear m q) ops (m, q) = Some (fst (bq_spec ops (contents m q)), (m', q')) \<and>
    io_inv m' q' F \<and> contents m' q' = snd (bq_spec ops (contents m q))"
  using io.run_refines [of F "(m, q)" ops] assms by auto

theorem iobuffer_refines_bytes_witness:
  "\<exists>s'. bq_run (\<lambda>d (m, q). io_append m q d) (\<lambda>n (m, q). io_consume n m q)
      (\<lambda>(m, q). map_option (\<lambda>(v, q'). (v, (m, q'))) (io_readableView m q))
      (\<lambda>(m, q). io_clear m q) [Append ''GET key'', View, Consume 4, Append ''s'', View]
      (BlockPool_new 4 (\<lambda>_ _. CHR 0x00), IoBuffer_new) = Some ([''GET key'', ''keys''], s')"
  using iobuffer_refines_bytes
    [OF io_inv_new [of 4 "\<lambda>_ _. CHR 0x00"], of "[Append ''GET key'', View, Consume 4, Append ''s'', View]"]
  by auto

text \<open>
  C31 Zero copy is safe: the bytes of a chain cut off earlier never change while it is
  alive, whatever is appended to, consumed from or cut off the buffer that shares its
  blocks; and it can still be read and destroyed.
\<close>

theorem live_chain_immutable:
  assumes "io_inv m q (chain_refs c + F)" and "chain_ok m c"
  shows "(\<exists>m' q'. io_append m q data = Some (m', q') \<and> chain_toString m' c = chain_toString m c \<and>
      io_inv m' q' (chain_refs c + F)) \<and>
    (\<exists>m' q'. io_consume n m q = Some (m', q') \<and> chain_toString m' c = chain_toString m c \<and>
      io_inv m' q' (chain_refs c + F)) \<and>
    (n \<le> length (contents m q) \<longrightarrow>
      (\<exists>d m' q'. io_slicePrefix n m q = Some (d, m', q') \<and> chain_toString m' c = chain_toString m c \<and>
        chain_toString m' d = Some (take n (contents m q)) \<and>
        io_inv m' q' (chain_refs d + (chain_refs c + F)))) \<and>
    (\<exists>m'. chain_destroy c m = Some m' \<and> io_inv m' q F \<and> contents m' q = contents m q)"
proof (intro conjI impI)
  have keep: "chain_toString m' c = chain_toString m c"
    if "\<forall>x. x \<in># chain_refs c + F \<longrightarrow> grown m m' x" for m'
    using chain_grown(2) [OF assms(2)] that by simp
  show "\<exists>m' q'. io_append m q data = Some (m', q') \<and> chain_toString m' c = chain_toString m c \<and>
      io_inv m' q' (chain_refs c + F)"
    using io_inv_append [OF assms(1), of data] keep by blast
  show "\<exists>m' q'. io_consume n m q = Some (m', q') \<and> chain_toString m' c = chain_toString m c \<and>
      io_inv m' q' (chain_refs c + F)"
    using io_inv_consume [OF assms(1), of n] keep by blast
  show "\<exists>d m' q'. io_slicePrefix n m q = Some (d, m', q') \<and> chain_toString m' c = chain_toString m c \<and>
      chain_toString m' d = Some (take n (contents m q)) \<and> io_inv m' q' (chain_refs d + (chain_refs c + F))"
    if "n \<le> length (contents m q)"
    using io_inv_slicePrefix [OF assms(1) that] keep by blast
  show "\<exists>m'. chain_destroy c m = Some m' \<and> io_inv m' q F \<and> contents m' q = contents m q"
    using io_inv_drop_chain [OF assms(1)] by blast
qed

lemma example_chain:
  "\<exists>c m q. io_inv m q (chain_refs c + {#}) \<and> chain_ok m c \<and> chain_toString m c = Some ''PING'' \<and>
     contents m q = ''PONG''"
proof -
  obtain m q where "io_inv m q {#}" "contents m q = ''PINGPONG''" using example_buffer by blast
  with io_inv_slicePrefix [of m q "{#}" 4] show ?thesis by auto
qed

theorem live_chain_immutable_witness:
  "\<exists>c m q m' q'. chain_toString m c = Some ''PING'' \<and> contents m q = ''PONG'' \<and>
     io_append m q ''more'' = Some (m', q') \<and> chain_toString m' c = Some ''PING''"
proof -
  obtain c m q where e: "io_inv m q (chain_refs c + {#})" "chain_ok m c"
    "chain_toString m c = Some ''PING''" "contents m q = ''PONG''"
    using example_chain by blast
  show ?thesis using live_chain_immutable [OF e(1,2), of "''more''" 0] e(3,4) by metis
qed

end
