(* ===== verification/Resp_Parser.thy ===== *)
theory Resp_Parser
  imports Io_Buffer
begin

text \<open>
  The framing parser of \<^verbatim>\<open>src/resp_parser.cpp\<close>. The RESP decoder itself,
  \<^verbatim>\<open>redis::UnpackOne\<close> of \<^verbatim>\<open>redis/resp.h\<close>, is in a submodule: it is the parameter
  \<open>up\<close> of the model, applied to the input, the number of arena slots and the limits,
  and its documented behaviour is stated by the predicates \<open>unpack_bounds\<close>,
  \<open>unpack_arena\<close> and \<open>unpack_prefix\<close>. The parameter \<open>alloc\<close> says which
  sizes \<^verbatim>\<open>scratch_.resize\<close> can allocate; where it cannot, \<^verbatim>\<open>std::bad_alloc\<close> is
  caught. Of \<^verbatim>\<open>scratch_\<close> only the size matters to the code, so it is a number.
\<close>

section \<open>Types\<close>

datatype ParseStatus = PS_kOk | PS_kNeedMore | PS_kError | PS_kNoMemory

text \<open>
  What the code uses of \<^verbatim>\<open>redis/resp.h\<close>. The field \<^verbatim>\<open>elements\<close> of a value is null or
  points to \<^verbatim>\<open>element_count\<close> values, so the count of a value with elements is their
  number; \<open>rv_null_count\<close> is the count where the pointer is null.
\<close>

datatype RespStatus = RS_kOk | RS_kNeedMore | RS_kNoMemory | RS_kError

datatype RespType = RT_kArray | RT_kBulkString | RT_other nat

datatype RespValue =
  RespValue (rv_type: RespType) (rv_text: bytes) (rv_null_count: nat) (rv_elements: "RespValue list option")

fun rv_count :: "RespValue \<Rightarrow> nat" where
  "rv_count (RespValue t x n None) = n"
| "rv_count (RespValue t x n (Some es)) = length es"

record RespResult =
  rr_status :: RespStatus
  rr_consumed :: nat
  rr_value :: "RespValue option"
  rr_error :: string

record RespLimits =
  max_bulk_bytes :: nat
  max_array_elements :: nat
  max_depth :: nat

type_synonym unpacker = "bytes \<Rightarrow> nat \<Rightarrow> RespLimits \<Rightarrow> RespResult"

record frame_info =
  fi_consumed :: nat
  fi_command_name :: string
  fi_argc :: nat

record resp_parser =
  p_limits :: RespLimits
  p_scratch :: nat
  p_max_frame_bytes :: nat

section \<open>The operations\<close>

definition SIZE_MAX :: nat where
  "SIZE_MAX = 2 ^ 64 - 1"

definition parser_setLimits :: "nat \<Rightarrow> nat \<Rightarrow> nat \<Rightarrow> nat \<Rightarrow> resp_parser \<Rightarrow> resp_parser" where
  "parser_setLimits bulk elems depth frame p =
     p\<lparr>p_limits := \<lparr>max_bulk_bytes = bulk, max_array_elements = elems, max_depth = depth\<rparr>,
       p_max_frame_bytes := frame\<rparr>"

definition RespParser_new :: resp_parser where
  "RespParser_new =
     parser_setLimits (1024 * 1024) 1024 8 SIZE_MAX
       \<lparr>p_limits = \<lparr>max_bulk_bytes = 0, max_array_elements = 0, max_depth = 0\<rparr>,
        p_scratch = 0, p_max_frame_bytes = SIZE_MAX\<rparr>"

definition bad_alloc_result :: RespResult where
  "bad_alloc_result =
     \<lparr>rr_status = RS_kNoMemory, rr_consumed = 0, rr_value = None,
      rr_error = ''scratch allocation failed''\<rparr>"

text \<open>The statements after a call of \<^verbatim>\<open>UnpackOne\<close> that is not retried.\<close>

definition unpack_finish :: "nat \<Rightarrow> bytes \<Rightarrow> RespResult \<Rightarrow> RespResult" where
  "unpack_finish frame input result =
     (let r1 = (if rr_status result = RS_kNoMemory then result\<lparr>rr_status := RS_kNeedMore\<rparr> else result)
      in if rr_status r1 = RS_kNeedMore \<and> frame \<le> length input
         then r1\<lparr>rr_status := RS_kError\<rparr> else r1)"

partial_function (option) unpack_loop ::
  "unpacker \<Rightarrow> (nat \<Rightarrow> bool) \<Rightarrow> resp_parser \<Rightarrow> bytes \<Rightarrow> nat \<Rightarrow> (RespResult \<times> resp_parser) option" where
  "unpack_loop up alloc p input max_slots =
     (let slots = min (p_scratch p) max_slots;
          result = up input slots (p_limits p)
      in if rr_status result = RS_kNoMemory \<and> slots < max_slots
         then let n = slots + min slots (max_slots - slots)
              in if alloc n then unpack_loop up alloc (p\<lparr>p_scratch := n\<rparr>) input max_slots
                 else Some (bad_alloc_result, p)
         else Some (unpack_finish (p_max_frame_bytes p) input result, p))"

definition unpack :: "unpacker \<Rightarrow> (nat \<Rightarrow> bool) \<Rightarrow> resp_parser \<Rightarrow> bytes \<Rightarrow> (RespResult \<times> resp_parser) option" where
  "unpack up alloc p input0 =
     (let input = take (p_max_frame_bytes p) input0;
          max_slots = length input div 3 + 1
      in if p_scratch p = 0
         then let n = min 16 max_slots
              in if alloc n then unpack_loop up alloc (p\<lparr>p_scratch := n\<rparr>) input max_slots
                 else Some (bad_alloc_result, p)
         else unpack_loop up alloc p input max_slots)"

fun convert :: "RespStatus \<Rightarrow> ParseStatus" where
  "convert RS_kOk = PS_kOk"
| "convert RS_kNeedMore = PS_kNeedMore"
| "convert RS_kNoMemory = PS_kNoMemory"
| "convert RS_kError = PS_kError"

text \<open>\<^const>\<open>None\<close> is the return value \<^verbatim>\<open>false\<close>.\<close>

definition extractCommandInfo :: "RespValue \<Rightarrow> frame_info option" where
  "extractCommandInfo v =
     (if rv_type v \<noteq> RT_kArray \<or> rv_count v = 0 then None
      else case rv_elements v of
        None \<Rightarrow> None
      | Some es \<Rightarrow>
          if list_all (\<lambda>e. rv_type e = RT_kBulkString) es
          then Some \<lparr>fi_consumed = 0, fi_command_name = rv_text (hd es), fi_argc = rv_count v\<rparr>
          else None)"

text \<open>The second component is what is stored through \<^verbatim>\<open>out\<close>, if anything is.\<close>

definition peekFrame ::
  "unpacker \<Rightarrow> (nat \<Rightarrow> bool) \<Rightarrow> resp_parser \<Rightarrow> mem \<Rightarrow> iobuf \<Rightarrow> nat \<Rightarrow>
     (ParseStatus \<times> frame_info option \<times> resp_parser \<times> iobuf) option" where
  "peekFrame up alloc p m q offset =
     (if io_readable q < offset then Some (PS_kError, None, p, q)
      else do {
        (view, q1) \<leftarrow> io_readableView m q;
        if length view < offset then None
        else do {
          (result, p1) \<leftarrow> unpack up alloc p (drop offset view);
          if rr_status result \<noteq> RS_kOk then Some (convert (rr_status result), None, p1, q1)
          else do {
            v \<leftarrow> rr_value result;
            case extractCommandInfo v of
              None \<Rightarrow> Some (PS_kError, None, p1, q1)
            | Some info \<Rightarrow>
                Some (PS_kOk, Some (info\<lparr>fi_consumed := rr_consumed result\<rparr>), p1, q1)
          }
        }
      })"

text \<open>
  \<open>out\<close> is the chain the caller passes: it is assigned (its old slices released) when
  a reply is complete. Returned are the status, \<^verbatim>\<open>*consumed\<close> when stored, the chain, and
  the states.
\<close>

definition nextReplyFrame ::
  "unpacker \<Rightarrow> (nat \<Rightarrow> bool) \<Rightarrow> resp_parser \<Rightarrow> mem \<Rightarrow> iobuf \<Rightarrow> chain \<Rightarrow>
     (ParseStatus \<times> nat option \<times> chain \<times> resp_parser \<times> mem \<times> iobuf) option" where
  "nextReplyFrame up alloc p m q out = do {
     (view, q1) \<leftarrow> io_readableView m q;
     (result, p1) \<leftarrow> unpack up alloc p view;
     if rr_status result \<noteq> RS_kOk then Some (convert (rr_status result), None, out, p1, m, q1)
     else do {
       (c, m2, q2) \<leftarrow> io_slicePrefix (rr_consumed result) m q1;
       (out2, _, m3) \<leftarrow> chain_move_assign out c m2;
       Some (PS_kOk, Some (rr_consumed result), out2, p1, m3, q2)
     }
   }"

section \<open>What the parser relies on\<close>

text \<open>A decoded value is there, took at least one byte and none beyond the input.\<close>

definition unpack_bounds :: "unpacker \<Rightarrow> bool" where
  "unpack_bounds up \<longleftrightarrow>
     (\<forall>input n lim. rr_status (up input n lim) = RS_kOk \<longrightarrow>
        0 < rr_consumed (up input n lim) \<and> rr_consumed (up input n lim) \<le> length input \<and>
        rr_value (up input n lim) \<noteq> None)"

text \<open>
  The arena: too few slots are reported as \<^verbatim>\<open>kNoMemory\<close> and nothing else depends on
  their number; a value takes at least three bytes, so an input that decodes at all
  decodes with one slot for every three of its bytes and one more.
\<close>

definition unpack_arena :: "unpacker \<Rightarrow> bool" where
  "unpack_arena up \<longleftrightarrow>
     (\<forall>input n n' lim. rr_status (up input n lim) \<noteq> RS_kNoMemory \<longrightarrow> n \<le> n' \<longrightarrow>
        up input n' lim = up input n lim) \<and>
     (\<forall>input n lim. rr_status (up input n lim) = RS_kOk \<longrightarrow>
        rr_status (up input (length input div 3 + 1) lim) \<noteq> RS_kNoMemory)"

text \<open>Decoding stops at the end of the value: bytes behind it change nothing.\<close>

definition unpack_prefix :: "unpacker \<Rightarrow> bool" where
  "unpack_prefix up \<longleftrightarrow>
     (\<forall>input more n lim. rr_status (up input n lim) = RS_kOk \<longrightarrow>
        up (input @ more) n lim = up input n lim)"

text \<open>The decoder called once, with as many slots as the input can need.\<close>

definition unpack_ref :: "unpacker \<Rightarrow> resp_parser \<Rightarrow> bytes \<Rightarrow> RespResult" where
  "unpack_ref up p input0 =
     (let input = take (p_max_frame_bytes p) input0
      in unpack_finish (p_max_frame_bytes p) input
           (up input (length input div 3 + 1) (p_limits p)))"

text \<open>The status and the frame that a decoder's answer stands for.\<close>

definition frame_of :: "RespResult \<Rightarrow> ParseStatus \<times> frame_info option" where
  "frame_of r =
     (if rr_status r \<noteq> RS_kOk then (convert (rr_status r), None)
      else case extractCommandInfo (the (rr_value r)) of
        None \<Rightarrow> (PS_kError, None)
      | Some info \<Rightarrow> (PS_kOk, Some (info\<lparr>fi_consumed := rr_consumed r\<rparr>)))"

text \<open>
  A decoder of a single frame, the \<^verbatim>\<open>PING\<close> request, that behaves as documented: the
  concrete input of the examples below.
\<close>

definition ping_frame :: bytes where
  "ping_frame = ''*1'' @ [CHR 0x0D, CHR 0x0A] @ ''$4'' @ [CHR 0x0D, CHR 0x0A] @ ''PING'' @
     [CHR 0x0D, CHR 0x0A]"

definition ping_value :: RespValue where
  "ping_value = RespValue RT_kArray [] 0 (Some [RespValue RT_kBulkString ''PING'' 0 None])"

definition ping_unpack :: unpacker where
  "ping_unpack input n lim =
     (if take 14 input = ping_frame
      then if n < 2 then \<lparr>rr_status = RS_kNoMemory, rr_consumed = 0, rr_value = None, rr_error = []\<rparr>
           else \<lparr>rr_status = RS_kOk, rr_consumed = 14, rr_value = Some ping_value, rr_error = []\<rparr>
      else if input = take (length input) ping_frame
      then \<lparr>rr_status = RS_kNeedMore, rr_consumed = 0, rr_value = None, rr_error = []\<rparr>
      else \<lparr>rr_status = RS_kError, rr_consumed = 0, rr_value = None, rr_error = []\<rparr>)"

lemma length_ping_frame [simp]: "length ping_frame = 14"
  by (simp add: ping_frame_def)

lemma ping_take_length: "take 14 input = ping_frame \<Longrightarrow> 14 \<le> length input"
  by (metis length_ping_frame length_take min.bounded_iff order_refl)

lemma ping_unpack_ok:
  "unpack_bounds ping_unpack" "unpack_arena ping_unpack" "unpack_prefix ping_unpack"
proof -
  show "unpack_bounds ping_unpack"
    using ping_take_length by (auto simp: unpack_bounds_def ping_unpack_def)
  have "2 \<le> length input div 3 + 1" if "take 14 input = ping_frame" for input :: bytes
    using ping_take_length [OF that] by linarith
  then show "unpack_arena ping_unpack"
    by (force simp: unpack_arena_def ping_unpack_def)
  show "unpack_prefix ping_unpack"
    using ping_take_length by (auto simp: unpack_prefix_def ping_unpack_def)
qed

section \<open>The retry loop\<close>

lemma unpack_arenaD:
  assumes "unpack_arena up"
  shows "rr_status (up input n lim) \<noteq> RS_kNoMemory \<Longrightarrow> n \<le> n' \<Longrightarrow> up input n' lim = up input n lim"
    and "rr_status (up input n lim) = RS_kOk \<Longrightarrow>
      rr_status (up input (length input div 3 + 1) lim) \<noteq> RS_kNoMemory"
  using assms unfolding unpack_arena_def by blast+

lemma unpack_boundsD:
  assumes "unpack_bounds up" and "rr_status (up input n lim) = RS_kOk"
  shows "0 < rr_consumed (up input n lim)" and "rr_consumed (up input n lim) \<le> length input"
    and "\<exists>v. rr_value (up input n lim) = Some v"
  using assms unfolding unpack_bounds_def by blast+

lemma unpack_loop_total:
  assumes "0 < p_scratch p"
  shows "\<exists>r n. unpack_loop up alloc p input max_slots = Some (r, p\<lparr>p_scratch := n\<rparr>) \<and>
    p_scratch p \<le> n \<and> n \<le> max (p_scratch p) max_slots \<and>
    (r = bad_alloc_result \<or>
     (\<exists>k. r = unpack_finish (p_max_frame_bytes p) input (up input k (p_limits p))))"
  using assms
proof (induction "max_slots - p_scratch p" arbitrary: p rule: less_induct)
  case less
  define slots where "slots = min (p_scratch p) max_slots"
  define n where "n = slots + min slots (max_slots - slots)"
  note step = unpack_loop.simps [of up alloc p input max_slots, unfolded Let_def,
      folded slots_def, folded n_def]
  show ?case
  proof (cases "rr_status (up input slots (p_limits p)) = RS_kNoMemory \<and> slots < max_slots \<and> alloc n")
    case True
    then have n: "p_scratch p < n" "n \<le> max_slots"
      using less.prems by (auto simp: n_def slots_def)
    then have "max_slots - p_scratch (p\<lparr>p_scratch := n\<rparr>) < max_slots - p_scratch p" by simp
    from less.hyps [OF this] n obtain r k where
      "unpack_loop up alloc (p\<lparr>p_scratch := n\<rparr>) input max_slots = Some (r, p\<lparr>p_scratch := k\<rparr>)"
      "n \<le> k" "k \<le> max n max_slots"
      "r = bad_alloc_result \<or>
        (\<exists>k. r = unpack_finish (p_max_frame_bytes p) input (up input k (p_limits p)))"
      by auto
    with step True n show ?thesis by (intro exI [of _ r] exI [of _ k]) simp
  next
    case False
    then obtain r where "unpack_loop up alloc p input max_slots = Some (r, p)"
      "r = bad_alloc_result \<or>
        (\<exists>k. r = unpack_finish (p_max_frame_bytes p) input (up input k (p_limits p)))"
      using step by (auto split: if_splits)
    then show ?thesis by (intro exI [of _ r] exI [of _ "p_scratch p"]) simp
  qed
qed

lemma unpack_loop_ref:
  assumes "0 < p_scratch p" and "unpack_arena up" and "\<And>n. alloc n"
  shows "\<exists>n. unpack_loop up alloc p input max_slots =
    Some (unpack_finish (p_max_frame_bytes p) input (up input max_slots (p_limits p)), p\<lparr>p_scratch := n\<rparr>)"
  using assms(1)
proof (induction "max_slots - p_scratch p" arbitrary: p rule: less_induct)
  case less
  define slots where "slots = min (p_scratch p) max_slots"
  define n where "n = slots + min slots (max_slots - slots)"
  note step = unpack_loop.simps [of up alloc p input max_slots, unfolded Let_def,
      folded slots_def, folded n_def]
  show ?case
  proof (cases "rr_status (up input slots (p_limits p)) = RS_kNoMemory \<and> slots < max_slots")
    case True
    then have n: "p_scratch p < n" "n \<le> max_slots"
      using less.prems by (auto simp: n_def slots_def)
    then have "max_slots - p_scratch (p\<lparr>p_scratch := n\<rparr>) < max_slots - p_scratch p" by simp
    from less.hyps [OF this] n step True assms(3) show ?thesis by simp
  next
    case False
    then have "up input max_slots (p_limits p) = up input slots (p_limits p)"
      using unpack_arenaD(1) [OF assms(2), of input slots "p_limits p" max_slots]
      by (cases "slots = max_slots") (auto simp: slots_def)
    with False step show ?thesis by (intro exI [of _ "p_scratch p"]) auto
  qed
qed

section \<open>Properties of unpack\<close>

lemma unpack_total:
  "\<exists>r n. unpack up alloc p input = Some (r, p\<lparr>p_scratch := n\<rparr>) \<and> p_scratch p \<le> n \<and>
     n \<le> max (p_scratch p) (min (length input) (p_max_frame_bytes p) div 3 + 1) \<and>
     (r = bad_alloc_result \<or>
      (\<exists>k. r = unpack_finish (p_max_frame_bytes p) (take (p_max_frame_bytes p) input)
             (up (take (p_max_frame_bytes p) input) k (p_limits p))))"
proof -
  let ?i = "take (p_max_frame_bytes p) input"
  let ?k = "length ?i div 3 + 1"
  have k: "?k = min (length input) (p_max_frame_bytes p) div 3 + 1" by simp
  show ?thesis
  proof (cases "p_scratch p = 0")
    case False
    then show ?thesis
      using unpack_loop_total [of p up alloc ?i ?k] by (simp add: unpack_def Let_def k)
  next
    case True
    have stop: "p\<lparr>p_scratch := 0\<rparr> = p" using True by simp
    show ?thesis
    proof (cases "alloc (min 16 ?k)")
      case al: True
      from unpack_loop_total [of "p\<lparr>p_scratch := min 16 ?k\<rparr>" up alloc ?i ?k] obtain r n where
        "unpack_loop up alloc (p\<lparr>p_scratch := min 16 ?k\<rparr>) ?i ?k = Some (r, p\<lparr>p_scratch := n\<rparr>)"
        "n \<le> max (min 16 ?k) ?k"
        "r = bad_alloc_result \<or> (\<exists>k. r = unpack_finish (p_max_frame_bytes p) ?i (up ?i k (p_limits p)))"
        by auto
      with True al show ?thesis
        by (intro exI [of _ r] exI [of _ n]) (simp add: unpack_def Let_def k [symmetric])
    next
      case False
      with True stop show ?thesis
        by (intro exI [of _ bad_alloc_result] exI [of _ 0]) (simp add: unpack_def Let_def)
    qed
  qed
qed

text \<open>
  C23 \<^verbatim>\<open>unpack\<close> always returns, whatever the decoder answers and whichever allocations
  fail; it changes nothing of the parser but the arena, which never shrinks and never
  grows past one slot for every three bytes looked at (plus one): a declared element
  count alone costs no memory.
\<close>

theorem unpack_terminates_bounded:
  "\<exists>r n. unpack up alloc p input = Some (r, p\<lparr>p_scratch := n\<rparr>) \<and> p_scratch p \<le> n \<and>
     n \<le> max (p_scratch p) (min (length input) (p_max_frame_bytes p) div 3 + 1)"
  using unpack_total [of up alloc p input] by blast

lemma unpack_eq_ref:
  assumes "unpack_arena up" and "\<And>n. alloc n"
  shows "\<exists>n. unpack up alloc p input = Some (unpack_ref up p input, p\<lparr>p_scratch := n\<rparr>)"
proof (cases "p_scratch p = 0")
  case True
  let ?i = "take (p_max_frame_bytes p) input"
  let ?p = "p\<lparr>p_scratch := min 16 (length ?i div 3 + 1)\<rparr>"
  show ?thesis
    using unpack_loop_ref [of ?p up alloc ?i "length ?i div 3 + 1"] assms True
    by (simp add: unpack_def unpack_ref_def Let_def)
next
  case False
  then show ?thesis
    using unpack_loop_ref [of p up alloc] assms by (simp add: unpack_def unpack_ref_def Let_def)
qed

lemma unpack_finish_ok [simp]:
  "rr_status (unpack_finish f input r) = RS_kOk \<longleftrightarrow> rr_status r = RS_kOk"
  "rr_status r = RS_kOk \<Longrightarrow> unpack_finish f input r = r"
  by (auto simp: unpack_finish_def Let_def)

text \<open>
  C24 For a decoder that behaves as documented, and as long as allocations succeed, the
  retry loop computes what one call with the largest arena would: the answer does not
  depend on the arena left over from earlier calls, and an input that decodes with any
  number of slots is decoded.
\<close>

theorem unpack_is_reference:
  assumes "unpack_arena up" and "\<And>n. alloc n"
  shows "(\<exists>n. unpack up alloc p input = Some (unpack_ref up p input, p\<lparr>p_scratch := n\<rparr>)) \<and>
    (\<forall>k. rr_status (up (take (p_max_frame_bytes p) input) k (p_limits p)) = RS_kOk \<longrightarrow>
       unpack_ref up p input = up (take (p_max_frame_bytes p) input) k (p_limits p))"
proof (intro conjI allI impI)
  show "\<exists>n. unpack up alloc p input = Some (unpack_ref up p input, p\<lparr>p_scratch := n\<rparr>)"
    by (rule unpack_eq_ref [OF assms])
next
  fix k
  let ?i = "take (p_max_frame_bytes p) input"
  let ?s = "length ?i div 3 + 1"
  assume k: "rr_status (up ?i k (p_limits p)) = RS_kOk"
  note max = unpack_arenaD(2) [OF assms(1) k]
  have "up ?i ?s (p_limits p) = up ?i k (p_limits p)"
  proof (cases "k \<le> ?s")
    case True
    then show ?thesis using unpack_arenaD(1) [OF assms(1) _ True] k by simp
  next
    case False
    then show ?thesis using unpack_arenaD(1) [OF assms(1) max, of k] by simp
  qed
  with k show "unpack_ref up p input = up ?i k (p_limits p)"
    by (simp add: unpack_ref_def Let_def)
qed

theorem unpack_is_reference_witness:
  "\<exists>n. unpack ping_unpack (\<lambda>_. True) RespParser_new (ping_frame @ ''*'') =
     Some (\<lparr>rr_status = RS_kOk, rr_consumed = 14, rr_value = Some ping_value, rr_error = []\<rparr>,
           RespParser_new\<lparr>p_scratch := n\<rparr>)"
proof -
  have "p_max_frame_bytes RespParser_new = SIZE_MAX" by (simp add: RespParser_new_def parser_setLimits_def)
  moreover have "(15::nat) \<le> SIZE_MAX" by (simp add: SIZE_MAX_def)
  ultimately have "ping_unpack (take (p_max_frame_bytes RespParser_new) (ping_frame @ ''*'')) 2
      (p_limits RespParser_new) =
    \<lparr>rr_status = RS_kOk, rr_consumed = 14, rr_value = Some ping_value, rr_error = []\<rparr>"
    by (simp add: ping_unpack_def)
  moreover note r = unpack_is_reference [where alloc = "\<lambda>_. True", OF ping_unpack_ok(2) TrueI,
      of RespParser_new "ping_frame @ ''*''"]
  ultimately show ?thesis
    using conjunct1 [OF r] conjunct2 [OF r, THEN spec, of 2] by simp
qed

text \<open>
  C25 The frame limit: no frame longer than \<^verbatim>\<open>max_frame_bytes_\<close> is ever accepted, and
  more input is never asked for once that many bytes are there, so a peer cannot make
  the buffer grow past the limit by an endless frame.
\<close>

theorem unpack_frame_limit:
  assumes "unpack_bounds up" and "unpack up alloc p input = Some (r, p')"
  shows "(rr_status r = RS_kOk \<longrightarrow> 0 < rr_consumed r \<and> rr_consumed r \<le> length input \<and>
      rr_consumed r \<le> p_max_frame_bytes p) \<and>
    (rr_status r = RS_kNeedMore \<longrightarrow> length input < p_max_frame_bytes p)"
proof -
  let ?i = "take (p_max_frame_bytes p) input"
  consider "r = bad_alloc_result"
    | k where "r = unpack_finish (p_max_frame_bytes p) ?i (up ?i k (p_limits p))"
    using unpack_total [of up alloc p input] assms(2) by auto
  then show ?thesis
  proof cases
    case 1
    then show ?thesis by (simp add: bad_alloc_result_def)
  next
    case 2
    have "0 < rr_consumed r \<and> rr_consumed r \<le> length ?i" if "rr_status r = RS_kOk"
      using that 2 unpack_boundsD [OF assms(1), of ?i k "p_limits p"] by simp
    moreover have "length ?i < p_max_frame_bytes p" if "rr_status r = RS_kNeedMore"
      using that 2 by (auto simp: unpack_finish_def Let_def split: if_splits)
    ultimately show ?thesis by auto
  qed
qed

theorem unpack_frame_limit_witness:
  "\<exists>r p'. unpack ping_unpack (\<lambda>_. True) (RespParser_new\<lparr>p_max_frame_bytes := 14\<rparr>) ping_frame = Some (r, p') \<and>
     rr_status r = RS_kOk \<and> rr_consumed r \<le> 14"
proof -
  let ?p = "RespParser_new\<lparr>p_max_frame_bytes := 14\<rparr>"
  obtain n where u: "unpack ping_unpack (\<lambda>_. True) ?p ping_frame =
      Some (unpack_ref ping_unpack ?p ping_frame, ?p\<lparr>p_scratch := n\<rparr>)"
    using unpack_eq_ref [where alloc = "\<lambda>_. True", OF ping_unpack_ok(2) TrueI] by blast
  have "rr_status (unpack_ref ping_unpack ?p ping_frame) = RS_kOk"
    by (simp add: unpack_ref_def ping_unpack_def Let_def)
  with u unpack_frame_limit [OF ping_unpack_ok(1) u] show ?thesis by auto
qed

section \<open>Frames of a buffer\<close>

lemma unpack_result_ok:
  assumes "unpack_bounds up" and "unpack up alloc p input = Some (r, p')" and "rr_status r = RS_kOk"
  shows "0 < rr_consumed r" and "rr_consumed r \<le> length input" and "\<exists>v. rr_value r = Some v"
proof -
  let ?i = "take (p_max_frame_bytes p) input"
  obtain k where r: "r = unpack_finish (p_max_frame_bytes p) ?i (up ?i k (p_limits p))"
    using unpack_total [of up alloc p input] assms(2,3) by (auto simp: bad_alloc_result_def)
  note b = unpack_boundsD [OF assms(1), of ?i k "p_limits p"]
  from r assms(3) b show "0 < rr_consumed r" "rr_consumed r \<le> length input" "\<exists>v. rr_value r = Some v"
    by auto
qed

lemma frame_of_ok:
  assumes "frame_of r = (PS_kOk, out)"
  shows "rr_status r = RS_kOk \<and> (\<exists>info. out = Some info \<and> fi_consumed info = rr_consumed r \<and> 0 < fi_argc info)"
  using assms
  by (cases "rr_status r") (auto simp: frame_of_def extractCommandInfo_def split: option.splits if_splits)

lemma frame_of_not_ok: "frame_of r = (s, out) \<Longrightarrow> s \<noteq> PS_kOk \<Longrightarrow> out = None"
  by (auto simp: frame_of_def split: option.splits if_splits)

lemma peekFrame_spec:
  assumes "io_inv m q F" and "unpack_bounds up" and "offset \<le> length (contents m q)"
    and "unpack up alloc p (drop offset (contents m q)) = Some (r, p')"
  shows "\<exists>q'. peekFrame up alloc p m q offset = Some (fst (frame_of r), snd (frame_of r), p', q') \<and>
    io_inv m q' F \<and> contents m q' = contents m q"
proof -
  from io_inv_view [OF assms(1)] obtain q' where q': "io_readableView m q = Some (contents m q, q')"
    "io_inv m q' F" "contents m q' = contents m q" by blast
  have "rr_status r = RS_kOk \<Longrightarrow> \<exists>v. rr_value r = Some v"
    using unpack_result_ok(3) [OF assms(2,4)] .
  then have "peekFrame up alloc p m q offset = Some (fst (frame_of r), snd (frame_of r), p', q')"
    using q'(1) assms(3,4) io_inv_readable [OF assms(1)]
    by (auto simp: peekFrame_def frame_of_def split: option.splits)
  with q' show ?thesis by blast
qed

text \<open>
  C26 \<^verbatim>\<open>peekFrame\<close> on a well-formed buffer always returns and never changes what the
  buffer holds. It succeeds only with a frame that has a command name, takes at least
  one byte and lies inside the buffered bytes; otherwise nothing is stored. An offset
  past the end is an error.
\<close>

theorem peekFrame_sound:
  assumes "io_inv m q F" and "unpack_bounds up"
  shows "\<exists>st out p' q'. peekFrame up alloc p m q offset = Some (st, out, p', q') \<and>
    io_inv m q' F \<and> contents m q' = contents m q \<and>
    (st = PS_kOk \<longleftrightarrow> out \<noteq> None) \<and>
    (\<forall>info. out = Some info \<longrightarrow> 0 < fi_argc info \<and> 0 < fi_consumed info \<and>
       offset + fi_consumed info \<le> length (contents m q)) \<and>
    (length (contents m q) < offset \<longrightarrow> st = PS_kError)"
proof (cases "offset \<le> length (contents m q)")
  case True
  obtain r n where u: "unpack up alloc p (drop offset (contents m q)) = Some (r, p\<lparr>p_scratch := n\<rparr>)"
    using unpack_total [of up alloc p "drop offset (contents m q)"] by blast
  from peekFrame_spec [OF assms True u] obtain q' where
    q': "peekFrame up alloc p m q offset = Some (fst (frame_of r), snd (frame_of r), p\<lparr>p_scratch := n\<rparr>, q')"
    "io_inv m q' F" "contents m q' = contents m q"
    by blast
  obtain st out where fr: "frame_of r = (st, out)" by fastforce
  have "st = PS_kOk \<longleftrightarrow> out \<noteq> None"
    using fr frame_of_ok [of r out] frame_of_not_ok [of r st out] by auto
  moreover have "0 < fi_argc info \<and> 0 < fi_consumed info \<and> offset + fi_consumed info \<le> length (contents m q)"
    if "out = Some info" for info
  proof -
    from that fr calculation frame_of_ok [of r out] have "rr_status r = RS_kOk"
      "fi_consumed info = rr_consumed r" "0 < fi_argc info" by auto
    with unpack_result_ok(1,2) [OF assms(2) u] True show ?thesis by simp
  qed
  ultimately show ?thesis using q' fr True by auto
next
  case False
  with assms(1) io_inv_readable [OF assms(1)] show ?thesis by (auto simp: peekFrame_def)
qed

lemma unpack_ping:
  assumes "14 \<le> p_max_frame_bytes p"
  shows "\<exists>n. unpack ping_unpack (\<lambda>_. True) p (ping_frame @ post) =
    Some (\<lparr>rr_status = RS_kOk, rr_consumed = 14, rr_value = Some ping_value, rr_error = []\<rparr>,
          p\<lparr>p_scratch := n\<rparr>)"
proof -
  let ?i = "ping_frame @ post"
  obtain n where u: "unpack ping_unpack (\<lambda>_. True) p ?i =
      Some (unpack_ref ping_unpack p ?i, p\<lparr>p_scratch := n\<rparr>)"
    using unpack_eq_ref [where alloc = "\<lambda>_. True", OF ping_unpack_ok(2) TrueI] by blast
  have "take 14 (take (p_max_frame_bytes p) ?i) = ping_frame"
    using assms by (simp add: min_def)
  moreover from ping_take_length [OF this]
  have "2 \<le> length (take (p_max_frame_bytes p) ?i) div 3 + 1" by linarith
  ultimately show ?thesis using u by (intro exI [of _ n]) (simp add: unpack_ref_def ping_unpack_def Let_def)
qed

lemma RespParser_new_limit: "14 \<le> p_max_frame_bytes RespParser_new"
  by (simp add: RespParser_new_def parser_setLimits_def SIZE_MAX_def)

lemma peek_ping:
  assumes "io_inv m q F" and "contents m q = pre @ ping_frame @ post" and "14 \<le> p_max_frame_bytes p"
  shows "\<exists>p' q'. peekFrame ping_unpack (\<lambda>_. True) p m q (length pre) =
    Some (PS_kOk, Some \<lparr>fi_consumed = 14, fi_command_name = ''PING'', fi_argc = 1\<rparr>, p', q')"
proof -
  let ?r = "\<lparr>rr_status = RS_kOk, rr_consumed = 14, rr_value = Some ping_value, rr_error = []\<rparr>"
  from unpack_ping [OF assms(3)] obtain n where
    u: "unpack ping_unpack (\<lambda>_. True) p (ping_frame @ post) = Some (?r, p\<lparr>p_scratch := n\<rparr>)"
    by blast
  have "frame_of ?r = (PS_kOk, Some \<lparr>fi_consumed = 14, fi_command_name = ''PING'', fi_argc = 1\<rparr>)"
    by (simp add: frame_of_def extractCommandInfo_def ping_value_def)
  with peekFrame_spec [OF assms(1) ping_unpack_ok(1), of "length pre" "\<lambda>_. True" p ?r] assms(2) u
  show ?thesis by auto
qed

theorem peekFrame_sound_witness:
  "\<exists>m q st out p' q'. io_append (BlockPool_new 8 (\<lambda>_ _. CHR 0x00)) IoBuffer_new ping_frame = Some (m, q) \<and>
     peekFrame ping_unpack (\<lambda>_. True) RespParser_new m q 0 = Some (st, out, p', q') \<and>
     (\<exists>info. out = Some info \<and> 0 < fi_consumed info \<and> fi_consumed info \<le> 14) \<and>
     contents m q' = ping_frame"
proof -
  obtain m q where b: "io_append (BlockPool_new 8 (\<lambda>_ _. CHR 0x00)) IoBuffer_new ping_frame = Some (m, q)"
    "io_inv m q {#}" "contents m q = ping_frame"
    using example_buffer by blast
  show ?thesis
    using b peek_ping [OF b(2), of "[]" "[]", OF _ RespParser_new_limit]
      peekFrame_sound [OF b(2) ping_unpack_ok(1), of "\<lambda>_. True" RespParser_new 0]
    by fastforce
qed

text \<open>
  Pipelining: looking at the frame behind the first \<open>n\<close> bytes gives what looking at
  the front gives once those bytes are consumed, so the commands of a batch are seen
  exactly as if they came one by one.
\<close>

lemma peekFrame_offset_is_consume:
  assumes "io_inv m q F" and "unpack_bounds up" and "n \<le> length (contents m q)"
  shows "\<exists>m1 q1 st out p' q' q1'. io_consume n m q = Some (m1, q1) \<and>
    peekFrame up alloc p m q n = Some (st, out, p', q') \<and>
    peekFrame up alloc p m1 q1 0 = Some (st, out, p', q1')"
proof -
  from io_inv_consume [OF assms(1), of n] obtain m1 q1 where c: "io_consume n m q = Some (m1, q1)"
    "io_inv m1 q1 F" "contents m1 q1 = drop n (contents m q)" by blast
  obtain r p' where u: "unpack up alloc p (drop n (contents m q)) = Some (r, p')"
    using unpack_total by blast
  from peekFrame_spec [OF assms u] peekFrame_spec [OF c(2) assms(2), of 0 alloc p] c u
  show ?thesis by fastforce
qed

lemma nextReplyFrame_spec:
  assumes "io_inv m q (chain_refs out + F)" and "unpack_bounds up"
  shows "\<exists>st n out' p' m' q' r. nextReplyFrame up alloc p m q out = Some (st, n, out', p', m', q') \<and>
    unpack up alloc p (contents m q) = Some (r, p') \<and> io_inv m' q' (chain_refs out' + F) \<and>
    (if rr_status r = RS_kOk
     then st = PS_kOk \<and> n = Some (rr_consumed r) \<and> chain_ok m' out' \<and>
       chain_toString m' out' = Some (take (rr_consumed r) (contents m q)) \<and>
       contents m' q' = drop (rr_consumed r) (contents m q) \<and> (\<forall>x. x \<in># F \<longrightarrow> grown m m' x)
     else st = convert (rr_status r) \<and> st \<noteq> PS_kOk \<and> n = None \<and> m' = m \<and> out' = out \<and>
       contents m' q' = contents m q)"
proof -
  from io_inv_view [OF assms(1)] obtain q1 where q1: "io_readableView m q = Some (contents m q, q1)"
    "io_inv m q1 (chain_refs out + F)" "contents m q1 = contents m q" by blast
  obtain r p' where u: "unpack up alloc p (contents m q) = Some (r, p')"
    using unpack_total by blast
  show ?thesis
  proof (cases "rr_status r = RS_kOk")
    case False
    then have "convert (rr_status r) \<noteq> PS_kOk" by (cases "rr_status r") simp_all
    with False q1 u show ?thesis by (simp add: nextReplyFrame_def)
  next
    case True
    note k = unpack_result_ok [OF assms(2) u True]
    from io_inv_slicePrefix [OF q1(2), of "rr_consumed r"] k(2) q1(3) obtain c m2 q2 where
      s: "io_slicePrefix (rr_consumed r) m q1 = Some (c, m2, q2)"
      "io_inv m2 q2 (chain_refs c + (chain_refs out + F))" "chain_ok m2 c"
      "chain_toString m2 c = Some (take (rr_consumed r) (contents m q))"
      "contents m2 q2 = drop (rr_consumed r) (contents m q)"
      "\<And>x. x \<in># chain_refs out + F \<Longrightarrow> grown m m2 x"
      by auto
    then have "io_inv m2 q2 (chain_refs out + (chain_refs c + F))" by (simp add: ac_simps)
    from io_inv_drop_chain [OF this] obtain m3 where d: "chain_destroy out m2 = Some m3"
      "io_inv m3 q2 (chain_refs c + F)" "contents m3 q2 = contents m2 q2"
      "\<And>x. x \<in># chain_refs c + F \<Longrightarrow> unchanged m2 m3 x" by blast
    have c: "chain_ok m3 c" "chain_toString m3 c = chain_toString m2 c"
      using chain_grown [OF s(3), of m3] d(4) unchanged_grown by auto
    have "grown m m3 x" if "x \<in># F" for x
      using that s(6) d(4) unchanged_grown grown_trans by (metis union_iff)
    moreover have "nextReplyFrame up alloc p m q out = Some (PS_kOk, Some (rr_consumed r), c, p', m3, q2)"
      using q1(1) u True s(1) d(1)
      by (simp add: nextReplyFrame_def chain_move_assign_def chain_destroy_def)
    ultimately show ?thesis using u True s(4,5) d(2,3) c by simp
  qed
qed

lemma unpack_ok_answer:
  assumes "unpack up alloc p input = Some (r, p')" and "rr_status r = RS_kOk"
  shows "\<exists>slots. r = up (take (p_max_frame_bytes p) input) slots (p_limits p)"
proof -
  let ?i = "take (p_max_frame_bytes p) input"
  obtain k where r: "r = unpack_finish (p_max_frame_bytes p) ?i (up ?i k (p_limits p))"
    using unpack_total [of up alloc p input] assms by (auto simp: bad_alloc_result_def)
  with assms(2) have "r = up ?i k (p_limits p)" by (auto simp: unpack_finish_def Let_def split: if_splits)
  then show ?thesis by blast
qed

text \<open>
  C22 \<^verbatim>\<open>nextReplyFrame\<close> returns what \<^verbatim>\<open>unpack\<close> says of the buffered bytes. When that is a
  complete reply, which is an answer of the decoder, exactly the bytes the decoder
  consumed leave the buffer and are in the chain, byte for byte, by reference to the same
  blocks; the chain's old references are released, no other owner's bytes change, and
  every counter is still exact. Otherwise the status is passed on, and buffer, chain and
  heap are left alone.
\<close>

theorem nextReplyFrame_exact:
  assumes "io_inv m q (chain_refs out + F)" and "unpack_bounds up"
  shows "\<exists>st n out' p' m' q' r. nextReplyFrame up alloc p m q out = Some (st, n, out', p', m', q') \<and>
    unpack up alloc p (contents m q) = Some (r, p') \<and> io_inv m' q' (chain_refs out' + F) \<and>
    (if rr_status r = RS_kOk
     then st = PS_kOk \<and> n = Some (rr_consumed r) \<and> 0 < rr_consumed r \<and> rr_consumed r \<le> length (contents m q) \<and>
       (\<exists>slots. r = up (take (p_max_frame_bytes p) (contents m q)) slots (p_limits p)) \<and> chain_ok m' out' \<and>
       chain_toString m' out' = Some (take (rr_consumed r) (contents m q)) \<and>
       contents m' q' = drop (rr_consumed r) (contents m q) \<and> (\<forall>x. x \<in># F \<longrightarrow> grown m m' x)
     else st = convert (rr_status r) \<and> st \<noteq> PS_kOk \<and> n = None \<and> m' = m \<and> out' = out \<and>
       contents m' q' = contents m q)"
proof -
  from nextReplyFrame_spec [OF assms, of alloc p] obtain st n out' p' m' q' r where
    r: "nextReplyFrame up alloc p m q out = Some (st, n, out', p', m', q')"
      "unpack up alloc p (contents m q) = Some (r, p')" "io_inv m' q' (chain_refs out' + F)"
      "if rr_status r = RS_kOk
       then st = PS_kOk \<and> n = Some (rr_consumed r) \<and> chain_ok m' out' \<and>
         chain_toString m' out' = Some (take (rr_consumed r) (contents m q)) \<and>
         contents m' q' = drop (rr_consumed r) (contents m q) \<and> (\<forall>x. x \<in># F \<longrightarrow> grown m m' x)
       else st = convert (rr_status r) \<and> st \<noteq> PS_kOk \<and> n = None \<and> m' = m \<and> out' = out \<and>
         contents m' q' = contents m q"
    by blast
  show ?thesis
  proof (cases "rr_status r = RS_kOk")
    case True
    with unpack_result_ok [OF assms(2) r(2) True] unpack_ok_answer [OF r(2) True] r show ?thesis by simp
  next
    case False
    with r show ?thesis by auto
  qed
qed

theorem nextReplyFrame_exact_witness:
  "\<exists>m q out' p' m' q'.
     io_append (BlockPool_new 8 (\<lambda>_ _. CHR 0x00)) IoBuffer_new (ping_frame @ ''*'') = Some (m, q) \<and>
     nextReplyFrame ping_unpack (\<lambda>_. True) RespParser_new m q chain_empty =
       Some (PS_kOk, Some 14, out', p', m', q') \<and>
     chain_toString m' out' = Some ping_frame \<and> contents m' q' = ''*''"
proof -
  obtain m q where
    b: "io_append (BlockPool_new 8 (\<lambda>_ _. CHR 0x00)) IoBuffer_new (ping_frame @ ''*'') = Some (m, q)"
    "io_inv m q {#}" "contents m q = ping_frame @ ''*''"
    using example_buffer by blast
  then have inv: "io_inv m q (chain_refs chain_empty + {#})" by (simp add: chain_refs_def chain_empty_def)
  obtain p1 where u: "unpack ping_unpack (\<lambda>_. True) RespParser_new (ping_frame @ ''*'') =
      Some (\<lparr>rr_status = RS_kOk, rr_consumed = 14, rr_value = Some ping_value, rr_error = []\<rparr>, p1)"
    using unpack_ping [OF RespParser_new_limit, of "''*''"] by blast
  from nextReplyFrame_exact [OF inv ping_unpack_ok(1), of "\<lambda>_. True" RespParser_new] b(3) u
  have "\<exists>out' p' m' q'. nextReplyFrame ping_unpack (\<lambda>_. True) RespParser_new m q chain_empty =
      Some (PS_kOk, Some 14, out', p', m', q') \<and> chain_toString m' out' = Some ping_frame \<and> contents m' q' = ''*''"
    by auto
  with b(1) show ?thesis by blast
qed

section \<open>The parser on plain bytes\<close>

text \<open>
  The same operations with the buffer given by the bytes it holds and a chain by the
  bytes it reads as: what the components above the buffers see. The theorem below
  justifies it.
\<close>

definition peek_bytes ::
  "unpacker \<Rightarrow> (nat \<Rightarrow> bool) \<Rightarrow> resp_parser \<Rightarrow> bytes \<Rightarrow> nat \<Rightarrow>
     (ParseStatus \<times> frame_info option \<times> resp_parser) option" where
  "peek_bytes up alloc p inp offset =
     (if length inp < offset then Some (PS_kError, None, p)
      else do {
        (r, p1) \<leftarrow> unpack up alloc p (drop offset inp);
        Some (fst (frame_of r), snd (frame_of r), p1)
      })"

definition next_reply_bytes ::
  "unpacker \<Rightarrow> (nat \<Rightarrow> bool) \<Rightarrow> resp_parser \<Rightarrow> bytes \<Rightarrow>
     (ParseStatus \<times> bytes \<times> resp_parser \<times> bytes) option" where
  "next_reply_bytes up alloc p inp = do {
     (r, p1) \<leftarrow> unpack up alloc p inp;
     if rr_status r \<noteq> RS_kOk then Some (convert (rr_status r), [], p1, inp)
     else Some (PS_kOk, take (rr_consumed r) inp, p1, drop (rr_consumed r) inp)
   }"

lemma peek_bytes_ok:
  assumes "unpack_bounds up" and "peek_bytes up alloc p inp offset = Some (st, out, p')"
  shows "st = PS_kOk \<longleftrightarrow> out \<noteq> None"
    and "out = Some info \<Longrightarrow> 0 < fi_consumed info \<and> offset + fi_consumed info \<le> length inp"
proof -
  consider "st = PS_kError" "out = None"
    | r where "unpack up alloc p (drop offset inp) = Some (r, p')" "frame_of r = (st, out)"
        "offset \<le> length inp"
    using assms(2) by (auto simp: peek_bytes_def bind_Some_iff split: if_splits prod.splits)
  then have "(st = PS_kOk \<longleftrightarrow> out \<noteq> None) \<and>
      (\<forall>info. out = Some info \<longrightarrow> 0 < fi_consumed info \<and> offset + fi_consumed info \<le> length inp)"
  proof cases
    case 2
    have iff: "st = PS_kOk \<longleftrightarrow> out \<noteq> None"
      using 2(2) frame_of_ok [of r out] frame_of_not_ok [of r st out] by auto
    have "0 < fi_consumed info \<and> offset + fi_consumed info \<le> length inp" if "out = Some info" for info
      using that iff 2 frame_of_ok [of r out] unpack_result_ok(1,2) [OF assms(1) 2(1)] by auto
    with iff show ?thesis by blast
  qed simp
  then show "st = PS_kOk \<longleftrightarrow> out \<noteq> None"
    and "out = Some info \<Longrightarrow> 0 < fi_consumed info \<and> offset + fi_consumed info \<le> length inp"
    by simp_all
qed

text \<open>
  C13 The parser over shared, reference-counted blocks refines the parser over plain
  bytes: both answer the same status, frame and parser state, what is left in the buffer
  is what is left of the bytes, and a reply chain reads as the reply's bytes.
\<close>

theorem parser_refines_bytes:
  assumes "io_inv m q (chain_refs out + F)" and "unpack_bounds up"
  shows "(\<exists>st fr p' q'. peekFrame up alloc p m q offset = Some (st, fr, p', q') \<and>
      peek_bytes up alloc p (contents m q) offset = Some (st, fr, p') \<and>
      io_inv m q' (chain_refs out + F) \<and> contents m q' = contents m q) \<and>
    (\<exists>st n out' p' m' q' reply. nextReplyFrame up alloc p m q out = Some (st, n, out', p', m', q') \<and>
      next_reply_bytes up alloc p (contents m q) = Some (st, reply, p', contents m' q') \<and>
      io_inv m' q' (chain_refs out' + F) \<and>
      (st = PS_kOk \<longrightarrow> chain_ok m' out' \<and> chain_toString m' out' = Some reply))"
proof
  show "\<exists>st fr p' q'. peekFrame up alloc p m q offset = Some (st, fr, p', q') \<and>
      peek_bytes up alloc p (contents m q) offset = Some (st, fr, p') \<and>
      io_inv m q' (chain_refs out + F) \<and> contents m q' = contents m q"
  proof (cases "offset \<le> length (contents m q)")
    case True
    obtain r p' where u: "unpack up alloc p (drop offset (contents m q)) = Some (r, p')"
      using unpack_total by blast
    from peekFrame_spec [OF assms True u] True u show ?thesis by (auto simp: peek_bytes_def)
  next
    case False
    with assms(1) io_inv_readable [OF assms(1)] show ?thesis by (simp add: peekFrame_def peek_bytes_def)
  qed
next
  from nextReplyFrame_spec [OF assms, of alloc p] obtain st n out' p' m' q' r where
    r: "nextReplyFrame up alloc p m q out = Some (st, n, out', p', m', q')"
      "unpack up alloc p (contents m q) = Some (r, p')" "io_inv m' q' (chain_refs out' + F)"
      "if rr_status r = RS_kOk
       then st = PS_kOk \<and> chain_ok m' out' \<and>
         chain_toString m' out' = Some (take (rr_consumed r) (contents m q)) \<and>
         contents m' q' = drop (rr_consumed r) (contents m q)
       else st = convert (rr_status r) \<and> st \<noteq> PS_kOk \<and> contents m' q' = contents m q"
    by (auto split: if_splits)
  then show "\<exists>st n out' p' m' q' reply. nextReplyFrame up alloc p m q out = Some (st, n, out', p', m', q') \<and>
      next_reply_bytes up alloc p (contents m q) = Some (st, reply, p', contents m' q') \<and>
      io_inv m' q' (chain_refs out' + F) \<and>
      (st = PS_kOk \<longrightarrow> chain_ok m' out' \<and> chain_toString m' out' = Some reply)"
    by (cases "rr_status r = RS_kOk") (auto simp: next_reply_bytes_def)
qed

theorem parser_refines_bytes_witness:
  "\<exists>m q st n out' p' m' q'.
     io_append (BlockPool_new 8 (\<lambda>_ _. CHR 0x00)) IoBuffer_new (ping_frame @ ''*'') = Some (m, q) \<and>
     nextReplyFrame ping_unpack (\<lambda>_. True) RespParser_new m q chain_empty = Some (st, n, out', p', m', q') \<and>
     next_reply_bytes ping_unpack (\<lambda>_. True) RespParser_new (ping_frame @ ''*'') =
       Some (PS_kOk, ping_frame, p', ''*'') \<and> st = PS_kOk"
proof -
  obtain m q where
    b: "io_append (BlockPool_new 8 (\<lambda>_ _. CHR 0x00)) IoBuffer_new (ping_frame @ ''*'') = Some (m, q)"
    "io_inv m q {#}" "contents m q = ping_frame @ ''*''"
    using example_buffer by blast
  then have inv: "io_inv m q (chain_refs chain_empty + {#})" by (simp add: chain_refs_def chain_empty_def)
  from unpack_ping [OF RespParser_new_limit, of "''*''"] obtain n where
    "next_reply_bytes ping_unpack (\<lambda>_. True) RespParser_new (ping_frame @ ''*'') =
      Some (PS_kOk, ping_frame, RespParser_new\<lparr>p_scratch := n\<rparr>, ''*'')"
    by (auto simp: next_reply_bytes_def)
  with b parser_refines_bytes [OF inv ping_unpack_ok(1), of "\<lambda>_. True" RespParser_new 0]
  show ?thesis by fastforce
qed

end
