(* ===== verification/Buffer_Pipe.thy ===== *)
theory Buffer_Pipe
  imports Io_Buffer
begin

text \<open>
  The life of the bytes that pass through a connection, as a state machine over one
  block pool: bytes are received into an \<^verbatim>\<open>IoBuffer\<close>, looked at, cut off as
  chains, chains are joined, sent and released, in any order and number. What was
  received and what was sent are kept beside the state; no operation reads them.
\<close>

record pipe =
  pp_mem :: mem
  pp_buf :: iobuf
  pp_live :: "chain list"
  pp_in :: bytes
  pp_out :: bytes

definition pipe_init :: "pipe \<Rightarrow> bool" where
  "pipe_init s \<longleftrightarrow>
     (\<exists>sz junk. 0 < sz \<and> sz + 2 < 2 ^ 32 \<and>
        s = \<lparr>pp_mem = BlockPool_new sz junk, pp_buf = IoBuffer_new, pp_live = [], pp_in = [], pp_out = []\<rparr>)"

inductive pipe_step :: "pipe \<Rightarrow> pipe \<Rightarrow> bool" where
  pipe_receive:
    "io_append (pp_mem s) (pp_buf s) d = Some (m, q) \<Longrightarrow>
     pipe_step s (s\<lparr>pp_mem := m, pp_buf := q, pp_in := pp_in s @ d\<rparr>)"
| pipe_look:
    "io_readableView (pp_mem s) (pp_buf s) = Some (v, q) \<Longrightarrow>
     pipe_step s (s\<lparr>pp_buf := q\<rparr>)"
| pipe_cut:
    "n \<le> io_readable (pp_buf s) \<Longrightarrow>
     io_slicePrefix n (pp_mem s) (pp_buf s) = Some (c, m, q) \<Longrightarrow>
     pipe_step s (s\<lparr>pp_mem := m, pp_buf := q, pp_live := pp_live s @ [c]\<rparr>)"
| pipe_join:
    "pp_live s = xs @ c # d # ys \<Longrightarrow> chain_appendChain c d = (c', d') \<Longrightarrow>
     pipe_step s (s\<lparr>pp_live := xs @ c' # ys\<rparr>)"
| pipe_send:
    "pp_live s = c # cs \<Longrightarrow> chain_toString (pp_mem s) c = Some x \<Longrightarrow>
     chain_destroy c (pp_mem s) = Some m \<Longrightarrow>
     pipe_step s (s\<lparr>pp_mem := m, pp_live := cs, pp_out := pp_out s @ x\<rparr>)"

definition chains_refs :: "chain list \<Rightarrow> addr multiset" where
  "chains_refs cs = sum_list (map chain_refs cs)"

definition chains_bytes :: "mem \<Rightarrow> chain list \<Rightarrow> bytes" where
  "chains_bytes m cs = concat (map (\<lambda>c. the (chain_toString m c)) cs)"

definition pipe_inv :: "pipe \<Rightarrow> bool" where
  "pipe_inv s \<longleftrightarrow>
     io_inv (pp_mem s) (pp_buf s) (chains_refs (pp_live s)) \<and>
     list_all (chain_ok (pp_mem s)) (pp_live s) \<and>
     pp_out s @ chains_bytes (pp_mem s) (pp_live s) @ contents (pp_mem s) (pp_buf s) = pp_in s"

lemma chains_simps [simp]:
  "chains_refs [] = {#}" "chains_refs (c # cs) = chain_refs c + chains_refs cs"
  "chains_refs (cs @ ds) = chains_refs cs + chains_refs ds"
  "chains_bytes m [] = []" "chains_bytes m (c # cs) = the (chain_toString m c) @ chains_bytes m cs"
  "chains_bytes m (cs @ ds) = chains_bytes m cs @ chains_bytes m ds"
  by (simp_all add: chains_refs_def chains_bytes_def)

lemma chains_grown:
  assumes "list_all (chain_ok m) cs" and "\<forall>x. x \<in># chains_refs cs \<longrightarrow> grown m m' x"
  shows "list_all (chain_ok m') cs \<and> chains_bytes m' cs = chains_bytes m cs"
  using assms
proof (induction cs)
  case (Cons c cs)
  then have "chain_ok m' c" "chain_toString m' c = chain_toString m c"
    using chain_grown [of m c m'] by simp_all
  with Cons show ?case by simp
qed simp

lemma pipe_inv_init: "pipe_init s \<Longrightarrow> pipe_inv s"
  by (auto simp: pipe_init_def pipe_inv_def io_inv_new)

lemma pipe_inv_join:
  assumes "list_all (chain_ok m) (xs @ c # d # ys)" and "chain_appendChain c d = (c', d')"
  shows "list_all (chain_ok m) (xs @ c' # ys) \<and>
    chains_refs (xs @ c' # ys) = chains_refs (xs @ c # d # ys) \<and>
    chains_bytes m (xs @ c' # ys) = chains_bytes m (xs @ c # d # ys)"
proof -
  have ok: "chain_ok m c" "chain_ok m d" using assms(1) by simp_all
  note a = appendChain_spec [OF ok assms(2)]
  from chain_toString_ok [OF ok(1)] chain_toString_ok [OF ok(2)] a(5)
  have "the (chain_toString m c') = the (chain_toString m c) @ the (chain_toString m d)" by auto
  with a(1,4) assms(1) show ?thesis by (simp add: ac_simps)
qed

lemma pipe_invI:
  assumes "io_inv m q (chains_refs cs)" and "list_all (chain_ok m) cs"
    and "inp = out @ chains_bytes m cs @ contents m q"
  shows "pipe_inv \<lparr>pp_mem = m, pp_buf = q, pp_live = cs, pp_in = inp, pp_out = out\<rparr>"
  using assms by (simp add: pipe_inv_def)

lemma pipe_inv_step:
  assumes "pipe_inv s" and "pipe_step s t"
  shows "pipe_inv t"
proof -
  obtain m q cs inp out where s: "s = \<lparr>pp_mem = m, pp_buf = q, pp_live = cs, pp_in = inp, pp_out = out\<rparr>"
    by (cases s) simp
  have inv: "io_inv m q (chains_refs cs)" and ok: "list_all (chain_ok m) cs"
    and inp: "inp = out @ chains_bytes m cs @ contents m q"
    using assms(1) by (simp_all add: s pipe_inv_def)
  from assms(2) show ?thesis
  proof cases
    case (pipe_receive d m' q')
    with io_inv_append [OF inv, of d] have "io_inv m' q' (chains_refs cs)"
      "contents m' q' = contents m q @ d" "\<forall>x. x \<in># chains_refs cs \<longrightarrow> grown m m' x"
      by (auto simp: s)
    with chains_grown [OF ok, of m'] show ?thesis by (simp add: s pipe_receive(1) inp pipe_invI)
  next
    case (pipe_look v q')
    with io_inv_view [OF inv] have "io_inv m q' (chains_refs cs)" "contents m q' = contents m q"
      by (auto simp: s)
    with ok show ?thesis by (simp add: s pipe_look(1) inp pipe_invI)
  next
    case (pipe_cut n c m' q')
    with io_inv_slicePrefix [OF inv, of n] io_inv_readable [OF inv]
    have "io_inv m' q' (chain_refs c + chains_refs cs)" "chain_ok m' c"
      "chain_toString m' c = Some (take n (contents m q))" "contents m' q' = drop n (contents m q)"
      "\<forall>x. x \<in># chains_refs cs \<longrightarrow> grown m m' x"
      by (auto simp: s)
    with chains_grown [OF ok, of m'] show ?thesis
      by (simp add: s pipe_cut(1) inp pipe_invI add.commute)
  next
    case (pipe_join xs c d ys c' d')
    with pipe_inv_join [of m xs c d ys c' d'] inv ok show ?thesis
      by (simp add: s inp pipe_invI del: chains_simps)
  next
    case (pipe_send c cs' x m')
    with io_inv_drop_chain [of m q c "chains_refs cs'"] inv
    have "io_inv m' q (chains_refs cs')" "contents m' q = contents m q"
      "\<forall>x. x \<in># chains_refs cs' \<longrightarrow> grown m m' x"
      by (auto simp: s unchanged_grown)
    with chains_grown [of m cs' m'] ok pipe_send show ?thesis by (simp add: s inp pipe_invI)
  qed
qed

interpretation pipe: invariant_system pipe_init pipe_step pipe_inv
  by unfold_locales (auto intro: pipe_inv_init pipe_inv_step)

text \<open>
  C32 Conservation of bytes: at every moment the bytes sent, then those of the live
  chains in order, then those of the buffer, are the bytes received; nothing is lost,
  duplicated or reordered by the sharing of blocks.
\<close>

theorem pipe_conserves_bytes:
  assumes "reach pipe_init pipe_step s"
  shows "pp_out s @ chains_bytes (pp_mem s) (pp_live s) @ contents (pp_mem s) (pp_buf s) = pp_in s"
  using pipe.reach_inv [OF assms] by (simp add: pipe_inv_def)

definition pipe_example :: pipe where
  "pipe_example =
     \<lparr>pp_mem = BlockPool_new 4 (\<lambda>_ _. CHR 0x00), pp_buf = IoBuffer_new, pp_live = [], pp_in = [], pp_out = []\<rparr>"

lemma pipe_example_init: "pipe_init pipe_example"
  unfolding pipe_init_def pipe_example_def
  by (rule exI [of _ 4], rule exI [of _ "\<lambda>_ _. CHR 0x00"]) simp

lemma pipe_example_reach:
  "\<exists>s. reach pipe_init pipe_step s \<and> pp_in s = ''PINGPONG'' \<and> pp_live s = []"
proof -
  have r: "reach pipe_init pipe_step pipe_example" using pipe_example_init by (rule reach.reach_init)
  obtain m q where a: "io_append (pp_mem pipe_example) (pp_buf pipe_example) ''PINGPONG'' = Some (m, q)"
    using io_inv_append [OF io_inv_new [of 4 "\<lambda>_ _. CHR 0x00"], of "''PINGPONG''"]
    by (auto simp: pipe_example_def)
  have "reach pipe_init pipe_step
      (pipe_example\<lparr>pp_mem := m, pp_buf := q, pp_in := pp_in pipe_example @ ''PINGPONG''\<rparr>)"
    using r pipe_step.pipe_receive [OF a] by (rule reach.reach_step)
  moreover have "pp_in pipe_example = []" "pp_live pipe_example = []" by (simp_all add: pipe_example_def)
  ultimately show ?thesis by fastforce
qed

theorem pipe_conserves_bytes_witness:
  "\<exists>s. reach pipe_init pipe_step s \<and>
     pp_out s @ chains_bytes (pp_mem s) (pp_live s) @ contents (pp_mem s) (pp_buf s) = ''PINGPONG''"
proof -
  obtain s where "reach pipe_init pipe_step s" "pp_in s = ''PINGPONG''" using pipe_example_reach by blast
  with pipe_conserves_bytes [of s] show ?thesis by auto
qed

text \<open>
  The references the buffer and the live chains hold, one for each block of the buffer and
  one for each slice.
\<close>

definition pipe_refs :: "pipe \<Rightarrow> addr multiset" where
  "pipe_refs s = io_refs (pp_buf s) + chains_refs (pp_live s)"

text \<open>
  C33 No access to memory that is not owned, and no leak. In every reachable state any data
  can be appended, the buffer viewed, consumed from and cleared, any prefix cut off, and
  every live chain read and destroyed, without an access to a block that is not in use.
  The blocks in use are exactly those that the buffer or a live chain refers to, each with
  the number of these references as its counter; every other block ever made is on the
  free list, once. Once the chains are gone and the buffer is cleared, no block is in use.
\<close>

theorem pipe_safe_and_leak_free:
  assumes "reach pipe_init pipe_step s"
  shows "io_append (pp_mem s) (pp_buf s) d \<noteq> None \<and> io_readableView (pp_mem s) (pp_buf s) \<noteq> None \<and>
    io_consume n (pp_mem s) (pp_buf s) \<noteq> None \<and>
    (n \<le> io_readable (pp_buf s) \<longrightarrow> io_slicePrefix n (pp_mem s) (pp_buf s) \<noteq> None) \<and>
    (\<forall>c \<in> set (pp_live s). chain_toString (pp_mem s) c \<noteq> None \<and> chain_destroy c (pp_mem s) \<noteq> None) \<and>
    dom (m_heap (pp_mem s)) = set_mset (pipe_refs s) \<and>
    (\<forall>a b. m_heap (pp_mem s) a = Some b \<longrightarrow> unat (b_refcount b) = count (pipe_refs s) a) \<and>
    distinct (map fst (m_free (pp_mem s))) \<and>
    fst ` set (m_free (pp_mem s)) = {..<m_next (pp_mem s)} - set_mset (pipe_refs s) \<and>
    (\<exists>m. io_clear (pp_mem s) (pp_buf s) = Some (m, IoBuffer_new) \<and>
       (pp_live s = [] \<longrightarrow> m_heap m = Map.empty \<and> distinct (map fst (m_free m)) \<and>
          fst ` set (m_free m) = {..<m_next m}))"
proof -
  let ?R = "chains_refs (pp_live s)" and ?m = "pp_mem s"
  have inv: "io_inv ?m (pp_buf s) ?R" "list_all (chain_ok ?m) (pp_live s)"
    using pipe.reach_inv [OF assms] by (simp_all add: pipe_inv_def)
  have live: "\<forall>c \<in> set (pp_live s). chain_toString ?m c \<noteq> None \<and> chain_destroy c ?m \<noteq> None"
  proof
    fix c assume c: "c \<in> set (pp_live s)"
    then obtain xs ys where "pp_live s = xs @ c # ys" by (blast dest: split_list)
    then have "io_inv ?m (pp_buf s) (chain_refs c + chains_refs (xs @ ys))" using inv(1) by (simp add: ac_simps)
    from io_inv_drop_chain [OF this] chain_toString_ok [of ?m c] c inv(2)
    show "chain_toString ?m c \<noteq> None \<and> chain_destroy c ?m \<noteq> None" by (auto simp: list_all_iff)
  qed
  have "heap_ok ?m (pipe_refs s)" using inv(1) by (simp add: io_inv_def pipe_refs_def)
  note heap = heap_ok_blocks [OF this]
  obtain m where m: "io_clear ?m (pp_buf s) = Some (m, IoBuffer_new)" "heap_ok m ?R"
    using io_inv_clear [OF inv(1)] by (auto simp: io_inv_def io_refs_def IoBuffer_new_def)
  then have clear: "\<exists>m. io_clear ?m (pp_buf s) = Some (m, IoBuffer_new) \<and>
      (pp_live s = [] \<longrightarrow> m_heap m = Map.empty \<and> distinct (map fst (m_free m)) \<and> fst ` set (m_free m) = {..<m_next m})"
    using heap_ok_blocks(3,4) [OF m(2)] heap_ok_blocks(1) [OF m(2)] by (cases "pp_live s") auto
  have ops: "io_append ?m (pp_buf s) d \<noteq> None" "io_readableView ?m (pp_buf s) \<noteq> None" "io_consume n ?m (pp_buf s) \<noteq> None"
    using io_inv_append [OF inv(1), of d] io_inv_view [OF inv(1)] io_inv_consume [OF inv(1), of n] by auto
  have cut: "n \<le> io_readable (pp_buf s) \<longrightarrow> io_slicePrefix n ?m (pp_buf s) \<noteq> None"
    using io_inv_slicePrefix [OF inv(1), of n] io_inv_readable [OF inv(1)] by auto
  show ?thesis by (intro conjI ops cut live heap clear)
qed

theorem pipe_safe_and_leak_free_witness:
  "\<exists>s m. reach pipe_init pipe_step s \<and> pp_in s = ''PINGPONG'' \<and>
     io_clear (pp_mem s) (pp_buf s) = Some (m, IoBuffer_new) \<and> m_heap m = Map.empty \<and>
     distinct (map fst (m_free m)) \<and> fst ` set (m_free m) = {..<m_next m}"
proof -
  obtain s where s: "reach pipe_init pipe_step s" "pp_in s = ''PINGPONG''" "pp_live s = []"
    using pipe_example_reach by blast
  have "\<exists>m. io_clear (pp_mem s) (pp_buf s) = Some (m, IoBuffer_new) \<and> m_heap m = Map.empty \<and>
      distinct (map fst (m_free m)) \<and> fst ` set (m_free m) = {..<m_next m}"
    using pipe_safe_and_leak_free [OF s(1), of "[]" 0] s(3) by simp
  with s(1,2) show ?thesis by blast
qed

text \<open>
  \<^verbatim>\<open>MakeBufferChain\<close> puts a byte string of any length on the heap and gives it
  back: the chain reads as that string, and no other owner's blocks change.
\<close>

lemma MakeBufferChain_roundtrip:
  assumes "io_inv m q F"
  shows "\<exists>c m'. MakeBufferChain data m = Some (c, m') \<and> chain_toString m' c = Some data \<and>
    c_total c = length data \<and> io_inv m' q (chain_refs c + F) \<and> contents m' q = contents m q \<and>
    (\<forall>x. x \<in># F \<longrightarrow> unchanged m m' x)"
proof -
  have "heap_ok m (io_refs q + F)" "refs_tight m (io_refs q + F)" "0 < m_block_size m"
    "m_block_size m + 2 < 2 ^ 32"
    using assms by (simp_all add: io_inv_def)
  from MakeBufferChain_spec [OF this, of data] obtain c m' where
    c: "MakeBufferChain data m = Some (c, m')" "heap_ok m' (chain_refs c + (io_refs q + F))"
      "refs_tight m' (chain_refs c + (io_refs q + F))" "chain_ok m' c" "chain_toString m' c = Some data"
      "m_block_size m' = m_block_size m"
    and fr: "\<And>x. x \<in># io_refs q + F \<Longrightarrow> unchanged m m' x"
    by blast
  have "iobuf_ok m' q" "contents m' q = contents m q"
    using iobuf_ok_unchanged [of m q m'] fr assms by (simp_all add: io_inv_def io_refs_def)
  moreover have "c_total c = length data"
    using c(4,5) slices_string_length [of m' "c_slices c" data] by (simp add: chain_ok_def chain_toString_def)
  ultimately have "io_inv m' q (chain_refs c + F)" "contents m' q = contents m q" "c_total c = length data"
    using c assms by (simp_all add: io_inv_def ac_simps)
  moreover have "\<forall>x. x \<in># F \<longrightarrow> unchanged m m' x" using fr by simp
  ultimately show ?thesis using c(1,5) by blast
qed

end
