(* ===== verification/Co_Socket.thy ===== *)
theory Co_Socket
  imports Io_Buffer Proxy_Status
begin

text \<open>
  \<^verbatim>\<open>CoSocket\<close> of \<^verbatim>\<open>src/co_socket.cpp\<close>. The operating system is a parameter: the
  system calls a socket makes on its descriptor are recorded in \<open>cs_calls\<close>, and the
  answers of \<^verbatim>\<open>read\<close>, \<^verbatim>\<open>writev\<close> and \<^verbatim>\<open>co_poll\<close> are a script, one entry per
  round of the loop; a script that ends leaves the call suspended. \<open>strerror\<close> is the
  library function.
\<close>

section \<open>The descriptor\<close>

datatype syscall = Sys_close int | Sys_shutdown_rdwr int | Sys_shutdown_rd int

record co_socket =
  cs_fd :: int
  cs_calls :: "syscall list"

definition CoSocket_new :: "int \<Rightarrow> co_socket" where
  "CoSocket_new fd = \<lparr>cs_fd = fd, cs_calls = []\<rparr>"

definition sock_release :: "co_socket \<Rightarrow> int \<times> co_socket" where
  "sock_release s = (cs_fd s, s\<lparr>cs_fd := -1\<rparr>)"

definition sock_close :: "co_socket \<Rightarrow> co_socket" where
  "sock_close s =
     (if 0 \<le> cs_fd s then s\<lparr>cs_calls := cs_calls s @ [Sys_close (cs_fd s)], cs_fd := -1\<rparr> else s)"

definition sock_reset :: "int \<Rightarrow> co_socket \<Rightarrow> co_socket" where
  "sock_reset fd s = (sock_close s)\<lparr>cs_fd := fd\<rparr>"

definition sock_shutdown :: "co_socket \<Rightarrow> co_socket" where
  "sock_shutdown s =
     (if 0 \<le> cs_fd s then s\<lparr>cs_calls := cs_calls s @ [Sys_shutdown_rdwr (cs_fd s)]\<rparr> else s)"

definition sock_shutdownRead :: "co_socket \<Rightarrow> co_socket" where
  "sock_shutdownRead s =
     (if 0 \<le> cs_fd s then s\<lparr>cs_calls := cs_calls s @ [Sys_shutdown_rd (cs_fd s)]\<rparr> else s)"

text \<open>The move constructor and the move assignment from another socket.\<close>

definition sock_move :: "co_socket \<Rightarrow> co_socket \<times> co_socket" where
  "sock_move other = (let (fd, o1) = sock_release other in (CoSocket_new fd, o1))"

definition sock_move_assign :: "co_socket \<Rightarrow> co_socket \<Rightarrow> co_socket \<times> co_socket" where
  "sock_move_assign this other =
     (let t1 = sock_close this; (fd, o1) = sock_release other in (t1\<lparr>cs_fd := fd\<rparr>, o1))"

section \<open>connectTo\<close>

text \<open>
  The answers: whether the endpoint has an address, \<^verbatim>\<open>connect\<close>'s result and
  \<^verbatim>\<open>errno\<close>, whether that \<^verbatim>\<open>errno\<close> is \<^verbatim>\<open>EINPROGRESS\<close> or \<^verbatim>\<open>EAGAIN\<close>, the poll's
  result, and \<^verbatim>\<open>getsockopt\<close>'s result with the socket error.
\<close>

record connect_answers =
  ca_addr_ok :: bool
  ca_connect :: int
  ca_errno :: int
  ca_in_progress :: bool
  ca_poll :: int
  ca_getsockopt :: int
  ca_so_error :: int

definition connectTo :: "(int \<Rightarrow> string) \<Rightarrow> connect_answers \<Rightarrow> status" where
  "connectTo strerror a =
     (if \<not> ca_addr_ok a then Status_InvalidArgument ''invalid endpoint''
      else if ca_connect a = 0 then Status_Ok
      else if \<not> ca_in_progress a then Status_IoError (strerror (ca_errno a))
      else if ca_poll a \<le> 0 then Status_IoError ''connect timeout''
      else if ca_getsockopt a \<noteq> 0 \<or> ca_so_error a \<noteq> 0 then Status_IoError ''connect failed''
      else Status_Ok)"

section \<open>readSome\<close>

text \<open>
  A round's answer: the bytes that are there, of which \<^verbatim>\<open>read\<close> stores at most as many
  as it was asked for (none at the end of the stream), \<^verbatim>\<open>EAGAIN\<close> followed by the result
  of the poll, or another \<^verbatim>\<open>errno\<close>.
\<close>

datatype read_answer = Read_bytes bytes | Read_again int | Read_error int

fun readSome ::
  "(int \<Rightarrow> string) \<Rightarrow> read_answer list \<Rightarrow> mem \<Rightarrow> iobuf \<Rightarrow> (status option \<times> mem \<times> iobuf) option" where
  "readSome strerror [] m q = Some (None, m, q)"
| "readSome strerror (r # rs) m q = (case io_reserveWritable m q of
     None \<Rightarrow> None
   | Some (m1, q1, dst, writable) \<Rightarrow>
       (case r of
          Read_bytes d \<Rightarrow> do {
            let n = length (take writable d);
            m2 \<leftarrow> block_write (fst dst) (snd dst) (take writable d) m1;
            if 0 < n
            then do {
              (m3, q3) \<leftarrow> io_commitWrite n m2 q1;
              Some (Some Status_Ok, m3, q3)
            }
            else Some (Some (Status_Closed ''peer closed''), m2, q1)
          }
        | Read_again poll \<Rightarrow>
            if poll \<le> 0 then Some (Some (Status_IoError ''read timeout''), m1, q1)
            else readSome strerror rs m1 q1
        | Read_error e \<Rightarrow> Some (Some (Status_IoError (strerror e)), m1, q1)))"

section \<open>writeAll\<close>

text \<open>
  A round's answer: room for \<open>n\<close> bytes, of which \<^verbatim>\<open>writev\<close> takes at most what it was
  given (it returns 0 when there is none), \<^verbatim>\<open>EAGAIN\<close> with the result of the poll,
  or another \<^verbatim>\<open>errno\<close>.
\<close>

datatype write_answer = Write_room nat | Write_again int | Write_error int

definition iov_bytes :: "mem \<Rightarrow> slice \<Rightarrow> nat \<Rightarrow> bytes option" where
  "iov_bytes m s slice_offset = do {
     a \<leftarrow> s_block s;
     b \<leftarrow> m_heap m a;
     read_bytes (s_offset s + slice_offset) (s_length s - slice_offset) (b_data b)
   }"

text \<open>The gather loop over the slices from \<open>index\<close> on; only the first has an offset.\<close>

fun gather :: "mem \<Rightarrow> slice list \<Rightarrow> nat \<Rightarrow> nat \<Rightarrow> bytes list option" where
  "gather m [] slice_offset iovcnt = Some []"
| "gather m (s # ss) slice_offset iovcnt =
     (if iovcnt < 64
      then if s_length s \<le> slice_offset then gather m ss 0 iovcnt
           else do {
             x \<leftarrow> iov_bytes m s slice_offset;
             xs \<leftarrow> gather m ss 0 (iovcnt + 1);
             Some (x # xs)
           }
      else Some [])"

function advance :: "slice list \<Rightarrow> nat \<Rightarrow> nat \<Rightarrow> nat \<Rightarrow> nat \<times> nat" where
  "advance slices index offset written =
     (if 0 < written \<and> index < length slices
      then let available = size_sub (s_length (slices ! index)) offset
           in if written < available then (index, offset + written)
              else advance slices (index + 1) 0 (written - available)
      else (index, offset))"
  by pat_completeness auto
termination by (relation "measure (\<lambda>(slices, index, _, _). length slices - index)") auto

declare advance.simps [simp del]

text \<open>Beside the status, the bytes the system took.\<close>

fun writeAll_loop ::
  "(int \<Rightarrow> string) \<Rightarrow> mem \<Rightarrow> slice list \<Rightarrow> write_answer list \<Rightarrow> nat \<Rightarrow> nat \<Rightarrow> bytes \<Rightarrow>
     (status option \<times> bytes) option" where
  "writeAll_loop strerror m slices ws index offset sent =
     (if index < length slices
      then (case gather m (drop index slices) offset 0 of
              None \<Rightarrow> None
            | Some iov \<Rightarrow>
                if iov = [] then Some (Some Status_Ok, sent)
                else (case ws of
                        [] \<Rightarrow> Some (None, sent)
                      | Write_room room # ws' \<Rightarrow>
                          let n = min room (length (concat iov))
                          in if 0 < n
                             then let (i, off) = advance slices index offset n
                                  in writeAll_loop strerror m slices ws' i off (sent @ take n (concat iov))
                             else Some (Some (Status_IoError ''zero write''), sent)
                      | Write_again poll # ws' \<Rightarrow>
                          if poll \<le> 0 then Some (Some (Status_IoError ''write timeout''), sent)
                          else writeAll_loop strerror m slices ws' index offset sent
                      | Write_error e # ws' \<Rightarrow> Some (Some (Status_IoError (strerror e)), sent)))
      else Some (Some Status_Ok, sent))"

declare writeAll_loop.simps [simp del]

definition writeAll ::
  "(int \<Rightarrow> string) \<Rightarrow> mem \<Rightarrow> chain \<Rightarrow> write_answer list \<Rightarrow> (status option \<times> bytes) option" where
  "writeAll strerror m c ws = writeAll_loop strerror m (c_slices c) ws 0 0 []"

section \<open>What writeAll sends\<close>

text \<open>The bytes of a list of well-formed slices, from a position in it.\<close>

definition slices_bytes :: "mem \<Rightarrow> slice list \<Rightarrow> bytes" where
  "slices_bytes m ss = the (slices_string m ss)"

lemma slices_bytes_simps [simp]:
  "slices_bytes m [] = []"
  "slice_ok m s \<Longrightarrow> list_all (slice_ok m) ss \<Longrightarrow>
     slices_bytes m (s # ss) = the (slice_bytes m s) @ slices_bytes m ss"
  using slices_string_ok [of m ss] slices_string_ok [of m "[s]"]
  by (auto simp: slices_bytes_def bind_Some_iff)

lemma slice_bytes_ok:
  "slice_ok m s \<Longrightarrow> length (the (slice_bytes m s)) = s_length s"
  by (auto simp: slice_ok_def slice_bytes_def read_bytes_def)

lemma iov_bytes_ok:
  "slice_ok m s \<Longrightarrow> so \<le> s_length s \<Longrightarrow> iov_bytes m s so = Some (drop so (the (slice_bytes m s)))"
  by (auto simp: slice_ok_def slice_bytes_def iov_bytes_def read_bytes_def drop_take)
    (simp add: add.commute)

lemma length_slices_bytes:
  "list_all (slice_ok m) ss \<Longrightarrow> length (slices_bytes m ss) = sum_list (map s_length ss)"
  by (induction ss) (simp_all add: slice_bytes_ok)

definition at_slice :: "slice list \<Rightarrow> nat \<Rightarrow> bool" where
  "at_slice ss offset \<longleftrightarrow> (case ss of [] \<Rightarrow> offset = 0 | s # _ \<Rightarrow> offset \<le> s_length s)"

lemma gather_spec:
  assumes "list_all (slice_ok m) ss" and "at_slice ss so"
  shows "\<exists>iov k. gather m ss so cnt = Some iov \<and> concat iov = take k (drop so (slices_bytes m ss)) \<and>
    k \<le> length (slices_bytes m ss) - so \<and> (iov = [] \<longrightarrow> cnt < 64 \<longrightarrow> drop so (slices_bytes m ss) = []) \<and>
    (iov \<noteq> [] \<longrightarrow> 0 < k)"
  using assms
proof (induction ss arbitrary: so cnt)
  case Nil
  then show ?case by (auto simp: at_slice_def)
next
  case (Cons s ss)
  have s: "slice_ok m s" "list_all (slice_ok m) ss" "so \<le> s_length s"
    using Cons.prems by (simp_all add: at_slice_def)
  have at0: "at_slice ss 0" by (simp add: at_slice_def split: list.split)
  let ?x = "the (slice_bytes m s)"
  have x: "length ?x = s_length s" using slice_bytes_ok [OF s(1)] .
  show ?case
  proof (cases "cnt < 64")
    case False
    then show ?thesis by (intro exI [of _ "[]"] exI [of _ 0]) simp
  next
    case True
    show ?thesis
    proof (cases "s_length s \<le> so")
      case full: True
      then have "drop so (slices_bytes m (s # ss)) = slices_bytes m ss" using s x by simp
      moreover have "length (slices_bytes m (s # ss)) - so = length (slices_bytes m ss)" using s x full by simp
      ultimately show ?thesis using Cons.IH [OF s(2) at0, of cnt] True full by (simp add: s)
    next
      case part: False
      from Cons.IH [OF s(2) at0, of "cnt + 1"] obtain iov k where
        g: "gather m ss 0 (cnt + 1) = Some iov" "concat iov = take k (slices_bytes m ss)"
        "k \<le> length (slices_bytes m ss)" by auto
      have "gather m (s # ss) so cnt = Some (drop so ?x # iov)"
        using True part g(1) iov_bytes_ok [OF s(1,3)] by simp
      moreover have "concat (drop so ?x # iov) =
          take (s_length s - so + k) (drop so (slices_bytes m (s # ss)))"
        using g(2) s x by simp
      ultimately show ?thesis using g(3) part x s
        by (intro exI [of _ "drop so ?x # iov"] exI [of _ "s_length s - so + k"]) simp
    qed
  qed
qed

text \<open>The position \<open>(index, offset)\<close> as a number of bytes.\<close>

definition chain_pos :: "slice list \<Rightarrow> nat \<Rightarrow> nat \<Rightarrow> nat" where
  "chain_pos slices index offset = sum_list (map s_length (take index slices)) + offset"

lemma chain_pos_drop:
  assumes "list_all (slice_ok m) slices"
  shows "drop (chain_pos slices index offset) (slices_bytes m slices) =
    drop offset (slices_bytes m (drop index slices))"
proof -
  have "slices_bytes m slices = slices_bytes m (take index slices) @ slices_bytes m (drop index slices)"
    using assms
  proof (induction slices arbitrary: index)
    case (Cons s ss)
    moreover have "list_all (slice_ok m) (take k ss)" for k
      using Cons.prems by (auto simp: list_all_iff dest: in_set_takeD)
    ultimately show ?case by (cases index) simp_all
  qed simp
  moreover have "list_all (slice_ok m) (take index slices)"
    using assms by (auto simp: list_all_iff dest: in_set_takeD)
  ultimately show ?thesis by (simp add: chain_pos_def length_slices_bytes)
qed

lemma advance_spec:
  assumes "at_slice (drop index slices) offset"
    and "chain_pos slices index offset + n \<le> sum_list (map s_length slices)"
    and "advance slices index offset n = (i, off)"
  shows "chain_pos slices i off = chain_pos slices index offset + n \<and> at_slice (drop i slices) off"
  using assms
proof (induction slices index offset n rule: advance.induct)
  case (1 slices index offset n)
  show ?case
  proof (cases "0 < n \<and> index < length slices")
    case False
    moreover have "n = 0" if "\<not> index < length slices"
      using that 1(2,3) by (simp add: at_slice_def chain_pos_def)
    ultimately show ?thesis using 1(2,4) by (auto simp: advance.simps)
  next
    case True
    then have d: "drop index slices = slices ! index # drop (Suc index) slices" by (simp add: Cons_nth_drop_Suc)
    then have le: "offset \<le> s_length (slices ! index)" using 1(2) by (simp add: at_slice_def)
    have tk: "take (Suc index) slices = take index slices @ [slices ! index]"
      using True by (simp add: take_Suc_conv_app_nth)
    show ?thesis
    proof (cases "n < s_length (slices ! index) - offset")
      case inside: True
      with True le 1(4) have "i = index" "off = offset + n" by (simp_all add: advance.simps)
      with inside d show ?thesis by (simp add: chain_pos_def at_slice_def)
    next
      case over: False
      let ?av = "s_length (slices ! index) - offset"
      have pos: "chain_pos slices (Suc index) 0 + (n - ?av) = chain_pos slices index offset + n"
        using over le tk by (simp add: chain_pos_def)
      have "advance slices (Suc index) 0 (n - ?av) = (i, off)"
        using 1(4) True le over by (simp add: advance.simps [of slices index])
      moreover have "at_slice (drop (Suc index) slices) 0" by (simp add: at_slice_def split: list.split)
      ultimately show ?thesis
        using 1(1) [OF True refl] over le pos 1(3) by simp
    qed
  qed
qed

lemma gather_at:
  assumes "list_all (slice_ok m) slices" and "at_slice (drop index slices) offset"
    and "p = chain_pos slices index offset"
  shows "\<exists>iov k. gather m (drop index slices) offset 0 = Some iov \<and>
    concat iov = take k (drop p (slices_bytes m slices)) \<and> k \<le> length (drop p (slices_bytes m slices)) \<and>
    (iov = [] \<longrightarrow> drop p (slices_bytes m slices) = []) \<and> (iov \<noteq> [] \<longrightarrow> 0 < k) \<and>
    (\<not> index < length slices \<longrightarrow> drop p (slices_bytes m slices) = [])"
proof -
  have "list_all (slice_ok m) (drop index slices)"
    using assms(1) by (auto simp: list_all_iff dest: in_set_dropD)
  from gather_spec [OF this assms(2), of 0] chain_pos_drop [OF assms(1), of index offset] assms(3)
  show ?thesis by auto
qed

text \<open>A round in which the system takes \<open>n\<close> bytes moves the position by \<open>n\<close>.\<close>

lemma write_round:
  assumes "list_all (slice_ok m) slices" and "at_slice (drop index slices) offset"
    and "p = chain_pos slices index offset" and "p + n \<le> length (slices_bytes m slices)"
    and "x = take k (drop p (slices_bytes m slices))" and "n \<le> k"
    and "advance slices index offset n = (i, off)"
  shows "chain_pos slices i off = p + n" and "at_slice (drop i slices) off"
    and "take p (slices_bytes m slices) @ take n x = take (chain_pos slices i off) (slices_bytes m slices)"
proof -
  from advance_spec [OF assms(2) _ assms(7)] assms(3,4) length_slices_bytes [OF assms(1)]
  show a: "chain_pos slices i off = p + n" "at_slice (drop i slices) off" by simp_all
  show "take p (slices_bytes m slices) @ take n x = take (chain_pos slices i off) (slices_bytes m slices)"
    using assms(5,6) by (simp add: a(1) take_add min_def)
qed

definition all_room :: "write_answer list \<Rightarrow> bool" where
  "all_room ws \<longleftrightarrow> list_all (\<lambda>w. case w of Write_room n \<Rightarrow> 0 < n | _ \<Rightarrow> False) ws"

text \<open>
  From position \<open>p\<close> of the bytes on, with the answers \<open>ws\<close> left: a prefix was sent, all of
  them when the result is \<^verbatim>\<open>Ok\<close>, and it is when the answers suffice.
\<close>

definition write_outcome :: "bytes \<Rightarrow> write_answer list \<Rightarrow> nat \<Rightarrow> (status option \<times> bytes) option \<Rightarrow> bool" where
  "write_outcome bs ws p r \<longleftrightarrow>
     (\<exists>st k. r = Some (st, take k bs) \<and> (st = Some Status_Ok \<longrightarrow> length bs \<le> k) \<and>
        (length bs - p \<le> length ws \<longrightarrow> all_room ws \<longrightarrow> st = Some Status_Ok))"

lemma write_outcome_fails:
  "st \<noteq> Some Status_Ok \<Longrightarrow> \<not> (length bs - p \<le> length ws \<and> all_room ws) \<Longrightarrow> write_outcome bs ws p (Some (st, take p bs))"
  unfolding write_outcome_def by blast

lemma write_outcome_done: "length bs \<le> p \<Longrightarrow> write_outcome bs ws p (Some (Some Status_Ok, bs))"
  unfolding write_outcome_def by (intro exI [of _ "Some Status_Ok"] exI [of _ p]) simp

lemma write_outcome_later:
  assumes "write_outcome bs ws p' r" and "all_room (w # ws) \<Longrightarrow> p < p'"
  shows "write_outcome bs (w # ws) p r"
proof -
  have "all_room (w # ws) \<Longrightarrow> all_room ws" by (simp add: all_room_def)
  moreover have "length bs - p \<le> length (w # ws) \<Longrightarrow> all_room (w # ws) \<Longrightarrow> length bs - p' \<le> length ws"
    using assms(2) by fastforce
  ultimately show ?thesis using assms(1) unfolding write_outcome_def by blast
qed

lemma writeAll_loop_spec:
  assumes "list_all (slice_ok m) slices" and "at_slice (drop index slices) offset"
    and "p = chain_pos slices index offset" and "p \<le> length (slices_bytes m slices)"
  shows "write_outcome (slices_bytes m slices) ws p
    (writeAll_loop strerror m slices ws index offset (take p (slices_bytes m slices)))"
  using assms
proof (induction ws arbitrary: index offset p)
  case Nil
  let ?all = "slices_bytes m slices"
  from gather_at [OF Nil(1-3)] obtain iov k where
    g: "gather m (drop index slices) offset 0 = Some iov" "iov = [] \<longrightarrow> drop p ?all = []"
      "iov \<noteq> [] \<longrightarrow> 0 < k" "k \<le> length (drop p ?all)" "\<not> index < length slices \<longrightarrow> drop p ?all = []"
    by blast
  then show ?case
    by (auto simp: writeAll_loop.simps intro!: write_outcome_done write_outcome_fails)
next
  case (Cons w ws)
  let ?all = "slices_bytes m slices"
  from gather_at [OF Cons(2-4)] obtain iov k where
    g: "gather m (drop index slices) offset 0 = Some iov" "concat iov = take k (drop p ?all)"
      "k \<le> length (drop p ?all)" "iov = [] \<longrightarrow> drop p ?all = []" "iov \<noteq> [] \<longrightarrow> 0 < k"
      "\<not> index < length slices \<longrightarrow> drop p ?all = []"
    by blast
  note loop = writeAll_loop.simps [of strerror m slices "v # ws" index offset for v]
  consider (over) "\<not> (index < length slices \<and> iov \<noteq> [])"
    | (again) r where "index < length slices" "iov \<noteq> []" "w = Write_again r" "0 < r"
    | (room) room where "index < length slices" "iov \<noteq> []" "w = Write_room room" "0 < min room k"
    | (fails) "index < length slices" "iov \<noteq> []" "\<not> all_room (w # ws)"
        "\<forall>r. w = Write_again r \<longrightarrow> r \<le> 0" "\<forall>room. w = Write_room room \<longrightarrow> room = 0"
    using g(5) by (cases w) (force simp: all_room_def)+
  then show ?case
  proof cases
    case over
    with g(1,4,6) show ?thesis by (auto simp: loop intro!: write_outcome_done)
  next
    case again
    then have "\<not> all_room (w # ws)" by (simp add: all_room_def)
    with write_outcome_later [OF Cons.IH [OF Cons(2-5)], of w p]
    have "write_outcome ?all (w # ws) p (writeAll_loop strerror m slices ws index offset (take p ?all))" by blast
    with again g(1) show ?thesis by (simp add: loop)
  next
    case room
    define n where "n = min room k"
    obtain i off where adv: "advance slices index offset n = (i, off)" by fastforce
    have n: "n \<le> k" "p + n \<le> length ?all" "0 < n" using g(3) Cons(5) room(4) by (simp_all add: n_def)
    note r = write_round [OF Cons(2-4) n(2) g(2) n(1) adv]
    have "length (concat iov) = k" using g(2,3) by simp
    then have "writeAll_loop strerror m slices (w # ws) index offset (take p ?all) =
        writeAll_loop strerror m slices ws i off (take (chain_pos slices i off) ?all)"
      using room g(1) adv n(3) by (simp add: loop n_def Let_def flip: r(3))
    with write_outcome_later [OF Cons.IH [OF Cons(2) r(2) refl]] r(1) n(2,3) show ?thesis by simp
  next
    case fails
    with g(1) show ?thesis
      by (cases w) (auto simp: loop Let_def Status_IoError_def Status_Ok_def intro!: write_outcome_fails)
  qed
qed

text \<open>
  C35 \<^verbatim>\<open>writeAll\<close> hands the system exactly the chain's bytes, in order, however it
  splits them, through gather lists of at most 64 entries: what was taken is always a
  prefix of the chain, \<^verbatim>\<open>Ok\<close> means all of it was, and it does return \<^verbatim>\<open>Ok\<close> when the
  system takes something in each of as many rounds as the chain has bytes.
\<close>

theorem writeAll_exact:
  assumes "chain_ok m c" and "chain_toString m c = Some x"
  shows "\<exists>st k. writeAll strerror m c ws = Some (st, take k x) \<and>
    (st = Some Status_Ok \<longrightarrow> take k x = x) \<and>
    (length x \<le> length ws \<longrightarrow> all_room ws \<longrightarrow> st = Some Status_Ok)"
proof -
  have ok: "list_all (slice_ok m) (c_slices c)" using assms(1) by (simp add: chain_ok_def)
  have x: "slices_bytes m (c_slices c) = x" using assms(2) by (simp add: slices_bytes_def chain_toString_def)
  have "at_slice (drop 0 (c_slices c)) 0" by (simp add: at_slice_def split: list.split)
  from writeAll_loop_spec [OF ok this refl, of ws strerror] show ?thesis
    by (auto simp: x writeAll_def chain_pos_def write_outcome_def)
qed

theorem writeAll_exact_witness:
  "\<exists>c m. MakeBufferChain ''+PONG'' (BlockPool_new 4 (\<lambda>_ _. CHR 0x00)) = Some (c, m) \<and>
     writeAll (\<lambda>_. []) m c [Write_room 3, Write_room 1, Write_room 9, Write_room 1, Write_room 1] =
       Some (Some Status_Ok, ''+PONG'')"
proof -
  from MakeBufferChain_spec [of "BlockPool_new 4 (\<lambda>_ _. CHR 0x00)" "{#}" "''+PONG''"]
    io_inv_new [of 4 "\<lambda>_ _. CHR 0x00"] obtain c m where
    c: "MakeBufferChain ''+PONG'' (BlockPool_new 4 (\<lambda>_ _. CHR 0x00)) = Some (c, m)" "chain_ok m c"
      "chain_toString m c = Some ''+PONG''"
    by (auto simp: io_inv_def)
  from writeAll_exact [OF c(2,3), of "\<lambda>_. []"
      "[Write_room 3, Write_room 1, Write_room 9, Write_room 1, Write_room 1]"] c(1)
  show ?thesis by (auto simp: all_room_def)
qed

section \<open>What readSome stores\<close>

text \<open>
  What the answers of the system mean for a call that offers room for \<open>room\<close> bytes: the
  status, and the bytes the deciding \<^verbatim>\<open>read\<close> returned.
\<close>

fun read_result :: "(int \<Rightarrow> string) \<Rightarrow> nat \<Rightarrow> read_answer list \<Rightarrow> status option \<times> bytes" where
  "read_result strerror room [] = (None, [])"
| "read_result strerror room (Read_bytes d # rs) =
     (Some (if d = [] then Status_Closed ''peer closed'' else Status_Ok), take room d)"
| "read_result strerror room (Read_again poll # rs) =
     (if poll \<le> 0 then (Some (Status_IoError ''read timeout''), []) else read_result strerror room rs)"
| "read_result strerror room (Read_error e # rs) = (Some (Status_IoError (strerror e)), [])"

lemma read_result_ok:
  "0 < room \<Longrightarrow> fst (read_result strerror room rs) = Some Status_Ok \<longleftrightarrow> snd (read_result strerror room rs) \<noteq> []"
  by (induction strerror room rs rule: read_result.induct) (auto simp: Status_Ok_def Status_Closed_def Status_IoError_def)

text \<open>Reserving again where there is room changes nothing.\<close>

lemma reserve_again:
  assumes "io_blocks q \<noteq> []" and "m_heap m (last (io_blocks q)) = Some b" and "0 < block_writableBytes b"
  shows "io_reserveWritable m q = Some (m, q, (last (io_blocks q), b_end b), block_writableBytes b)"
  using assms by (simp add: io_reserveWritable_def back_full_def)

text \<open>A buffer whose last block has room: the state in which every \<^verbatim>\<open>read\<close> is made.\<close>

definition reserved :: "mem \<Rightarrow> iobuf \<Rightarrow> addr multiset \<Rightarrow> block \<Rightarrow> bool" where
  "reserved m q F b \<longleftrightarrow>
     io_inv m q F \<and> io_blocks q \<noteq> [] \<and> m_heap m (last (io_blocks q)) = Some b \<and> 0 < block_writableBytes b"

text \<open>What the call leaves, \<open>d\<close> being what it appended.\<close>

definition read_outcome :: "mem \<Rightarrow> iobuf \<Rightarrow> addr multiset \<Rightarrow> bytes \<Rightarrow> mem \<Rightarrow> iobuf \<Rightarrow> bool" where
  "read_outcome m q F d m' q' \<longleftrightarrow>
     io_inv m' q' F \<and> contents m' q' = contents m q @ d \<and> (\<forall>x. x \<in># F \<longrightarrow> grown m m' x)"

lemma inv_grown_refl: "io_inv m q F \<Longrightarrow> x \<in># F \<Longrightarrow> grown m m x"
  using heap_okD(3) [of m "io_refs q + F" x] by (auto simp: io_inv_def intro!: grown_refl)

lemma read_outcome_nothing: "io_inv m q F \<Longrightarrow> read_outcome m q F [] m q"
  using inv_grown_refl by (simp add: read_outcome_def)

lemma readSome_reserved:
  assumes "reserved m q F b"
  shows "\<exists>m' q'. readSome strerror rs m q = Some (fst (read_result strerror (block_writableBytes b) rs), m', q') \<and>
    read_outcome m q F (snd (read_result strerror (block_writableBytes b) rs)) m' q'"
proof -
  have inv: "io_inv m q F" "io_blocks q \<noteq> []" "m_heap m (last (io_blocks q)) = Some b" "0 < block_writableBytes b"
    using assms by (simp_all add: reserved_def)
  note r = reserve_again [OF inv(2-4)]
  show ?thesis
  proof (induction rs)
    case Nil
    with read_outcome_nothing [OF inv(1)] show ?case by simp
  next
    case (Cons a rs)
    show ?case
    proof (cases a)
      case (Read_bytes y)
      let ?d = "take (block_writableBytes b) y"
      from io_inv_write_commit [OF inv(1,2) refl inv(3), of ?d] obtain m2 m3 q3 where
        w: "block_write (last (io_blocks q)) (b_end b) ?d m = Some m2" "io_commitWrite (length ?d) m2 q = Some (m3, q3)"
          "read_outcome m q F ?d m3 q3"
        by (auto simp: read_outcome_def)
      show ?thesis
      proof (cases "y = []")
        case True
        then have "m2 = m" using w(1) inv(3) by (auto simp: block_write_def write_bytes_def map_upd_triv split: if_splits)
        with True Read_bytes r w(1) read_outcome_nothing [OF inv(1)] show ?thesis by simp
      qed (use Read_bytes r w inv(4) in simp)
    qed (use Cons.IH r read_outcome_nothing [OF inv(1)] in simp_all)
  qed
qed

text \<open>
  C36 \<^verbatim>\<open>readSome\<close> appends to the buffer exactly what \<^verbatim>\<open>read\<close> returned: it offers the room
  that \<^verbatim>\<open>reserveWritable\<close> gives, which is never none, and what the first answer that is
  not a wait stores there, all of it, is appended and reported as \<^verbatim>\<open>Ok\<close>. The end of the
  stream, a timeout, an error and a suspension are reported as such and append nothing.
  No byte of a chain that shares the blocks changes.
\<close>

theorem readSome_appends:
  assumes "io_inv m q F"
  shows "\<exists>m1 q1 dst room m' q'. io_reserveWritable m q = Some (m1, q1, dst, room) \<and> 0 < room \<and>
    readSome strerror rs m q = Some (fst (read_result strerror room rs), m', q') \<and> io_inv m' q' F \<and>
    contents m' q' = contents m q @ snd (read_result strerror room rs) \<and>
    (fst (read_result strerror room rs) = Some Status_Ok \<longleftrightarrow> contents m' q' \<noteq> contents m q) \<and>
    (\<forall>x. x \<in># F \<longrightarrow> grown m m' x)"
proof -
  from io_inv_reserve [OF assms] obtain m1 q1 b where
    r: "io_reserveWritable m q = Some (m1, q1, (last (io_blocks q1), b_end b), block_writableBytes b)"
      "contents m1 q1 = contents m q" "\<forall>x. x \<in># F \<longrightarrow> grown m m1 x" and res: "reserved m1 q1 F b"
    unfolding reserved_def by blast
  let ?res = "read_result strerror (block_writableBytes b) rs"
  have pos: "0 < block_writableBytes b" using res by (simp add: reserved_def)
  have "\<exists>m' q'. readSome strerror rs m q = Some (fst ?res, m', q') \<and> read_outcome m q F (snd ?res) m' q'"
  proof (cases rs)
    case Nil
    with read_outcome_nothing [OF assms] show ?thesis by simp
  next
    case (Cons a as)
    have "readSome strerror rs m q = readSome strerror rs m1 q1"
      using r(1) reserve_again [of q1 m1 b] res by (simp add: Cons reserved_def)
    with readSome_reserved [OF res, of strerror rs] obtain m' q' where
      "readSome strerror rs m q = Some (fst ?res, m', q')" "read_outcome m1 q1 F (snd ?res) m' q'" by auto
    moreover have "read_outcome m q F (snd ?res) m' q'"
      using calculation(2) r(2,3) grown_trans unfolding read_outcome_def by metis
    ultimately show ?thesis by blast
  qed
  then show ?thesis
    using r(1) pos read_result_ok [OF pos, of strerror rs] unfolding read_outcome_def by fastforce
qed

theorem readSome_appends_witness:
  "\<exists>m' q'. readSome (\<lambda>_. []) [Read_again 1, Read_bytes ''PING''] (BlockPool_new 8 (\<lambda>_ _. CHR 0x00)) IoBuffer_new =
     Some (Some Status_Ok, m', q') \<and> contents m' q' = ''PING''"
proof -
  let ?m = "BlockPool_new 8 (\<lambda>_ _. CHR 0x00)" and ?rs = "[Read_again 1, Read_bytes ''PING'']"
  have "io_reserveWritable ?m IoBuffer_new = Some (m1, q1, dst, room) \<Longrightarrow> room = 8" for m1 q1 dst room
    by (auto simp: io_reserveWritable_def back_full_def IoBuffer_new_def pool_acquire_def BlockPool_new_def
        BufferBlock_new_def block_writableBytes_def size_sub_def)
  moreover have "contents ?m IoBuffer_new = []" by (simp add: contents_def IoBuffer_new_def)
  ultimately show ?thesis
    using readSome_appends [OF io_inv_new [of 8 "\<lambda>_ _. CHR 0x00"], of "\<lambda>_. []" ?rs] by fastforce
qed

section \<open>Descriptors are closed exactly once\<close>

datatype sock_op = Op_reset int | Op_close | Op_shutdown | Op_shutdownRead | Op_release

text \<open>A sequence of operations, with the descriptors handed out by \<^verbatim>\<open>release\<close>.\<close>

fun sock_run :: "sock_op list \<Rightarrow> co_socket \<Rightarrow> co_socket \<times> int list" where
  "sock_run [] s = (s, [])"
| "sock_run (Op_reset fd # ops) s = sock_run ops (sock_reset fd s)"
| "sock_run (Op_close # ops) s = sock_run ops (sock_close s)"
| "sock_run (Op_shutdown # ops) s = sock_run ops (sock_shutdown s)"
| "sock_run (Op_shutdownRead # ops) s = sock_run ops (sock_shutdownRead s)"
| "sock_run (Op_release # ops) s =
     (let (fd, s1) = sock_release s; (s2, rel) = sock_run ops s1 in (s2, fd # rel))"

definition fds :: "int list \<Rightarrow> int multiset" where
  "fds xs = mset (filter (\<lambda>fd. 0 \<le> fd) xs)"

definition closed_fds :: "syscall list \<Rightarrow> int list" where
  "closed_fds cs = concat (map (\<lambda>c. case c of Sys_close fd \<Rightarrow> [fd] | _ \<Rightarrow> []) cs)"

definition adopted_fds :: "sock_op list \<Rightarrow> int list" where
  "adopted_fds ops = concat (map (\<lambda>c. case c of Op_reset fd \<Rightarrow> [fd] | _ \<Rightarrow> []) ops)"

lemma closed_fds_append [simp]: "closed_fds (xs @ ys) = closed_fds xs @ closed_fds ys"
  by (simp add: closed_fds_def)

lemma fds_simps [simp]:
  "fds [] = {#}" "fds (x # xs) = (if 0 \<le> x then {#x#} else {#}) + fds xs" "fds (xs @ ys) = fds xs + fds ys"
  by (simp_all add: fds_def)

lemma sock_op_fds:
  "fds (closed_fds (cs_calls (sock_close s))) = fds (closed_fds (cs_calls s)) + fds [cs_fd s]"
  "\<not> 0 \<le> cs_fd (sock_close s)" "cs_fd (sock_reset fd s) = fd"
  "fds (closed_fds (cs_calls (sock_reset fd s))) = fds (closed_fds (cs_calls s)) + fds [cs_fd s]"
  "closed_fds (cs_calls (sock_shutdown s)) = closed_fds (cs_calls s)" "cs_fd (sock_shutdown s) = cs_fd s"
  "closed_fds (cs_calls (sock_shutdownRead s)) = closed_fds (cs_calls s)" "cs_fd (sock_shutdownRead s) = cs_fd s"
  by (simp_all add: sock_close_def sock_reset_def sock_shutdown_def sock_shutdownRead_def closed_fds_def
      fds_def)

lemma sock_run_fds:
  "sock_run ops s = (t, rel) \<Longrightarrow>
     fds (closed_fds (cs_calls t)) + fds rel + fds [cs_fd t] =
     fds (closed_fds (cs_calls s)) + fds [cs_fd s] + fds (adopted_fds ops)"
proof (induction ops s arbitrary: rel rule: sock_run.induct)
  case (6 ops s)
  obtain t' rel' where "sock_run ops (s\<lparr>cs_fd := -1\<rparr>) = (t', rel')" by fastforce
  with 6 show ?case
    by (auto simp: sock_release_def adopted_fds_def ac_simps)
qed (simp_all add: adopted_fds_def sock_op_fds ac_simps)

text \<open>
  C37 Descriptor accounting: whatever sequence of \<^verbatim>\<open>reset\<close>, \<^verbatim>\<open>close\<close>, \<^verbatim>\<open>shutdown\<close>,
  \<^verbatim>\<open>shutdownRead\<close> and \<^verbatim>\<open>release\<close> runs before the destructor, every descriptor the
  socket was ever given is closed by it exactly once, unless it was handed out by
  \<^verbatim>\<open>release\<close>, and no other descriptor is.
\<close>

theorem socket_closes_exactly_once:
  "case sock_run ops (CoSocket_new fd) of
     (s, rel) \<Rightarrow> fds (closed_fds (cs_calls (sock_close s))) + fds rel = fds (fd # adopted_fds ops)"
proof -
  obtain s rel where r: "sock_run ops (CoSocket_new fd) = (s, rel)" by fastforce
  have "closed_fds (cs_calls (CoSocket_new fd)) = []" "cs_fd (CoSocket_new fd) = fd"
    by (simp_all add: CoSocket_new_def closed_fds_def)
  with sock_run_fds [OF r] r show ?thesis by (simp add: sock_op_fds ac_simps)
qed

end
