(* ===== verification/Coroutine_Signal.thy ===== *)
theory Coroutine_Signal
  imports Proxy_Prelude
begin

text \<open>
  \<^verbatim>\<open>CoroutineSignal\<close> of \<^verbatim>\<open>src/coroutine_signal.cpp\<close>: a flag that remembers a
  notification, over a condition variable of the coroutine runtime. The runtime's
  \<^verbatim>\<open>co::CoCond\<close> is not part of the repository: its state is of a type \<open>'c\<close>,
  \<^verbatim>\<open>Signal\<close> and the start of \<^verbatim>\<open>Timedwait\<close> are the parameters \<open>csig\<close> and
  \<open>cwait\<close>, and \<open>parked\<close> says that the coroutine that called \<^verbatim>\<open>Timedwait\<close> has not
  been made runnable since. A call of \<^verbatim>\<open>wait\<close> is two steps, before and after the
  coroutine is suspended.

  The components above use only the flag (\<open>csignal\<close>): the waiter clears it when it
  returns, so a set flag is a notification the waiter has not seen.
\<close>

record csignal =
  sg_pending :: bool

record 'c cond_signal = csignal +
  sg_cond :: 'c

definition signal_new :: csignal where
  "signal_new = \<lparr>sg_pending = False\<rparr>"

definition signal_set :: "'a csignal_scheme \<Rightarrow> 'a csignal_scheme" where
  "signal_set s = s\<lparr>sg_pending := True\<rparr>"

definition signal_clear :: "'a csignal_scheme \<Rightarrow> 'a csignal_scheme" where
  "signal_clear s = s\<lparr>sg_pending := False\<rparr>"

definition notify :: "('c \<Rightarrow> 'c) \<Rightarrow> 'c cond_signal \<Rightarrow> 'c cond_signal" where
  "notify csig s = (let s1 = signal_set s in s1\<lparr>sg_cond := csig (sg_cond s1)\<rparr>)"

text \<open>\<^const>\<open>True\<close>: \<^verbatim>\<open>wait\<close> returned at once; \<^const>\<open>False\<close>: it is in \<^verbatim>\<open>Timedwait\<close>.\<close>

definition wait_enter :: "('c \<Rightarrow> 'c) \<Rightarrow> 'c cond_signal \<Rightarrow> bool \<times> 'c cond_signal" where
  "wait_enter cwait s =
     (if sg_pending s then (True, signal_clear s)
      else (False, s\<lparr>sg_cond := cwait (sg_cond s)\<rparr>))"

definition wait_leave :: "'c cond_signal \<Rightarrow> 'c cond_signal" where
  "wait_leave s = signal_clear s"

lemma signal_simps [simp]:
  "sg_pending (signal_set s) = True" "sg_pending (signal_clear s) = False"
  "sg_pending signal_new = False"
  by (simp_all add: signal_set_def signal_clear_def signal_new_def)

section \<open>One waiter, any number of notifiers\<close>

text \<open>
  The waiter is in \<^verbatim>\<open>wait\<close> or not; \<open>unseen\<close> remembers whether it was notified since
  it last returned.
\<close>

record 'c sig_state =
  sw_signal :: "'c cond_signal"
  sw_waiting :: bool
  sw_unseen :: bool

definition sig_init :: "'c \<Rightarrow> 'c sig_state \<Rightarrow> bool" where
  "sig_init c0 s \<longleftrightarrow>
     s = \<lparr>sw_signal = \<lparr>sg_pending = False, sg_cond = c0\<rparr>, sw_waiting = False, sw_unseen = False\<rparr>"

inductive sig_step ::
  "('c \<Rightarrow> 'c) \<Rightarrow> ('c \<Rightarrow> 'c) \<Rightarrow> ('c \<Rightarrow> bool) \<Rightarrow> 'c sig_state \<Rightarrow> 'c sig_state \<Rightarrow> bool"
  for csig :: "'c \<Rightarrow> 'c" and cwait :: "'c \<Rightarrow> 'c" and parked :: "'c \<Rightarrow> bool"
where
  sig_notify:
    "sig_step csig cwait parked s (s\<lparr>sw_signal := notify csig (sw_signal s), sw_unseen := True\<rparr>)"
| sig_wait_returns:
    "\<not> sw_waiting s \<Longrightarrow> wait_enter cwait (sw_signal s) = (True, g) \<Longrightarrow>
     sig_step csig cwait parked s (s\<lparr>sw_signal := g, sw_unseen := False\<rparr>)"
| sig_wait_suspends:
    "\<not> sw_waiting s \<Longrightarrow> wait_enter cwait (sw_signal s) = (False, g) \<Longrightarrow>
     sig_step csig cwait parked s (s\<lparr>sw_signal := g, sw_waiting := True\<rparr>)"
| sig_resume:
    "sw_waiting s \<Longrightarrow> \<not> parked (sg_cond (sw_signal s)) \<Longrightarrow>
     sig_step csig cwait parked s
       (s\<lparr>sw_signal := wait_leave (sw_signal s), sw_waiting := False, sw_unseen := False\<rparr>)"

text \<open>What the code relies on: \<^verbatim>\<open>Signal\<close> makes the suspended coroutine runnable.\<close>

definition cond_ok :: "('c \<Rightarrow> 'c) \<Rightarrow> ('c \<Rightarrow> bool) \<Rightarrow> bool" where
  "cond_ok csig parked \<longleftrightarrow> (\<forall>c. \<not> parked (csig c))"

definition sig_inv :: "('c \<Rightarrow> 'c) \<Rightarrow> ('c \<Rightarrow> bool) \<Rightarrow> 'c sig_state \<Rightarrow> bool" where
  "sig_inv csig parked s \<longleftrightarrow>
     sw_unseen s = sg_pending (sw_signal s) \<and>
     (cond_ok csig parked \<longrightarrow> sw_waiting s \<longrightarrow> sw_unseen s \<longrightarrow> \<not> parked (sg_cond (sw_signal s)))"

lemma sig_inv_step:
  "sig_inv csig parked s \<Longrightarrow> sig_step csig cwait parked s t \<Longrightarrow> sig_inv csig parked t"
  by (erule sig_step.cases)
    (auto simp: sig_inv_def notify_def wait_enter_def wait_leave_def signal_set_def signal_clear_def
      Let_def cond_ok_def split: if_splits)

interpretation sig: invariant_system "sig_init c0" "sig_step csig cwait parked" "sig_inv csig parked"
  for c0 csig cwait parked
proof unfold_locales
  show "sig_inv csig parked s" if "sig_init c0 s" for s
    using that by (simp add: sig_init_def sig_inv_def)
qed (rule sig_inv_step)

text \<open>
  C34 No lost wake-up: however notifications and waits interleave, the waiter is never
  left suspended with a notification it has not seen, and it never blocks when one came
  before it called \<^verbatim>\<open>wait\<close>.
\<close>

theorem signal_no_lost_wakeup:
  assumes "cond_ok csig parked" and "reach (sig_init c0) (sig_step csig cwait parked) s" and "sw_unseen s"
  shows "(sw_waiting s \<longrightarrow> (\<exists>t. sig_step csig cwait parked s t \<and> \<not> sw_waiting t \<and> \<not> sw_unseen t)) \<and>
    (\<not> sw_waiting s \<longrightarrow> fst (wait_enter cwait (sw_signal s)))"
proof -
  have inv: "sg_pending (sw_signal s)" "sw_waiting s \<Longrightarrow> \<not> parked (sg_cond (sw_signal s))"
    using sig.reach_inv [OF assms(2)] assms(1,3) by (simp_all add: sig_inv_def)
  have "\<exists>t. sig_step csig cwait parked s t \<and> \<not> sw_waiting t \<and> \<not> sw_unseen t" if "sw_waiting s"
    using sig_resume [of s parked csig cwait] that inv(2) by fastforce
  with inv(1) show ?thesis by (simp add: wait_enter_def)
qed

text \<open>A condition variable that is a flag: \<^const>\<open>True\<close> while its waiter is suspended.\<close>

theorem signal_no_lost_wakeup_witness:
  "\<exists>s t. reach (sig_init False) (sig_step (\<lambda>_. False) (\<lambda>_. True) (\<lambda>c. c)) s \<and> sw_waiting s \<and>
     sig_step (\<lambda>_. False) (\<lambda>_. True) (\<lambda>c. c) s t \<and> \<not> sw_waiting t"
proof -
  let ?st = "sig_step (\<lambda>_. False) (\<lambda>_. True) (\<lambda>c. c)"
  let ?s0 = "\<lparr>sw_signal = \<lparr>sg_pending = False, sg_cond = False\<rparr>, sw_waiting = False, sw_unseen = False\<rparr>"
  let ?s1 = "?s0\<lparr>sw_signal := \<lparr>sg_pending = False, sg_cond = True\<rparr>, sw_waiting := True\<rparr>"
  let ?s2 = "?s1\<lparr>sw_signal := notify (\<lambda>_. False) (sw_signal ?s1), sw_unseen := True\<rparr>"
  have "reach (sig_init False) ?st ?s0" by (rule reach_init) (simp add: sig_init_def)
  moreover have "?st ?s0 ?s1" by (rule sig_wait_suspends) (simp_all add: wait_enter_def)
  moreover have "?st ?s1 ?s2" by (rule sig_notify)
  ultimately have r: "reach (sig_init False) ?st ?s2" by (meson reach_step)
  have "cond_ok (\<lambda>_. False) (\<lambda>c. c)" by (simp add: cond_ok_def)
  from signal_no_lost_wakeup [OF this r] r show ?thesis by (auto simp: notify_def)
qed

end
