(* ===== verification/Proxy_Config.thy ===== *)
theory Proxy_Config
  imports Proxy_Prelude
begin

text \<open>
  The configuration of \<^verbatim>\<open>src/config.cpp\<close>: the number parsers over the C library's
  \<^verbatim>\<open>strtoull\<close> and \<^verbatim>\<open>strtol\<close>, the file and command line loaders and the validation.
  \<^verbatim>\<open>Endpoint::parse\<close> is not part of the repository: it is the parameter \<open>ep\<close>, from a
  text and the old endpoint to the result and the endpoint left in the output. The
  files are a parameter too, from a path to the contents of a file that can be opened.
\<close>

type_synonym endpoint = "string \<times> nat"
type_synonym endpoint_parser = "string \<Rightarrow> endpoint \<Rightarrow> bool \<times> endpoint"

record config =
  cf_listen :: endpoint
  cf_redis :: endpoint
  cf_workers :: int
  cf_backend_conns :: int
  cf_max_request_bytes :: nat
  cf_max_bulk_bytes :: nat
  cf_max_array_elements :: nat
  cf_max_pipeline :: nat
  cf_connect_timeout :: int
  cf_read_timeout :: int
  cf_write_timeout :: int

definition Config_default :: config where
  "Config_default =
     \<lparr>cf_listen = (''127.0.0.1'', 6379), cf_redis = (''127.0.0.1'', 6380), cf_workers = 1,
      cf_backend_conns = 1, cf_max_request_bytes = 512 * 1024 * 1024,
      cf_max_bulk_bytes = 512 * 1024 * 1024, cf_max_array_elements = 1024 * 1024,
      cf_max_pipeline = 1024 * 1024, cf_connect_timeout = 5000, cf_read_timeout = 30000,
      cf_write_timeout = 30000\<rparr>"

section \<open>Text\<close>

definition trim_char :: "char \<Rightarrow> bool" where
  "trim_char c \<longleftrightarrow> c = CHR '' '' \<or> c = CHR 0x09 \<or> c = CHR 0x0D \<or> c = CHR 0x0A"

definition Trim :: "string \<Rightarrow> string" where
  "Trim s = rev (dropWhile trim_char (rev (dropWhile trim_char s)))"

section \<open>The C library's number parsers, in base ten\<close>

text \<open>The C string of a \<^verbatim>\<open>std::string\<close> ends at its first NUL.\<close>

definition c_str :: "string \<Rightarrow> string" where
  "c_str s = takeWhile (\<lambda>c. c \<noteq> CHR 0x00) s"

definition c_isspace :: "char \<Rightarrow> bool" where
  "c_isspace c \<longleftrightarrow> c = CHR '' '' \<or> (9 \<le> (of_char c :: nat) \<and> (of_char c :: nat) \<le> 13)"

definition c_isdigit :: "char \<Rightarrow> bool" where
  "c_isdigit c \<longleftrightarrow> 48 \<le> (of_char c :: nat) \<and> (of_char c :: nat) \<le> 57"

definition digits_value :: "string \<Rightarrow> nat" where
  "digits_value ds = foldl (\<lambda>n c. 10 * n + (of_char c - 48)) 0 ds"

text \<open>Sign, magnitude and what follows; \<^const>\<open>None\<close> when there is no number.\<close>

definition c_scan :: "string \<Rightarrow> (bool \<times> nat \<times> string) option" where
  "c_scan s =
     (let t = dropWhile c_isspace s;
          (neg, u) = (case t of
             c # t' \<Rightarrow> if c = CHR ''-'' then (True, t') else if c = CHR ''+'' then (False, t') else (False, t)
           | [] \<Rightarrow> (False, t));
          ds = takeWhile c_isdigit u
      in if ds = [] then None else Some (neg, digits_value ds, dropWhile c_isdigit u))"

text \<open>The value, with the library's saturation and negation, and \<^verbatim>\<open>end\<close>.\<close>

definition strtoull :: "string \<Rightarrow> nat \<times> string" where
  "strtoull s =
     (case c_scan s of
        None \<Rightarrow> (0, s)
      | Some (neg, n, rest) \<Rightarrow>
          (if 2 ^ 64 \<le> n then 2 ^ 64 - 1 else if neg \<and> n \<noteq> 0 then 2 ^ 64 - n else n, rest))"

definition strtol :: "string \<Rightarrow> int \<times> string" where
  "strtol s =
     (case c_scan s of
        None \<Rightarrow> (0, s)
      | Some (neg, n, rest) \<Rightarrow>
          (let v = (if neg then - int n else int n)
           in if v < - (2 ^ 63) then - (2 ^ 63) else if 2 ^ 63 - 1 < v then 2 ^ 63 - 1 else v, rest))"

definition ParseSize :: "string \<Rightarrow> nat option" where
  "ParseSize s = (let (parsed, e) = strtoull (c_str s) in if e \<noteq> [] then None else Some parsed)"

definition ParseInt :: "string \<Rightarrow> int option" where
  "ParseInt s =
     (let (parsed, e) = strtol (c_str s)
      in if e \<noteq> [] \<or> parsed < 0 \<or> 1000000 < parsed then None else Some parsed)"

section \<open>Loading\<close>

definition apply_int :: "string \<Rightarrow> (int \<Rightarrow> config \<Rightarrow> config) \<Rightarrow> config \<Rightarrow> bool \<times> config" where
  "apply_int s upd cfg = (case ParseInt s of None \<Rightarrow> (False, cfg) | Some n \<Rightarrow> (True, upd n cfg))"

definition apply_size :: "string \<Rightarrow> (nat \<Rightarrow> config \<Rightarrow> config) \<Rightarrow> config \<Rightarrow> bool \<times> config" where
  "apply_size s upd cfg = (case ParseSize s of None \<Rightarrow> (False, cfg) | Some n \<Rightarrow> (True, upd n cfg))"

definition apply_listen :: "endpoint_parser \<Rightarrow> string \<Rightarrow> config \<Rightarrow> bool \<times> config" where
  "apply_listen ep s cfg = (let (ok, e) = ep s (cf_listen cfg) in (ok, cfg\<lparr>cf_listen := e\<rparr>))"

definition apply_redis :: "endpoint_parser \<Rightarrow> string \<Rightarrow> config \<Rightarrow> bool \<times> config" where
  "apply_redis ep s cfg = (let (ok, e) = ep s (cf_redis cfg) in (ok, cfg\<lparr>cf_redis := e\<rparr>))"

definition Apply :: "endpoint_parser \<Rightarrow> config \<Rightarrow> string \<Rightarrow> string \<Rightarrow> bool \<times> config" where
  "Apply ep cfg key val =
     (if key = ''listen'' then apply_listen ep val cfg
      else if key = ''redis'' then apply_redis ep val cfg
      else if key = ''workers'' then apply_int val (\<lambda>n c. c\<lparr>cf_workers := n\<rparr>) cfg
      else if key = ''backend_conns_per_worker'' then apply_int val (\<lambda>n c. c\<lparr>cf_backend_conns := n\<rparr>) cfg
      else if key = ''max_request_bytes'' then apply_size val (\<lambda>n c. c\<lparr>cf_max_request_bytes := n\<rparr>) cfg
      else if key = ''max_bulk_bytes'' then apply_size val (\<lambda>n c. c\<lparr>cf_max_bulk_bytes := n\<rparr>) cfg
      else if key = ''max_array_elements'' then apply_size val (\<lambda>n c. c\<lparr>cf_max_array_elements := n\<rparr>) cfg
      else if key = ''max_pipeline_commands_per_read'' then apply_size val (\<lambda>n c. c\<lparr>cf_max_pipeline := n\<rparr>) cfg
      else if key = ''connect_timeout_ms'' then apply_int val (\<lambda>n c. c\<lparr>cf_connect_timeout := n\<rparr>) cfg
      else if key = ''read_timeout_ms'' then apply_int val (\<lambda>n c. c\<lparr>cf_read_timeout := n\<rparr>) cfg
      else if key = ''write_timeout_ms'' then apply_int val (\<lambda>n c. c\<lparr>cf_write_timeout := n\<rparr>) cfg
      else (False, cfg))"

text \<open>The error text, or \<^const>\<open>None\<close> when the configuration is valid.\<close>

definition ValidateConfig :: "config \<Rightarrow> string option" where
  "ValidateConfig c =
     (if cf_workers c \<le> 0 then Some ''workers must be positive''
      else if cf_backend_conns c \<le> 0 \<or> 4 < cf_backend_conns c
      then Some ''backend_conns_per_worker must be 1..4''
      else if cf_max_request_bytes c = 0 \<or> cf_max_bulk_bytes c = 0 \<or> cf_max_array_elements c = 0 \<or>
              cf_max_pipeline c = 0
      then Some ''limits must be positive''
      else None)"

text \<open>The lines \<^verbatim>\<open>std::getline\<close> gives: no line after a final newline.\<close>

fun file_lines :: "string \<Rightarrow> string \<Rightarrow> string list" where
  "file_lines cur [] = (if cur = [] then [] else [cur])"
| "file_lines cur (c # cs) =
     (if c = CHR 0x0A then cur # file_lines [] cs else file_lines (cur @ [c]) cs)"

fun load_lines :: "endpoint_parser \<Rightarrow> string list \<Rightarrow> config \<Rightarrow> bool \<times> config" where
  "load_lines ep [] cfg = (ValidateConfig cfg = None, cfg)"
| "load_lines ep (line # ls) cfg =
     (let trimmed = Trim line
      in if trimmed = [] \<or> hd trimmed = CHR ''#'' then load_lines ep ls cfg
         else if CHR ''='' \<notin> set trimmed then (False, cfg)
         else let key = takeWhile (\<lambda>c. c \<noteq> CHR ''='') trimmed;
                  val = tl (dropWhile (\<lambda>c. c \<noteq> CHR ''='') trimmed);
                  (ok, cfg1) = Apply ep cfg (Trim key) (Trim val)
              in if ok then load_lines ep ls cfg1 else (False, cfg1))"

definition LoadConfigFile ::
  "endpoint_parser \<Rightarrow> (string \<Rightarrow> string option) \<Rightarrow> string \<Rightarrow> config \<Rightarrow> bool \<times> config" where
  "LoadConfigFile ep files path out =
     (case files path of None \<Rightarrow> (False, out) | Some text \<Rightarrow> load_lines ep (file_lines [] text) out)"

text \<open>One option with its value; then the arguments after \<^verbatim>\<open>argv[0]\<close> in order.\<close>

definition load_option ::
  "endpoint_parser \<Rightarrow> (string \<Rightarrow> string option) \<Rightarrow> string \<Rightarrow> string \<Rightarrow> config \<Rightarrow> bool \<times> config" where
  "load_option ep files arg val cfg =
     (if arg = ''--config'' then LoadConfigFile ep files val cfg
      else if arg = ''--listen'' then apply_listen ep val cfg
      else if arg = ''--redis'' then apply_redis ep val cfg
      else if arg = ''--workers'' then apply_int val (\<lambda>n c. c\<lparr>cf_workers := n\<rparr>) cfg
      else if arg = ''--backend-conns'' then apply_int val (\<lambda>n c. c\<lparr>cf_backend_conns := n\<rparr>) cfg
      else (False, cfg))"

fun load_args ::
  "endpoint_parser \<Rightarrow> (string \<Rightarrow> string option) \<Rightarrow> string list \<Rightarrow> config \<Rightarrow> config option" where
  "load_args ep files [] cfg = (if ValidateConfig cfg = None then Some cfg else None)"
| "load_args ep files [arg] cfg = None"
| "load_args ep files (arg # val # args) cfg =
     (let (ok, cfg1) = load_option ep files arg val cfg
      in if ok then load_args ep files args cfg1 else None)"

text \<open>The result and what is in \<^verbatim>\<open>*out\<close> afterwards.\<close>

definition LoadConfigFromArgs ::
  "endpoint_parser \<Rightarrow> (string \<Rightarrow> string option) \<Rightarrow> string list \<Rightarrow> config \<Rightarrow> bool \<times> config" where
  "LoadConfigFromArgs ep files args out =
     (case load_args ep files args Config_default of None \<Rightarrow> (False, out) | Some cfg \<Rightarrow> (True, cfg))"

section \<open>What is accepted is valid\<close>

definition size_t_ok :: "nat \<Rightarrow> bool" where
  "size_t_ok n \<longleftrightarrow> n < 2 ^ 64"

text \<open>The bounds that hold while a configuration is loaded.\<close>

definition config_ints_ok :: "config \<Rightarrow> bool" where
  "config_ints_ok c \<longleftrightarrow>
     list_all (\<lambda>n. 0 \<le> n \<and> n \<le> 1000000)
       [cf_workers c, cf_backend_conns c, cf_connect_timeout c, cf_read_timeout c, cf_write_timeout c] \<and>
     list_all size_t_ok
       [cf_max_request_bytes c, cf_max_bulk_bytes c, cf_max_array_elements c, cf_max_pipeline c]"

lemma ParseInt_range: "ParseInt s = Some n \<Longrightarrow> 0 \<le> n \<and> n \<le> 1000000"
  by (auto simp: ParseInt_def Let_def split: prod.splits if_splits)

lemma ParseSize_range: "ParseSize s = Some n \<Longrightarrow> size_t_ok n"
  by (auto simp: size_t_ok_def ParseSize_def strtoull_def Let_def split: prod.splits if_splits option.splits)

lemma apply_int_ok:
  "P cfg \<Longrightarrow> (\<And>n. 0 \<le> n \<Longrightarrow> n \<le> 1000000 \<Longrightarrow> P (upd n cfg)) \<Longrightarrow> P (snd (apply_int s upd cfg))"
  using ParseInt_range [of s] by (auto simp: apply_int_def split: option.split)

lemma apply_size_ok:
  "P cfg \<Longrightarrow> (\<And>n. size_t_ok n \<Longrightarrow> P (upd n cfg)) \<Longrightarrow> P (snd (apply_size s upd cfg))"
  using ParseSize_range [of s] by (auto simp: apply_size_def split: option.split)

lemma apply_endpoint_ok:
  "config_ints_ok cfg \<Longrightarrow> config_ints_ok (snd (apply_listen ep s cfg))"
  "config_ints_ok cfg \<Longrightarrow> config_ints_ok (snd (apply_redis ep s cfg))"
  by (simp_all add: apply_listen_def apply_redis_def config_ints_ok_def case_prod_beta Let_def)

lemma config_ints_upd:
  assumes "config_ints_ok c"
  shows "0 \<le> n \<Longrightarrow> n \<le> 1000000 \<Longrightarrow> config_ints_ok (c\<lparr>cf_workers := n\<rparr>)"
    "0 \<le> n \<Longrightarrow> n \<le> 1000000 \<Longrightarrow> config_ints_ok (c\<lparr>cf_backend_conns := n\<rparr>)"
    "0 \<le> n \<Longrightarrow> n \<le> 1000000 \<Longrightarrow> config_ints_ok (c\<lparr>cf_connect_timeout := n\<rparr>)"
    "0 \<le> n \<Longrightarrow> n \<le> 1000000 \<Longrightarrow> config_ints_ok (c\<lparr>cf_read_timeout := n\<rparr>)"
    "0 \<le> n \<Longrightarrow> n \<le> 1000000 \<Longrightarrow> config_ints_ok (c\<lparr>cf_write_timeout := n\<rparr>)"
    "size_t_ok k \<Longrightarrow> config_ints_ok (c\<lparr>cf_max_request_bytes := k\<rparr>)"
    "size_t_ok k \<Longrightarrow> config_ints_ok (c\<lparr>cf_max_bulk_bytes := k\<rparr>)"
    "size_t_ok k \<Longrightarrow> config_ints_ok (c\<lparr>cf_max_array_elements := k\<rparr>)"
    "size_t_ok k \<Longrightarrow> config_ints_ok (c\<lparr>cf_max_pipeline := k\<rparr>)"
  using assms by (simp_all add: config_ints_ok_def)

lemma Apply_ints_ok: "config_ints_ok cfg \<Longrightarrow> config_ints_ok (snd (Apply ep cfg key val))"
  by (simp add: Apply_def apply_int_ok apply_size_ok apply_endpoint_ok config_ints_upd)

lemma load_lines_ints_ok: "config_ints_ok cfg \<Longrightarrow> config_ints_ok (snd (load_lines ep ls cfg))"
proof (induction ls arbitrary: cfg)
  case (Cons line ls)
  have "config_ints_ok cfg1" if "Apply ep cfg k v = (ok, cfg1)" for ok k v cfg1
    using Apply_ints_ok [OF Cons.prems, of ep k v] that by simp
  with Cons show ?case by (auto simp: Let_def split: prod.split)
qed simp

lemma load_option_ints_ok: "config_ints_ok cfg \<Longrightarrow> config_ints_ok (snd (load_option ep files arg val cfg))"
  by (simp add: load_option_def LoadConfigFile_def apply_int_ok apply_endpoint_ok config_ints_upd
      load_lines_ints_ok split: option.split)

lemma load_args_ok:
  "load_args ep files args cfg = Some c \<Longrightarrow> config_ints_ok cfg \<Longrightarrow> config_ints_ok c \<and> ValidateConfig c = None"
proof (induction ep files args cfg rule: load_args.induct)
  case (3 ep files arg val args cfg)
  obtain ok cfg1 where "load_option ep files arg val cfg = (ok, cfg1)" by fastforce
  with 3 load_option_ints_ok [OF 3(3), of ep files arg val] show ?case by (auto split: if_splits)
qed (auto split: if_splits)

lemma config_default_ok: "config_ints_ok Config_default"
  by (simp add: config_ints_ok_def Config_default_def size_t_ok_def)

text \<open>
  C38 Whatever is on the command line, in the files it names and in the endpoints, a
  configuration that is accepted has at least one worker and at most a million, one to
  four backend connections, positive limits that fit \<^verbatim>\<open>std::size_t\<close>, and timeouts
  between zero and a million milliseconds; otherwise the caller's configuration is
  untouched.
\<close>

theorem LoadConfigFromArgs_valid:
  "case LoadConfigFromArgs ep files args out of
     (ok, c) \<Rightarrow>
       if ok
       then 1 \<le> cf_workers c \<and> cf_workers c \<le> 1000000 \<and> 1 \<le> cf_backend_conns c \<and> cf_backend_conns c \<le> 4 \<and>
            list_all (\<lambda>n. 0 < n \<and> n < 2 ^ 64)
              [cf_max_request_bytes c, cf_max_bulk_bytes c, cf_max_array_elements c, cf_max_pipeline c] \<and>
            list_all (\<lambda>t. 0 \<le> t \<and> t \<le> 1000000) [cf_connect_timeout c, cf_read_timeout c, cf_write_timeout c]
       else c = out"
proof (cases "load_args ep files args Config_default")
  case None
  then show ?thesis by (simp add: LoadConfigFromArgs_def)
next
  case (Some c)
  from load_args_ok [OF Some config_default_ok] have "config_ints_ok c" "ValidateConfig c = None" by simp_all
  with Some show ?thesis
    by (auto simp: LoadConfigFromArgs_def config_ints_ok_def size_t_ok_def ValidateConfig_def split: if_splits)
qed

section \<open>Numbers\<close>

text \<open>The decimal digits of a number.\<close>

fun decimal :: "nat \<Rightarrow> string" where
  "decimal n = (if n < 10 then [char_of (48 + n)] else decimal (n div 10) @ [char_of (48 + n mod 10)])"

declare decimal.simps [simp del]

lemma digit_char:
  assumes "d < 10"
  shows "of_char (char_of (48 + d) :: char) = (48 + d :: nat)"
  using assms by (simp add: of_char_mod_256)

lemma decimal_ok:
  "list_all c_isdigit (decimal n) \<and> decimal n \<noteq> [] \<and> digits_value (decimal n) = n"
proof (induction n rule: decimal.induct)
  case (1 n)
  show ?case
  proof (cases "n < 10")
    case True
    then show ?thesis
      by (simp add: decimal.simps [of n] c_isdigit_def digits_value_def digit_char)
  next
    case False
    have "c_isdigit (char_of (48 + n mod 10))" by (simp add: c_isdigit_def digit_char)
    with 1 [OF False] False show ?thesis
      by (simp add: decimal.simps [of n] digits_value_def digit_char)
  qed
qed

lemma c_isdigit_not:
  "c_isdigit c \<Longrightarrow> \<not> c_isspace c \<and> c \<noteq> CHR ''-'' \<and> c \<noteq> CHR ''+'' \<and> c \<noteq> CHR 0x00"
  by (auto simp: c_isdigit_def c_isspace_def)

lemma takeWhile_digits:
  assumes "list_all c_isdigit ds"
  shows "takeWhile c_isdigit ds = ds" and "dropWhile c_isdigit ds = []" and "c_str ds = ds"
  using assms c_isdigit_not by (auto simp: list_all_iff c_str_def takeWhile_eq_all_conv)

lemma c_scan_decimal:
  "c_scan (c_str (decimal n)) = Some (False, n, [])"
  "c_scan (c_str (CHR ''-'' # decimal n)) = Some (True, n, [])"
proof -
  obtain d ds where d: "decimal n = d # ds" using decimal_ok [of n] by (cases "decimal n") auto
  have ok: "list_all c_isdigit (decimal n)" "digits_value (decimal n) = n" using decimal_ok by simp_all
  note dd = c_isdigit_not [of d]
  have "c_isdigit d" using ok(1) d by simp
  moreover have "takeWhile c_isdigit ds = ds" "dropWhile c_isdigit ds = []"
    using ok(1) d takeWhile_digits [of ds] by simp_all
  ultimately show "c_scan (c_str (decimal n)) = Some (False, n, [])"
    using dd ok takeWhile_digits(3) [OF ok(1)]
    by (simp add: c_scan_def Let_def d takeWhile_eq_all_conv [THEN iffD2])
  have "c_str (CHR ''-'' # decimal n) = CHR ''-'' # decimal n"
    using takeWhile_digits(3) [OF ok(1)] by (simp add: c_str_def)
  then show "c_scan (c_str (CHR ''-'' # decimal n)) = Some (True, n, [])"
    using ok takeWhile_digits [OF ok(1)] d
    by (simp add: c_scan_def Let_def c_isspace_def takeWhile_eq_all_conv [THEN iffD2])
qed

text \<open>
  C39 Numbers written in decimal are read back: a size up to the largest \<^verbatim>\<open>std::size_t\<close>
  exactly, a larger one as that maximum; an integer exactly when it is at most a million,
  and a larger one is refused, never truncated.
\<close>

theorem decimal_roundtrip:
  "ParseSize (decimal n) = Some (min n (2 ^ 64 - 1)) \<and>
   ParseInt (decimal n) = (if n \<le> 1000000 then Some (int n) else None)"
  by (simp add: ParseSize_def ParseInt_def strtoull_def strtol_def c_scan_decimal Let_def)

text \<open>
  C40 A size may be negative or empty: \<^verbatim>\<open>strtoull\<close> negates modulo \<open>2 ^ 64\<close>, so a limit
  set to a negative number is accepted as a huge one, and an empty value is accepted as
  zero, by both parsers.
\<close>

theorem ParseSize_accepts_negative:
  "ParseSize (CHR ''-'' # decimal (Suc n)) = Some (if Suc n < 2 ^ 64 then 2 ^ 64 - Suc n else 2 ^ 64 - 1) \<and>
   ParseSize [] = Some 0 \<and> ParseInt [] = Some 0 \<and>
   Apply ep cfg ''max_request_bytes'' ''-1'' = (True, cfg\<lparr>cf_max_request_bytes := 2 ^ 64 - 1\<rparr>)"
proof (intro conjI)
  show n: "ParseSize (CHR ''-'' # decimal (Suc n)) =
      Some (if Suc n < 2 ^ 64 then 2 ^ 64 - Suc n else 2 ^ 64 - 1)" for n
    by (simp add: ParseSize_def strtoull_def c_scan_decimal Let_def)
  show "ParseSize [] = Some 0" "ParseInt [] = Some 0"
    by (simp_all add: ParseSize_def ParseInt_def strtoull_def strtol_def c_str_def c_scan_def)
  have "decimal (Suc 0) = ''1''" by code_simp
  then show "Apply ep cfg ''max_request_bytes'' ''-1'' = (True, cfg\<lparr>cf_max_request_bytes := 2 ^ 64 - 1\<rparr>)"
    using n [of 0] by (simp add: Apply_def apply_size_def)
qed

end
