(* ===== verification/Reply_Fifo.thy ===== *)
theory Reply_Fifo
  imports Proxy_Status
begin

text \<open>
  The interface between a backend channel and the sessions that use it: the calls of
  \<^verbatim>\<open>ReplySink\<close> (\<^verbatim>\<open>include/redis_proxy/backend_channel.h\<close>) and, as a locale, what the
  channel promises. To its clients a channel is a queue of expected replies, each with
  the owner it is for: first those of commands already handed to the socket, then those
  of commands still waiting to be sent. \<^verbatim>\<open>Backend_Channel\<close> interprets the locale; the
  invariant of the whole proxy rests on its lemmas.
\<close>

datatype 'o callback = Reply 'o bytes | Failure 'o status

text \<open>
  The order in which \<^verbatim>\<open>std::unordered_set\<close> visits what was inserted: each element
  once, and nothing else.
\<close>

definition hash_order :: "('o list \<Rightarrow> 'o list) \<Rightarrow> bool" where
  "hash_order order \<longleftrightarrow> (\<forall>xs. distinct (order xs) \<and> set (order xs) = set xs)"

definition nullify :: "'o option \<Rightarrow> 'o option \<Rightarrow> 'o option" where
  "nullify own x = (if x = own then None else x)"

text \<open>How many replies of a queue are for an owner.\<close>

definition owed :: "'o option list \<Rightarrow> 'o \<Rightarrow> nat" where
  "owed xs own = count_list xs (Some own)"

lemma owed_simps [simp]:
  "owed [] own = 0" "owed (x # xs) own = (if x = Some own then 1 else 0) + owed xs own"
  "owed (xs @ ys) own = owed xs own + owed ys own"
  "owed (replicate n x) own = (if x = Some own then n else 0)"
proof -
  show "owed (replicate n x) own = (if x = Some own then n else 0)"
    by (induction n) (auto simp: owed_def)
qed (simp_all add: owed_def)

lemma owed_pos: "0 < owed xs own \<longleftrightarrow> Some own \<in> set xs"
  by (simp add: owed_def count_list_0_iff flip: neq0_conv)

lemma owed_nullify: "owed (map (nullify (Some own)) xs) x = (if x = own then 0 else owed xs x)"
  by (induction xs) (auto simp: nullify_def)

lemma owed_filter: "owed (filter (\<lambda>y. y \<noteq> Some own) xs) x = (if x = own then 0 else owed xs x)"
  by (induction xs) auto

locale reply_fifo =
  fixes inv :: "'c \<Rightarrow> bool"
    and ready :: "'c \<Rightarrow> bool"
    and sent :: "'c \<Rightarrow> 'o option list"
    and unsent :: "'c \<Rightarrow> 'o option list"
    and sub :: "'o option \<Rightarrow> bytes \<Rightarrow> u32 \<Rightarrow> 'c \<Rightarrow> bool \<times> 'c"
    and disp :: "bytes \<Rightarrow> 'c \<Rightarrow> 'c \<times> 'o callback list"
    and detach :: "'o option \<Rightarrow> 'c \<Rightarrow> 'c"
    and fail :: "status \<Rightarrow> 'c \<Rightarrow> 'c \<times> 'o callback list"
  assumes idle: "inv c \<Longrightarrow> \<not> ready c \<Longrightarrow> sent c = [] \<and> unsent c = []"
    and sub_law: "inv c \<Longrightarrow> sub own d n c = (ok, c') \<Longrightarrow>
      inv c' \<and> ready c' = ready c \<and> (ok \<longleftrightarrow> ready c \<and> n \<noteq> 0) \<and> sent c' = sent c \<and>
      unsent c' = unsent c @ (if ok then replicate (unat n) own else [])"
    and disp_law: "inv c \<Longrightarrow> sent c = x # xs \<Longrightarrow> disp r c = (c', cbs) \<Longrightarrow>
      inv c' \<and> ready c' = ready c \<and> sent c' = xs \<and> unsent c' = unsent c \<and>
      cbs = (case x of None \<Rightarrow> [] | Some own \<Rightarrow> [Reply own r])"
    and disp_empty: "inv c \<Longrightarrow> sent c = [] \<Longrightarrow> \<exists>st. disp r c = fail st c"
    and detach_law: "inv c \<Longrightarrow> inv (detach own c) \<and> ready (detach own c) = ready c \<and>
      sent (detach own c) = map (nullify own) (sent c) \<and>
      unsent (detach own c) = filter (\<lambda>x. x \<noteq> own) (unsent c)"
    and fail_law: "inv c \<Longrightarrow> fail st c = (c', cbs) \<Longrightarrow>
      inv c' \<and> \<not> ready c' \<and>
      (if ready c
       then \<exists>os. cbs = map (\<lambda>own. Failure own st) os \<and> distinct os \<and>
              set os = {own. Some own \<in> set (sent c @ unsent c)}
       else c' = c \<and> cbs = [])"
begin

lemma owed_sub:
  "inv c \<Longrightarrow> sub (Some own) d n c = (True, c') \<Longrightarrow>
     owed (sent c' @ unsent c') x = owed (sent c @ unsent c) x + (if x = own then unat n else 0)"
  using sub_law [of c "Some own" d n True c'] by simp

lemma owed_detach:
  "inv c \<Longrightarrow> owed (sent (detach (Some own) c) @ unsent (detach (Some own) c)) x =
     (if x = own then 0 else owed (sent c @ unsent c) x)"
  using detach_law [of c "Some own"] by (simp add: owed_nullify owed_filter)

lemma owed_fail:
  assumes "inv c" and "fail st c = (c', cbs)"
  shows "owed (sent c' @ unsent c') x = 0" and "Failure x st \<in> set cbs \<longleftrightarrow> 0 < owed (sent c @ unsent c) x"
    and "distinct cbs" and "Reply x r \<notin> set cbs"
proof -
  note f = fail_law [OF assms]
  show "owed (sent c' @ unsent c') x = 0" using f idle [of c'] by simp
  have "(Failure x st \<in> set cbs \<longleftrightarrow> Some x \<in> set (sent c @ unsent c)) \<and> distinct cbs \<and> Reply x r \<notin> set cbs"
  proof (cases "ready c")
    case True
    with f obtain os where os: "cbs = map (\<lambda>own. Failure own st) os" "distinct os"
      "set os = {own. Some own \<in> set (sent c @ unsent c)}"
      by auto
    then show ?thesis by (auto simp: distinct_map inj_on_def)
  next
    case False
    with f idle [OF assms(1)] show ?thesis by simp
  qed
  then show "Failure x st \<in> set cbs \<longleftrightarrow> 0 < owed (sent c @ unsent c) x" "distinct cbs" "Reply x r \<notin> set cbs"
    unfolding owed_pos by blast+
qed

lemma owed_disp:
  assumes "inv c" and "disp r c = (c', cbs)"
  shows "(\<exists>own. cbs = [Reply own r] \<and> ready c' = ready c \<and> 0 < owed (sent c @ unsent c) own \<and>
      (\<forall>x. owed (sent c' @ unsent c') x = owed (sent c @ unsent c) x - (if x = own then 1 else 0))) \<or>
    cbs = [] \<and> ready c' = ready c \<and> (\<forall>x. owed (sent c' @ unsent c') x = owed (sent c @ unsent c) x) \<or>
    (\<exists>st. fail st c = (c', cbs))"
proof (cases "sent c")
  case Nil
  then show ?thesis using disp_empty [OF assms(1) Nil, of r] assms(2) by auto
next
  case (Cons x xs)
  show ?thesis using disp_law [OF assms(1) Cons assms(2)] Cons by (cases x) auto
qed

end

end
