(* ===== verification/Backend_Channel.thy ===== *)
theory Backend_Channel
  imports Resp_Parser Co_Socket Coroutine_Signal Proxy_Config Reply_Fifo
begin

text \<open>
  \<^verbatim>\<open>BackendChannel\<close> of \<^verbatim>\<open>src/backend_channel.cpp\<close>: one connection to Redis, shared by
  the sessions of a worker. Sessions submit batches of commands; the writer coroutine
  (\<^verbatim>\<open>run\<close> with \<^verbatim>\<open>writerLoop\<close>) sends them, the reader coroutine (\<^verbatim>\<open>readerLoop\<close>) hands
  each reply to the owner of the oldest command that waits for one.

  A \<^verbatim>\<open>ReplySink*\<close> is an \<open>'o option\<close> (\<^const>\<open>None\<close> is the null pointer), a
  \<^verbatim>\<open>BufferChain\<close> the bytes it reads as and \<^verbatim>\<open>redis_in_\<close> the bytes it holds
  (\<^verbatim>\<open>Buffer_Pipe\<close> and \<^verbatim>\<open>parser_refines_bytes\<close> justify both). A call of an owner's
  virtual function is a value of type \<open>callback\<close>: an operation returns the list of the
  calls it makes, which in the code are its last action on the channel (in \<^verbatim>\<open>stop\<close>, two
  statements that touch neither queue follow). \<^verbatim>\<open>std::unordered_set\<close> visits its
  elements in some order: the parameter \<open>order\<close>.

  A coroutine is its current suspension point; each step of it runs to the next one,
  with what the suspended call returned as its argument.
\<close>

section \<open>State\<close>

record 'o request_batch =
  rb_owner :: "'o option"
  rb_bytes :: bytes
  rb_count :: u32

record 'o pending_batch =
  pb_owner :: "'o option"
  pb_remaining :: u32

datatype ch_status = CS_kStopped | CS_kConnecting | CS_kReady | CS_kClosing

text \<open>
  Where \<^verbatim>\<open>run\<close> is: not running, at the loop's head, in \<^verbatim>\<open>connectOnce\<close>, at the head of
  \<^verbatim>\<open>writerLoop\<close>, in its \<^verbatim>\<open>wait\<close>, in \<^verbatim>\<open>writeAll\<close>, waiting for the reader (at the
  loop's head or in \<^verbatim>\<open>wait\<close>), in the pause before a new attempt. Where \<^verbatim>\<open>readerLoop\<close>
  is: not running, at its head, in \<^verbatim>\<open>readSome\<close>, at the head of the reply loop.
\<close>

datatype run_point =
  Run_none | Run_top | Run_connecting | Run_write | Run_write_wait | Run_writing | Run_join | Run_join_wait | Run_sleep

datatype read_point = Rd_none | Rd_top | Rd_reading | Rd_parse

text \<open>
  The last three fields are a history of the connection that no operation reads: the
  batches handed to the socket, the number of replies dispatched, and the calls of
  \<^verbatim>\<open>detachOwner\<close>, each with its owner and the number of commands handed over before it.
\<close>

record 'o channel =
  ch_config :: config
  ch_socket :: co_socket
  ch_parser :: resp_parser
  ch_in :: bytes
  ch_write :: "'o request_batch list"
  ch_pending :: "'o pending_batch list"
  ch_signal :: csignal
  ch_state :: ch_status
  ch_stop :: bool
  ch_reader_done :: bool
  ch_queued :: u64
  ch_run :: run_point
  ch_reader :: read_point
  ch_wire :: "'o request_batch list"
  ch_answered :: nat
  ch_detached :: "('o option \<times> nat) list"

text \<open>The owners of the commands handed to the socket, in order.\<close>

abbreviation ch_started :: "'o channel \<Rightarrow> 'o option list" where
  "ch_started ch \<equiv> concat (map (\<lambda>b. replicate (unat (rb_count b)) (rb_owner b)) (ch_wire ch))"

definition BackendChannel_new :: "'o channel" where
  "BackendChannel_new =
     \<lparr>ch_config = Config_default, ch_socket = CoSocket_new (-1), ch_parser = RespParser_new, ch_in = [],
      ch_write = [], ch_pending = [], ch_signal = signal_new, ch_state = CS_kStopped, ch_stop = False,
      ch_reader_done = True, ch_queued = 0, ch_run = Run_none, ch_reader = Rd_none, ch_wire = [],
      ch_answered = 0, ch_detached = []\<rparr>"

section \<open>Operations\<close>

definition isHealthy :: "'o channel \<Rightarrow> bool" where
  "isHealthy ch \<longleftrightarrow> ch_state ch = CS_kReady"

definition isStopped :: "'o channel \<Rightarrow> bool" where
  "isStopped ch \<longleftrightarrow> ch_state ch = CS_kStopped"

definition ch_notify :: "'o channel \<Rightarrow> 'o channel" where
  "ch_notify ch = ch\<lparr>ch_signal := signal_set (ch_signal ch)\<rparr>"

definition submit :: "'o option \<Rightarrow> bytes \<Rightarrow> u32 \<Rightarrow> 'o channel \<Rightarrow> bool \<times> 'o channel" where
  "submit own bytes command_count ch =
     (if \<not> isHealthy ch \<or> command_count = 0 then (False, ch)
      else (True, ch_notify (ch\<lparr>
        ch_write := ch_write ch @ [\<lparr>rb_owner = own, rb_bytes = bytes, rb_count = command_count\<rparr>],
        ch_queued := ch_queued ch + ucast command_count\<rparr>)))"

fun detach_writes :: "'o option \<Rightarrow> 'o request_batch list \<Rightarrow> u64 \<Rightarrow> 'o request_batch list \<times> u64" where
  "detach_writes own [] queued = ([], queued)"
| "detach_writes own (b # bs) queued =
     (if rb_owner b = own then detach_writes own bs (queued - ucast (rb_count b))
      else let (bs', queued') = detach_writes own bs queued in (b # bs', queued'))"

definition detach_pending :: "'o option \<Rightarrow> 'o pending_batch \<Rightarrow> 'o pending_batch" where
  "detach_pending own p = (if pb_owner p = own then p\<lparr>pb_owner := None\<rparr> else p)"

definition detachOwner :: "'o option \<Rightarrow> 'o channel \<Rightarrow> 'o channel" where
  "detachOwner own ch =
     (let (bs, queued) = detach_writes own (ch_write ch) (ch_queued ch)
      in ch\<lparr>ch_write := bs, ch_queued := queued, ch_pending := map (detach_pending own) (ch_pending ch),
            ch_detached := ch_detached ch @ [(own, length (ch_started ch))]\<rparr>)"

text \<open>The owners the two loops insert into the set, null pointers left out.\<close>

definition batch_owners :: "'o channel \<Rightarrow> 'o list" where
  "batch_owners ch = List.map_filter rb_owner (ch_write ch) @ List.map_filter pb_owner (ch_pending ch)"

definition failConnection ::
  "('o list \<Rightarrow> 'o list) \<Rightarrow> status \<Rightarrow> 'o channel \<Rightarrow> 'o channel \<times> 'o callback list" where
  "failConnection order st ch =
     (if ch_state ch \<noteq> CS_kReady then (ch, [])
      else let owners = order (batch_owners ch);
               ch1 = ch_notify (ch\<lparr>ch_state := CS_kClosing, ch_socket := sock_shutdown (ch_socket ch)\<rparr>)
           in (ch1\<lparr>ch_write := [], ch_pending := [], ch_queued := 0\<rparr>, map (\<lambda>own. Failure own st) owners))"

definition dispatchReply ::
  "('o list \<Rightarrow> 'o list) \<Rightarrow> bytes \<Rightarrow> 'o channel \<Rightarrow> 'o channel \<times> 'o callback list" where
  "dispatchReply order reply ch =
     (case ch_pending ch of
        [] \<Rightarrow> failConnection order (Status_ProtocolError ''unexpected redis reply'') ch
      | p # ps \<Rightarrow>
          let remaining = pb_remaining p - 1;
              ch1 = ch\<lparr>ch_pending := (if remaining = 0 then ps else p\<lparr>pb_remaining := remaining\<rparr> # ps),
                       ch_queued := ch_queued ch - 1, ch_answered := ch_answered ch + 1\<rparr>
          in (ch1, case pb_owner p of None \<Rightarrow> [] | Some own \<Rightarrow> [Reply own reply]))"

definition ch_start :: "config \<Rightarrow> 'o channel \<Rightarrow> 'o channel" where
  "ch_start cfg ch =
     (if \<not> isStopped ch then ch
      else ch\<lparr>ch_config := cfg,
              ch_parser := parser_setLimits (cf_max_bulk_bytes cfg) (cf_max_array_elements cfg) 8 SIZE_MAX
                (ch_parser ch),
              ch_stop := False, ch_state := CS_kConnecting, ch_run := Run_top\<rparr>)"

definition ch_halt :: "('o list \<Rightarrow> 'o list) \<Rightarrow> 'o channel \<Rightarrow> 'o channel \<times> 'o callback list" where
  "ch_halt order ch =
     (let (ch1, cbs) = failConnection order (Status_Closed ''backend stopped'') (ch\<lparr>ch_stop := True\<rparr>)
      in (ch_notify (ch1\<lparr>ch_socket := sock_shutdown (ch_socket ch1)\<rparr>), cbs))"

section \<open>The coroutine of run and writerLoop\<close>

text \<open>After the loop body: close, forget the input, pause unless stopping.\<close>

definition run_cleanup :: "'o channel \<Rightarrow> 'o channel" where
  "run_cleanup ch =
     ch\<lparr>ch_socket := sock_close (ch_socket ch), ch_in := [],
        ch_run := (if ch_stop ch then Run_top else Run_sleep)\<rparr>"

definition run_connected :: "status \<Rightarrow> 'o channel \<Rightarrow> 'o channel" where
  "run_connected st ch =
     (if status_ok st \<and> \<not> ch_stop ch
      then ch\<lparr>ch_state := CS_kReady, ch_reader_done := False, ch_reader := Rd_top, ch_run := Run_write,
              ch_wire := [], ch_answered := 0, ch_detached := []\<rparr>
      else run_cleanup ch)"

text \<open>
  \<^verbatim>\<open>connectOnce\<close> up to \<^verbatim>\<open>connectTo\<close>, \<open>fd\<close> being what \<^verbatim>\<open>CreateTcpClientSocket\<close> returns;
  \<^const>\<open>None\<close> when it is suspended there.
\<close>

definition connectOnce :: "int \<Rightarrow> 'o channel \<Rightarrow> status option \<times> 'o channel" where
  "connectOnce fd ch =
     (if fd < 0 then (Some (Status_IoError ''socket failed''), ch)
      else (None, ch\<lparr>ch_socket := sock_reset fd (ch_socket ch)\<rparr>))"

definition run_begin :: "int \<Rightarrow> 'o channel \<Rightarrow> 'o channel" where
  "run_begin fd ch =
     (if ch_stop ch then ch\<lparr>ch_state := CS_kStopped, ch_run := Run_none\<rparr>
      else let ch1 = ch\<lparr>ch_state := CS_kConnecting\<rparr>
           in case connectOnce fd ch1 of
                (Some st, ch2) \<Rightarrow> run_connected st ch2
              | (None, ch2) \<Rightarrow> ch2\<lparr>ch_run := Run_connecting\<rparr>)"

text \<open>A call of \<^verbatim>\<open>writer_signal_.wait()\<close>, and its return when it was suspended.\<close>

definition ch_wait :: "run_point \<Rightarrow> run_point \<Rightarrow> 'o channel \<Rightarrow> 'o channel" where
  "ch_wait back suspended ch =
     (if sg_pending (ch_signal ch) then ch\<lparr>ch_signal := signal_clear (ch_signal ch), ch_run := back\<rparr>
      else ch\<lparr>ch_run := suspended\<rparr>)"

definition ch_woken :: "run_point \<Rightarrow> 'o channel \<Rightarrow> 'o channel" where
  "ch_woken back ch = ch\<lparr>ch_signal := signal_clear (ch_signal ch), ch_run := back\<rparr>"

definition writer_round :: "'o channel \<Rightarrow> 'o channel" where
  "writer_round ch =
     (if \<not> isHealthy ch then ch\<lparr>ch_run := Run_join\<rparr>
      else case ch_write ch of
        [] \<Rightarrow> ch_wait Run_write Run_write_wait ch
      | b # bs \<Rightarrow>
          ch\<lparr>ch_write := bs,
             ch_pending := ch_pending ch @ [\<lparr>pb_owner = rb_owner b, pb_remaining = rb_count b\<rparr>],
             ch_run := Run_writing,
             ch_wire := ch_wire ch @ [b]\<rparr>)"

definition writer_written ::
  "('o list \<Rightarrow> 'o list) \<Rightarrow> status \<Rightarrow> 'o channel \<Rightarrow> 'o channel \<times> 'o callback list" where
  "writer_written order st ch =
     (let ch1 = ch\<lparr>ch_run := Run_write\<rparr>
      in if status_ok st then (ch1, []) else failConnection order st ch1)"

definition join_round :: "'o channel \<Rightarrow> 'o channel" where
  "join_round ch = (if ch_reader_done ch then run_cleanup ch else ch_wait Run_join Run_join_wait ch)"

section \<open>The coroutine of readerLoop\<close>

definition reader_exit :: "'o channel \<Rightarrow> 'o channel" where
  "reader_exit ch = ch_notify (ch\<lparr>ch_reader_done := True, ch_reader := Rd_none\<rparr>)"

definition reader_round :: "'o channel \<Rightarrow> 'o channel" where
  "reader_round ch = (if isHealthy ch then ch\<lparr>ch_reader := Rd_reading\<rparr> else reader_exit ch)"

text \<open>\<open>d\<close> is what \<^verbatim>\<open>readSome\<close> appended before it returned \<open>st\<close>.\<close>

definition reader_read ::
  "('o list \<Rightarrow> 'o list) \<Rightarrow> status \<Rightarrow> bytes \<Rightarrow> 'o channel \<Rightarrow> 'o channel \<times> 'o callback list" where
  "reader_read order st d ch =
     (let ch1 = ch\<lparr>ch_in := ch_in ch @ d\<rparr>
      in if \<not> isHealthy ch1 then (reader_exit ch1, [])
         else if \<not> status_ok st
         then let (ch2, cbs) = failConnection order st ch1 in (reader_exit ch2, cbs)
         else (ch1\<lparr>ch_reader := Rd_parse\<rparr>, []))"

definition reader_parse ::
  "unpacker \<Rightarrow> ('o list \<Rightarrow> 'o list) \<Rightarrow> (nat \<Rightarrow> bool) \<Rightarrow> 'o channel \<Rightarrow> ('o channel \<times> 'o callback list) option" where
  "reader_parse up order alloc ch =
     (if \<not> isHealthy ch then Some (ch\<lparr>ch_reader := Rd_top\<rparr>, [])
      else do {
        (ps, reply, p1, rest) \<leftarrow> next_reply_bytes up alloc (ch_parser ch) (ch_in ch);
        let ch1 = ch\<lparr>ch_parser := p1, ch_in := rest\<rparr>;
        if ps = PS_kNeedMore then Some (ch1\<lparr>ch_reader := Rd_top\<rparr>, [])
        else if ps \<noteq> PS_kOk
        then Some (failConnection order (Status_ProtocolError ''bad redis reply'') (ch1\<lparr>ch_reader := Rd_top\<rparr>))
        else Some (dispatchReply order reply ch1)
      })"

section \<open>The channel as a state machine\<close>

inductive ch_step ::
  "unpacker \<Rightarrow> ('o list \<Rightarrow> 'o list) \<Rightarrow> 'o channel \<Rightarrow> 'o callback list \<Rightarrow> 'o channel \<Rightarrow> bool"
  for up :: unpacker and order :: "'o list \<Rightarrow> 'o list"
where
  run_begins: "ch_run ch = Run_top \<Longrightarrow> ch_step up order ch [] (run_begin fd ch)"
| run_connects: "ch_run ch = Run_connecting \<Longrightarrow> ch_step up order ch [] (run_connected st ch)"
| run_writes: "ch_run ch = Run_write \<Longrightarrow> ch_step up order ch [] (writer_round ch)"
| run_write_wakes: "ch_run ch = Run_write_wait \<Longrightarrow> ch_step up order ch [] (ch_woken Run_write ch)"
| run_written: "ch_run ch = Run_writing \<Longrightarrow> writer_written order st ch = (ch', cbs) \<Longrightarrow> ch_step up order ch cbs ch'"
| run_joins: "ch_run ch = Run_join \<Longrightarrow> ch_step up order ch [] (join_round ch)"
| run_join_wakes: "ch_run ch = Run_join_wait \<Longrightarrow> ch_step up order ch [] (ch_woken Run_join ch)"
| run_retries: "ch_run ch = Run_sleep \<Longrightarrow> ch_step up order ch [] (ch\<lparr>ch_run := Run_top\<rparr>)"
| reader_loops: "ch_reader ch = Rd_top \<Longrightarrow> ch_step up order ch [] (reader_round ch)"
| reader_reads: "ch_reader ch = Rd_reading \<Longrightarrow> status_ok st \<longleftrightarrow> d \<noteq> [] \<Longrightarrow>
    reader_read order st d ch = (ch', cbs) \<Longrightarrow> ch_step up order ch cbs ch'"
| reader_parses: "ch_reader ch = Rd_parse \<Longrightarrow> reader_parse up order alloc ch = Some (ch', cbs) \<Longrightarrow>
    ch_step up order ch cbs ch'"

text \<open>What the rest of the worker does to a channel.\<close>

inductive ch_env :: "('o list \<Rightarrow> 'o list) \<Rightarrow> 'o channel \<Rightarrow> 'o callback list \<Rightarrow> 'o channel \<Rightarrow> bool"
  for order :: "'o list \<Rightarrow> 'o list"
where
  env_submit: "submit own d n ch = (ok, ch') \<Longrightarrow> ch_env order ch [] ch'"
| env_detach: "ch_env order ch [] (detachOwner own ch)"
| env_start: "ch_env order ch [] (ch_start cfg ch)"
| env_halt: "ch_halt order ch = (ch', cbs) \<Longrightarrow> ch_env order ch cbs ch'"

definition ch_next :: "unpacker \<Rightarrow> ('o list \<Rightarrow> 'o list) \<Rightarrow> 'o channel \<Rightarrow> 'o channel \<Rightarrow> bool" where
  "ch_next up order ch ch' \<longleftrightarrow> (\<exists>cbs. ch_step up order ch cbs ch' \<or> ch_env order ch cbs ch')"

definition ch_init :: "'o channel \<Rightarrow> bool" where
  "ch_init ch \<longleftrightarrow> ch = BackendChannel_new"

section \<open>The queue of expected replies\<close>

definition ch_sent :: "'o channel \<Rightarrow> 'o option list" where
  "ch_sent ch = concat (map (\<lambda>p. replicate (unat (pb_remaining p)) (pb_owner p)) (ch_pending ch))"

definition ch_unsent :: "'o channel \<Rightarrow> 'o option list" where
  "ch_unsent ch = concat (map (\<lambda>b. replicate (unat (rb_count b)) (rb_owner b)) (ch_write ch))"

text \<open>Counts are positive, \<^verbatim>\<open>queued_commands_\<close> is their sum modulo \<open>2 ^ 64\<close>.\<close>

definition ch_queue_ok :: "'o channel \<Rightarrow> bool" where
  "ch_queue_ok ch \<longleftrightarrow>
     ch_queued ch = sum_list (map (\<lambda>p. ucast (pb_remaining p)) (ch_pending ch)) +
       sum_list (map (\<lambda>b. ucast (rb_count b)) (ch_write ch)) \<and>
     list_all (\<lambda>p. pb_remaining p \<noteq> 0) (ch_pending ch) \<and> list_all (\<lambda>b. rb_count b \<noteq> 0) (ch_write ch) \<and>
     (ch_state ch \<noteq> CS_kReady \<longrightarrow> ch_pending ch = [] \<and> ch_write ch = [])"

text \<open>Which states go with which suspension points, and what a wait stands for.\<close>

definition ch_control_ok :: "'o channel \<Rightarrow> bool" where
  "ch_control_ok ch \<longleftrightarrow>
     (case ch_run ch of
        Run_none \<Rightarrow> ch_state ch = CS_kStopped \<and> ch_reader_done ch
      | Run_top \<Rightarrow> ch_state ch \<in> {CS_kConnecting, CS_kClosing} \<and> ch_reader_done ch
      | Run_connecting \<Rightarrow> ch_state ch = CS_kConnecting \<and> ch_reader_done ch
      | Run_write \<Rightarrow> ch_state ch \<in> {CS_kReady, CS_kClosing}
      | Run_write_wait \<Rightarrow> ch_state ch \<in> {CS_kReady, CS_kClosing} \<and>
          (\<not> sg_pending (ch_signal ch) \<longrightarrow> ch_state ch = CS_kReady \<and> ch_write ch = [])
      | Run_writing \<Rightarrow> ch_state ch \<in> {CS_kReady, CS_kClosing}
      | Run_join \<Rightarrow> ch_state ch = CS_kClosing
      | Run_join_wait \<Rightarrow> ch_state ch = CS_kClosing \<and> (\<not> sg_pending (ch_signal ch) \<longrightarrow> \<not> ch_reader_done ch)
      | Run_sleep \<Rightarrow> ch_state ch \<in> {CS_kConnecting, CS_kClosing} \<and> ch_reader_done ch) \<and>
     (ch_reader_done ch \<longleftrightarrow> ch_reader ch = Rd_none) \<and>
     (ch_state ch = CS_kReady \<longrightarrow> \<not> ch_reader_done ch) \<and>
     (ch_stop ch \<longrightarrow> ch_state ch \<noteq> CS_kReady) \<and>
     (ch_run ch \<in> {Run_none, Run_top, Run_sleep} \<longrightarrow> cs_fd (ch_socket ch) < 0)"

text \<open>
  Whether an owner has detached since its command, the \<open>k\<close>-th, was handed over, and whom
  the reply to the \<open>k\<close>-th command is for.
\<close>

definition gone :: "('o option \<times> nat) list \<Rightarrow> 'o option \<Rightarrow> nat \<Rightarrow> bool" where
  "gone log own k \<longleftrightarrow> (\<exists>n > k. (own, n) \<in> set log)"

definition addressee :: "('o option \<times> nat) list \<Rightarrow> 'o option list \<Rightarrow> nat \<Rightarrow> 'o option" where
  "addressee log started k = (if gone log (started ! k) k then None else started ! k)"

text \<open>The replies still expected are for the owners of the commands that have had none, in order.\<close>

definition ch_history_ok :: "'o channel \<Rightarrow> bool" where
  "ch_history_ok ch \<longleftrightarrow>
     (ch_state ch = CS_kReady \<longrightarrow>
        ch_answered ch \<le> length (ch_started ch) \<and>
        (\<forall>(own, n) \<in> set (ch_detached ch). n \<le> length (ch_started ch)) \<and>
        ch_sent ch = map (addressee (ch_detached ch) (ch_started ch)) [ch_answered ch..<length (ch_started ch)])"

definition ch_inv :: "'o channel \<Rightarrow> bool" where
  "ch_inv ch \<longleftrightarrow> ch_queue_ok ch \<and> ch_control_ok ch \<and> ch_history_ok ch"

lemmas ch_inv_defs = ch_inv_def ch_queue_ok_def ch_control_ok_def ch_history_ok_def

lemma run_begin_eq:
  "run_begin fd ch =
     (if ch_stop ch then ch\<lparr>ch_state := CS_kStopped, ch_run := Run_none\<rparr>
      else if fd < 0 then run_connected (Status_IoError ''socket failed'') (ch\<lparr>ch_state := CS_kConnecting\<rparr>)
      else ch\<lparr>ch_state := CS_kConnecting, ch_socket := sock_reset fd (ch_socket ch), ch_run := Run_connecting\<rparr>)"
  by (simp add: run_begin_def connectOnce_def)

lemmas ch_op_defs = submit_def failConnection_def ch_start_def ch_halt_def
  run_cleanup_def run_connected_def run_begin_eq ch_wait_def ch_woken_def writer_round_def writer_written_def
  join_round_def reader_exit_def reader_round_def reader_read_def ch_notify_def isHealthy_def isStopped_def

lemma sock_fd_simps [simp]:
  "cs_fd (sock_shutdown s) = cs_fd s" "cs_fd (sock_close s) < 0" "cs_fd (sock_reset fd s) = fd"
  by (simp_all add: sock_shutdown_def sock_close_def sock_reset_def)

lemma ch_inv_new: "ch_inv BackendChannel_new"
  by (simp add: ch_inv_defs BackendChannel_new_def CoSocket_new_def)

section \<open>Each operation keeps the invariant\<close>

lemma ch_control_cong:
  assumes "ch_control_ok ch" and "ch_run ch' = ch_run ch" and "ch_state ch' = ch_state ch"
    and "ch_reader_done ch' = ch_reader_done ch" and "ch_reader ch' = ch_reader ch"
    and "ch_signal ch' = ch_signal ch" and "ch_write ch' = ch_write ch" and "ch_stop ch' = ch_stop ch"
    and "ch_socket ch' = ch_socket ch"
  shows "ch_control_ok ch'"
  using assms(1) unfolding ch_control_ok_def assms(2-9) .

lemma ch_lists_simps [simp]:
  "ch_sent (ch_notify ch) = ch_sent ch" "ch_unsent (ch_notify ch) = ch_unsent ch"
  by (simp_all add: ch_notify_def ch_sent_def ch_unsent_def)

lemma submit_law:
  assumes "ch_inv ch" and "submit own d n ch = (ok, ch')"
  shows "ch_inv ch' \<and> isHealthy ch' = isHealthy ch \<and> (ok \<longleftrightarrow> isHealthy ch \<and> n \<noteq> 0) \<and>
    ch_sent ch' = ch_sent ch \<and> ch_unsent ch' = ch_unsent ch @ (if ok then replicate (unat n) own else [])"
proof (cases "ok")
  case False
  then have "ch' = ch" "\<not> (isHealthy ch \<and> n \<noteq> 0)" using assms(2) by (auto simp: submit_def split: if_splits)
  with assms(1) False show ?thesis by simp
next
  case True
  then have h: "isHealthy ch" "n \<noteq> 0" and ch': "ch' = ch_notify (ch\<lparr>
        ch_write := ch_write ch @ [\<lparr>rb_owner = own, rb_bytes = d, rb_count = n\<rparr>],
        ch_queued := ch_queued ch + ucast n\<rparr>)"
    using assms(2) by (auto simp: submit_def split: if_splits)
  have "ch_queue_ok ch'" "ch_control_ok ch'" "ch_history_ok ch'"
    using assms(1) h unfolding ch'
    by (auto simp: ch_inv_defs ch_notify_def isHealthy_def ch_sent_def split: run_point.splits)
  with h True show ?thesis
    by (simp add: ch_inv_def ch' isHealthy_def ch_notify_def ch_sent_def ch_unsent_def)
qed

lemma detach_writes_spec:
  "detach_writes own bs q = (bs', q') \<Longrightarrow>
     bs' = filter (\<lambda>b. rb_owner b \<noteq> own) bs \<and>
     q' = q - sum_list (map (\<lambda>b. ucast (rb_count b)) bs) + sum_list (map (\<lambda>b. ucast (rb_count b)) bs')"
proof (induction bs arbitrary: q bs' q')
  case (Cons b bs)
  then show ?case by (cases "rb_owner b = own") (force split: prod.splits)+
qed simp

lemma detach_lists:
  "ch_sent (detachOwner own ch) = map (nullify own) (ch_sent ch)"
  "ch_unsent (detachOwner own ch) = filter (\<lambda>x. x \<noteq> own) (ch_unsent ch)"
proof -
  obtain bs q where d: "detach_writes own (ch_write ch) (ch_queued ch) = (bs, q)" by fastforce
  have bs: "bs = filter (\<lambda>b. rb_owner b \<noteq> own) (ch_write ch)" using detach_writes_spec [OF d] by simp
  have "concat (map (\<lambda>b. replicate (unat (rb_count b)) (rb_owner b)) (filter (\<lambda>b. rb_owner b \<noteq> own) xs)) =
      filter (\<lambda>x. x \<noteq> own) (concat (map (\<lambda>b. replicate (unat (rb_count b)) (rb_owner b)) xs))"
    for xs :: "'a request_batch list"
    by (induction xs) auto
  then show "ch_unsent (detachOwner own ch) = filter (\<lambda>x. x \<noteq> own) (ch_unsent ch)"
    using d bs by (simp add: detachOwner_def ch_unsent_def)
  show "ch_sent (detachOwner own ch) = map (nullify own) (ch_sent ch)"
    using d by (simp add: detachOwner_def ch_sent_def map_concat comp_def detach_pending_def nullify_def if_distrib
        cong: if_cong)
qed

lemma pb_remaining_detach [simp]: "pb_remaining (detach_pending own p) = pb_remaining p"
  by (simp add: detach_pending_def)

lemma addressee_detach:
  "k < length started \<Longrightarrow>
     addressee (log @ [(own, length started)]) started k = nullify own (addressee log started k)"
  by (auto simp: addressee_def gone_def nullify_def)

lemma addressee_append:
  assumes "\<forall>(own, n) \<in> set log. n \<le> length started" and "k \<le> length started"
  shows "map (addressee log (started @ xs)) [k..<length (started @ xs)] = map (addressee log started) [k..<length started] @ xs"
proof -
  have "addressee log (started @ xs) j = addressee log started j" if "j < length started" for j
    using that by (simp add: addressee_def nth_append)
  moreover have "addressee log (started @ xs) (length started + j) = xs ! j" for j
    using assms(1) by (auto simp: addressee_def gone_def nth_append)
  then have "map (addressee log (started @ xs)) [length started..<length started + length xs] = xs"
    by (intro nth_equalityI) simp_all
  moreover have "[k..<length (started @ xs)] = [k..<length started] @ [length started..<length started + length xs]"
    using upt_add_eq_append [OF assms(2), of "length xs"] by simp
  ultimately show ?thesis by simp
qed

lemma detach_law:
  assumes "ch_inv ch"
  shows "ch_inv (detachOwner own ch) \<and> isHealthy (detachOwner own ch) = isHealthy ch \<and>
    ch_sent (detachOwner own ch) = map (nullify own) (ch_sent ch) \<and>
    ch_unsent (detachOwner own ch) = filter (\<lambda>x. x \<noteq> own) (ch_unsent ch)"
proof -
  obtain bs q where d: "detach_writes own (ch_write ch) (ch_queued ch) = (bs, q)" by fastforce
  note bs = detach_writes_spec [OF d]
  have ch': "detachOwner own ch = ch\<lparr>ch_write := bs, ch_queued := q, ch_pending := map (detach_pending own) (ch_pending ch),
      ch_detached := ch_detached ch @ [(own, length (ch_started ch))]\<rparr>"
    using d by (simp add: detachOwner_def)
  have "ch_queue_ok (detachOwner own ch)"
    using assms bs unfolding ch' ch_inv_def ch_queue_ok_def by (auto simp: list_all_iff comp_def)
  moreover have "ch_control_ok (detachOwner own ch)"
    using assms bs unfolding ch' by (auto simp: ch_inv_def ch_control_ok_def split: run_point.splits)
  moreover have "ch_history_ok (detachOwner own ch)"
    using assms addressee_detach [of _ "ch_started ch" "ch_detached ch" own]
    unfolding ch_inv_def ch_history_ok_def detach_lists by (auto simp: ch')
  ultimately show ?thesis using detach_lists [of own ch] by (simp add: ch_inv_def) (simp add: ch' isHealthy_def)
qed

lemma batch_owners_set: "ch_queue_ok ch \<Longrightarrow> set (batch_owners ch) = {own. Some own \<in> set (ch_sent ch @ ch_unsent ch)}"
proof -
  assume "ch_queue_ok ch"
  then have "set (ch_sent ch) = pb_owner ` set (ch_pending ch)" "set (ch_unsent ch) = rb_owner ` set (ch_write ch)"
    by (auto simp: ch_sent_def ch_unsent_def ch_queue_ok_def list_all_iff unat_eq_0 split: if_splits)
  then show ?thesis by (auto simp: batch_owners_def set_map_filter)
qed

lemma fail_law:
  assumes "hash_order order" and "ch_inv ch" and "failConnection order st ch = (ch', cbs)"
  shows "ch_inv ch' \<and> \<not> isHealthy ch' \<and>
    (if isHealthy ch
     then \<exists>os. cbs = map (\<lambda>own. Failure own st) os \<and> distinct os \<and>
            set os = {own. Some own \<in> set (ch_sent ch @ ch_unsent ch)}
     else ch' = ch \<and> cbs = [])"
proof (cases "isHealthy ch")
  case False
  with assms show ?thesis by (simp add: failConnection_def isHealthy_def)
next
  case True
  then have eq: "ch' = (ch_notify (ch\<lparr>ch_state := CS_kClosing, ch_socket := sock_shutdown (ch_socket ch)\<rparr>))
      \<lparr>ch_write := [], ch_pending := [], ch_queued := 0\<rparr>"
    "cbs = map (\<lambda>own. Failure own st) (order (batch_owners ch))"
    using assms(3) by (simp_all add: failConnection_def isHealthy_def Let_def)
  have "ch_inv ch'"
    using assms(2) True unfolding eq(1)
    by (auto simp: ch_inv_defs ch_notify_def isHealthy_def split: run_point.splits)
  moreover have "distinct (order (batch_owners ch))"
    "set (order (batch_owners ch)) = {own. Some own \<in> set (ch_sent ch @ ch_unsent ch)}"
    using assms(1,2) batch_owners_set [of ch] by (simp_all add: hash_order_def ch_inv_def)
  ultimately show ?thesis using True eq by (auto simp: isHealthy_def ch_notify_def)
qed

lemma dispatched_history:
  assumes "ch_history_ok ch" and "ch_state ch = CS_kReady" and "ch_sent ch = x # xs"
  shows "ch_answered ch < length (ch_started ch)"
    and "x = addressee (ch_detached ch) (ch_started ch) (ch_answered ch)"
    and "xs = map (addressee (ch_detached ch) (ch_started ch)) [Suc (ch_answered ch)..<length (ch_started ch)]"
proof -
  have e: "x # xs = map (addressee (ch_detached ch) (ch_started ch)) [ch_answered ch..<length (ch_started ch)]"
    using assms by (simp add: ch_history_ok_def)
  show lt: "ch_answered ch < length (ch_started ch)"
  proof (rule ccontr)
    assume "\<not> ch_answered ch < length (ch_started ch)"
    then have "[ch_answered ch..<length (ch_started ch)] = []" by simp
    with e show False by (simp only: list.map list.distinct)
  qed
  from e show "x = addressee (ch_detached ch) (ch_started ch) (ch_answered ch)"
    and "xs = map (addressee (ch_detached ch) (ch_started ch)) [Suc (ch_answered ch)..<length (ch_started ch)]"
    unfolding upt_conv_Cons [OF lt] list.map list.inject by blast+
qed

lemma dispatch_law:
  assumes "ch_inv ch" and "ch_sent ch = x # xs" and "dispatchReply order r ch = (ch', cbs)"
  shows "ch_inv ch' \<and> isHealthy ch' = isHealthy ch \<and> ch_sent ch' = xs \<and> ch_unsent ch' = ch_unsent ch \<and>
    cbs = (case x of None \<Rightarrow> [] | Some own \<Rightarrow> [Reply own r])"
proof -
  obtain p ps where p: "ch_pending ch = p # ps" using assms(2) by (cases "ch_pending ch") (auto simp: ch_sent_def)
  have q: "ch_queue_ok ch" and rem: "pb_remaining p \<noteq> 0" and rdy: "ch_state ch = CS_kReady"
    using assms(1) p by (auto simp: ch_inv_def ch_queue_ok_def)
  note u = ucast_pred [OF rem]
  define ps' where "ps' = (if pb_remaining p - 1 = 0 then ps else p\<lparr>pb_remaining := pb_remaining p - 1\<rparr> # ps)"
  have ch': "ch' = ch\<lparr>ch_pending := ps', ch_queued := ch_queued ch - 1, ch_answered := ch_answered ch + 1\<rparr>"
    "cbs = (case pb_owner p of None \<Rightarrow> [] | Some own \<Rightarrow> [Reply own r])"
    using assms(3) p by (simp_all add: dispatchReply_def ps'_def Let_def)
  have "ch_sent ch = pb_owner p # replicate (unat (pb_remaining p) - 1) (pb_owner p) @
      concat (map (\<lambda>p. replicate (unat (pb_remaining p)) (pb_owner p)) ps)"
    using u(3) p by (cases "unat (pb_remaining p)") (simp_all add: ch_sent_def)
  with assms(2) have x: "x = pb_owner p"
    "xs = replicate (unat (pb_remaining p - 1)) (pb_owner p) @
      concat (map (\<lambda>p. replicate (unat (pb_remaining p)) (pb_owner p)) ps)"
    by (auto simp: u(2))
  then have sent: "ch_sent ch' = xs" unfolding ch' by (simp add: ch_sent_def ps'_def)
  have sum: "sum_list (map (\<lambda>p. ucast (pb_remaining p) :: u64) ps') =
      ucast (pb_remaining p - 1) + sum_list (map (\<lambda>p. ucast (pb_remaining p)) ps)"
    by (simp add: ps'_def)
  have "list_all (\<lambda>p. pb_remaining p \<noteq> 0) ps'" using q p by (simp add: ps'_def ch_queue_ok_def)
  then have "ch_queue_ok ch'"
    using q p rdy unfolding ch' ch_queue_ok_def by (simp add: sum u(1))
  moreover have "ch_control_ok ch'"
    using assms(1) unfolding ch' by (auto simp: ch_inv_def intro: ch_control_cong [of ch])
  moreover have "ch_history_ok ch'"
  proof -
    have h: "ch_history_ok ch" using assms(1) by (simp add: ch_inv_def)
    note c = dispatched_history [OF h rdy assms(2)]
    with h sent rdy show ?thesis by (simp add: ch_history_ok_def ch'(1))
  qed
  ultimately show ?thesis using sent x ch' by (simp add: ch_inv_def) (simp add: isHealthy_def ch_unsent_def)
qed

lemma dispatch_empty:
  assumes "ch_inv ch" and "ch_sent ch = []"
  shows "dispatchReply order r ch = failConnection order (Status_ProtocolError ''unexpected redis reply'') ch"
proof -
  have "ch_pending ch = []"
    using assms by (cases "ch_pending ch") (auto simp: ch_inv_def ch_queue_ok_def ch_sent_def unat_eq_0)
  then show ?thesis by (simp add: dispatchReply_def)
qed

text \<open>Every operation that does not touch the queues, in one form.\<close>

lemma ch_inv_control:
  assumes "ch_inv ch" and "ch_write ch' = ch_write ch" and "ch_pending ch' = ch_pending ch"
    and "ch_queued ch' = ch_queued ch" and "ch_state ch' = ch_state ch" and "ch_started ch' = ch_started ch"
    and "ch_answered ch' = ch_answered ch" and "ch_detached ch' = ch_detached ch" and "ch_control_ok ch'"
  shows "ch_inv ch'"
  using assms by (simp add: ch_inv_def ch_queue_ok_def ch_history_ok_def ch_sent_def)

lemma start_inv: "ch_inv ch \<Longrightarrow> ch_inv (ch_start cfg ch)"
  by (auto simp: ch_inv_defs ch_start_def isStopped_def split: run_point.splits)

lemma notify_inv: "ch_inv ch \<Longrightarrow> ch_inv (ch_notify ch)"
  by (rule ch_inv_control [of ch])
    (auto simp: ch_notify_def ch_inv_def ch_control_ok_def split: run_point.splits)

lemma stop_inv:
  assumes "ch_inv ch" and "ch_state ch \<noteq> CS_kReady" and "cs_fd sk = cs_fd (ch_socket ch)"
  shows "ch_inv (ch\<lparr>ch_stop := True, ch_socket := sk\<rparr>)"
  using assms(1)
  by (rule ch_inv_control) (use assms in \<open>auto simp: ch_inv_def ch_control_ok_def split: run_point.splits\<close>)

lemma halt_inv:
  assumes "hash_order order" and "ch_inv ch" and "ch_halt order ch = (ch', cbs)"
  shows "ch_inv ch'"
proof -
  obtain ch1 where f: "failConnection order (Status_Closed ''backend stopped'') ch = (ch1, cbs)"
    by (cases "failConnection order (Status_Closed ''backend stopped'') ch")
      (use assms(3) in \<open>auto simp: ch_halt_def failConnection_def batch_owners_def Let_def split: if_splits\<close>)
  have "failConnection order (Status_Closed ''backend stopped'') (ch\<lparr>ch_stop := True\<rparr>) = (ch1\<lparr>ch_stop := True\<rparr>, cbs)"
    using f by (auto simp: failConnection_def batch_owners_def ch_notify_def Let_def split: if_splits)
  then have ch': "ch' = ch_notify (ch1\<lparr>ch_stop := True, ch_socket := sock_shutdown (ch_socket ch1)\<rparr>)"
    using assms(3) by (simp add: ch_halt_def)
  from fail_law [OF assms(1,2) f] have "ch_inv ch1" "ch_state ch1 \<noteq> CS_kReady" by (simp_all add: isHealthy_def)
  then show ?thesis unfolding ch' by (intro notify_inv stop_inv) simp_all
qed

section \<open>The channel keeps its promise to the sessions\<close>

interpretation chan: reply_fifo
  "\<lambda>ch. hash_order order \<and> ch_inv ch" isHealthy ch_sent ch_unsent submit "dispatchReply order" detachOwner
  "failConnection order"
  for order
proof (unfold_locales, goal_cases)
  case (1 ch)
  then show ?case by (simp add: ch_inv_def ch_queue_ok_def isHealthy_def ch_sent_def ch_unsent_def)
next
  case (2 ch own d n ok ch')
  then show ?case using submit_law [of ch own d n ok ch'] by simp
next
  case (3 ch x xs r ch' cbs)
  then show ?case using dispatch_law [of ch x xs order r ch' cbs] by simp
next
  case (4 ch r)
  then show ?case using dispatch_empty [of ch order r] by blast
next
  case (5 ch own)
  then show ?case using detach_law [of ch own] by simp
next
  case (6 ch st ch' cbs)
  then show ?case using fail_law [of order ch st ch' cbs] by (simp del: set_append)
qed

section \<open>The coroutines keep the invariant\<close>

lemma cleanup_inv:
  assumes "ch_inv ch" and "ch_reader_done ch" and "ch_state ch \<in> {CS_kConnecting, CS_kClosing}"
  shows "ch_inv (run_cleanup ch)"
  using assms(1)
  by (rule ch_inv_control) (use assms in \<open>auto simp: run_cleanup_def ch_inv_def ch_control_ok_def\<close>)

lemma connected_inv:
  assumes "ch_inv ch" and "ch_reader_done ch" and "ch_state ch = CS_kConnecting"
  shows "ch_inv (run_connected st ch)"
proof (cases "status_ok st \<and> \<not> ch_stop ch")
  case True
  with assms show ?thesis
    by (simp add: run_connected_def ch_inv_def ch_queue_ok_def ch_control_ok_def ch_history_ok_def ch_sent_def)
next
  case False
  with cleanup_inv [OF assms(1,2)] assms(3) show ?thesis by (auto simp: run_connected_def)
qed

lemma begin_inv:
  assumes "ch_inv ch" and "ch_run ch = Run_top"
  shows "ch_inv (run_begin fd ch)"
proof (cases "ch_stop ch")
  case True
  with assms show ?thesis
    by (auto simp: run_begin_eq ch_inv_def ch_queue_ok_def ch_control_ok_def ch_history_ok_def)
next
  case False
  let ?ch1 = "ch\<lparr>ch_state := CS_kConnecting\<rparr>"
  have 1: "ch_inv ?ch1" "ch_reader_done ?ch1" "ch_state ?ch1 = CS_kConnecting"
    using assms by (auto simp: ch_inv_def ch_queue_ok_def ch_control_ok_def ch_history_ok_def)
  have "ch_inv (?ch1\<lparr>ch_socket := sk, ch_run := Run_connecting\<rparr>)" for sk
    using 1(1) by (rule ch_inv_control) (use 1 in \<open>auto simp: ch_inv_def ch_control_ok_def\<close>)
  with connected_inv [OF 1] False show ?thesis by (simp add: run_begin_eq Let_def)
qed

lemma wait_inv:
  assumes "ch_inv ch"
    and "ch_control_ok (ch\<lparr>ch_signal := signal_clear (ch_signal ch), ch_run := back\<rparr>)"
    and "\<not> sg_pending (ch_signal ch) \<Longrightarrow> ch_control_ok (ch\<lparr>ch_run := suspended\<rparr>)"
  shows "ch_inv (ch_wait back suspended ch)"
  using assms(1) by (rule ch_inv_control) (use assms(2,3) in \<open>auto simp: ch_wait_def\<close>)

lemma woken_inv:
  assumes "ch_inv ch"
    and "ch_control_ok (ch\<lparr>ch_signal := signal_clear (ch_signal ch), ch_run := back\<rparr>)"
  shows "ch_inv (ch_woken back ch)"
  using assms(1) by (rule ch_inv_control) (use assms(2) in \<open>auto simp: ch_woken_def\<close>)

lemma write_batch_inv:
  assumes "ch_inv ch" and "ch_state ch = CS_kReady" and "ch_write ch = b # bs"
  shows "ch_inv (ch\<lparr>ch_write := bs,
    ch_pending := ch_pending ch @ [\<lparr>pb_owner = rb_owner b, pb_remaining = rb_count b\<rparr>], ch_run := Run_writing,
    ch_wire := ch_wire ch @ [b]\<rparr>)" (is "ch_inv ?ch'")
proof -
  have "ch_queue_ok ?ch'" using assms by (simp add: ch_inv_def ch_queue_ok_def ac_simps)
  moreover have "ch_control_ok ?ch'" using assms by (auto simp: ch_inv_def ch_control_ok_def)
  moreover have "ch_history_ok ?ch'"
  proof -
    let ?xs = "replicate (unat (rb_count b)) (rb_owner b)"
    have h: "ch_answered ch \<le> length (ch_started ch)" "\<forall>(own, n) \<in> set (ch_detached ch). n \<le> length (ch_started ch)"
      "ch_sent ch = map (addressee (ch_detached ch) (ch_started ch)) [ch_answered ch..<length (ch_started ch)]"
      using assms(1,2) by (simp_all add: ch_inv_def ch_history_ok_def)
    have "ch_started ?ch' = ch_started ch @ ?xs" "ch_sent ?ch' = ch_sent ch @ ?xs" by (simp_all add: ch_sent_def)
    with addressee_append [OF h(2,1), of ?xs] h show ?thesis unfolding ch_history_ok_def by auto
  qed
  ultimately show ?thesis by (simp add: ch_inv_def)
qed

lemma writer_round_inv:
  assumes "ch_inv ch" and "ch_run ch = Run_write"
  shows "ch_inv (writer_round ch)"
proof (cases "isHealthy ch")
  case False
  then have "ch_inv (ch\<lparr>ch_run := Run_join\<rparr>)"
    using assms by (intro ch_inv_control [OF assms(1)]) (auto simp: ch_inv_def ch_control_ok_def isHealthy_def)
  with False show ?thesis by (simp add: writer_round_def)
next
  case True
  show ?thesis
  proof (cases "ch_write ch")
    case Nil
    have "ch_inv (ch_wait Run_write Run_write_wait ch)"
      using assms(1) by (rule wait_inv)
        (use assms True Nil in \<open>auto simp: ch_inv_def ch_control_ok_def isHealthy_def\<close>)
    with True Nil show ?thesis by (simp add: writer_round_def)
  next
    case (Cons b bs)
    with write_batch_inv [OF assms(1) _ Cons] True show ?thesis by (simp add: writer_round_def isHealthy_def)
  qed
qed

lemma reader_exit_inv:
  assumes "ch_inv ch" and "ch_state ch \<noteq> CS_kReady" and "ch_reader ch \<noteq> Rd_none"
  shows "ch_inv (reader_exit ch)"
  using assms(1)
  by (rule ch_inv_control)
    (use assms in \<open>auto simp: reader_exit_def ch_notify_def ch_inv_def ch_control_ok_def split: run_point.splits\<close>)

lemma input_inv: "ch_inv ch \<Longrightarrow> ch_inv (ch\<lparr>ch_parser := p, ch_in := inp\<rparr>)"
  by (rule ch_inv_control [of ch]) (auto simp: ch_inv_def intro: ch_control_cong [of ch])

lemma reader_point_inv:
  assumes "ch_inv ch" and "ch_reader ch \<noteq> Rd_none" and "pt \<noteq> Rd_none"
  shows "ch_inv (ch\<lparr>ch_parser := p, ch_in := inp, ch_reader := pt\<rparr>)"
  using assms(1)
  by (rule ch_inv_control)
    (use assms in \<open>auto simp: ch_inv_def ch_control_ok_def split: run_point.splits\<close>)

lemma written_inv:
  assumes "hash_order order" and "ch_inv ch" and "ch_run ch = Run_writing"
    and "writer_written order st ch = (ch', cbs)"
  shows "ch_inv ch'"
proof -
  have 1: "ch_inv (ch\<lparr>ch_run := Run_write\<rparr>)"
    using assms(2) by (rule ch_inv_control) (use assms in \<open>auto simp: ch_inv_def ch_control_ok_def\<close>)
  with assms(4) fail_law [OF assms(1) 1, of st ch' cbs] show ?thesis
    by (auto simp: writer_written_def Let_def split: if_splits)
qed

lemma join_inv:
  assumes "ch_inv ch" and "ch_run ch = Run_join"
  shows "ch_inv (join_round ch)"
proof (cases "ch_reader_done ch")
  case True
  have "ch_state ch = CS_kClosing" using assms by (simp add: ch_inv_def ch_control_ok_def)
  with True cleanup_inv [OF assms(1) True] show ?thesis by (simp add: join_round_def)
next
  case False
  have "ch_inv (ch_wait Run_join Run_join_wait ch)"
    using assms(1) by (rule wait_inv) (use assms False in \<open>auto simp: ch_inv_def ch_control_ok_def\<close>)
  with False show ?thesis by (simp add: join_round_def)
qed

lemma fail_keeps_reader: "failConnection order st ch = (ch', cbs) \<Longrightarrow> ch_reader ch' = ch_reader ch"
  by (auto simp: failConnection_def ch_notify_def Let_def split: if_splits)

lemma reader_read_inv:
  assumes "hash_order order" and "ch_inv ch" and "ch_reader ch = Rd_reading"
    and "reader_read order st d ch = (ch', cbs)"
  shows "ch_inv ch'"
proof -
  let ?ch1 = "ch\<lparr>ch_in := ch_in ch @ d\<rparr>"
  have 1: "ch_inv ?ch1" "ch_reader ?ch1 = Rd_reading"
    using input_inv [OF assms(2), where p = "ch_parser ch"] assms(3) by simp_all
  obtain ch2 cbs2 where f: "failConnection order st ?ch1 = (ch2, cbs2)" by fastforce
  have "ch_inv ch2" "ch_state ch2 \<noteq> CS_kReady" "ch_reader ch2 = Rd_reading"
    using fail_law [OF assms(1) 1(1) f] fail_keeps_reader [OF f] 1(2) by (simp_all add: isHealthy_def)
  then have "ch_inv (reader_exit ch2)" by (intro reader_exit_inv) simp_all
  moreover have "ch_inv (reader_exit ?ch1)" if "\<not> isHealthy ?ch1"
    using 1 that by (intro reader_exit_inv) (simp_all add: isHealthy_def)
  moreover have "ch_inv (?ch1\<lparr>ch_reader := Rd_parse\<rparr>)"
    using reader_point_inv [OF assms(2), where pt = Rd_parse and p = "ch_parser ch"] assms(3) by simp
  ultimately show ?thesis
    using assms(4) f by (auto simp: reader_read_def Let_def split: if_splits)
qed

lemma dispatch_inv:
  assumes "hash_order order" and "ch_inv ch" and "dispatchReply order r ch = (ch', cbs)"
  shows "ch_inv ch'"
proof (cases "ch_sent ch")
  case Nil
  with assms dispatch_empty [OF assms(2) Nil, of order r] fail_law [OF assms(1,2)] show ?thesis by auto
next
  case (Cons x xs)
  with dispatch_law [OF assms(2) Cons assms(3)] show ?thesis by simp
qed

lemma reader_parse_inv:
  assumes "hash_order order" and "ch_inv ch" and "ch_reader ch = Rd_parse"
    and "reader_parse up order alloc ch = Some (ch', cbs)"
  shows "ch_inv ch'"
proof -
  have top: "ch_inv (ch\<lparr>ch_parser := p, ch_in := inp, ch_reader := Rd_top\<rparr>)"
    and same: "ch_inv (ch\<lparr>ch_parser := p, ch_in := inp\<rparr>)" for p inp
    using reader_point_inv [OF assms(2), of Rd_top inp p] input_inv [OF assms(2)] assms(3)
    by simp_all
  show ?thesis
  proof (cases "isHealthy ch")
    case False
    with assms(4) top [of "ch_in ch" "ch_parser ch"] show ?thesis by (simp add: reader_parse_def)
  next
    case True
    then show ?thesis
      using assms(4) top fail_law [OF assms(1) top] dispatch_inv [OF assms(1) same]
      by (auto simp: reader_parse_def bind_Some_iff Let_def split: if_splits)
  qed
qed

lemma ch_step_inv:
  assumes "hash_order order" and "ch_inv ch" and "ch_step up order ch cbs ch'"
  shows "ch_inv ch'"
  using assms(3)
proof cases
  case (run_begins fd)
  then show ?thesis using begin_inv [OF assms(2)] by simp
next
  case (run_connects st)
  then have "ch_reader_done ch" "ch_state ch = CS_kConnecting" using assms(2) by (simp_all add: ch_inv_def ch_control_ok_def)
  with run_connects connected_inv [OF assms(2)] show ?thesis by simp
next
  case run_writes
  then show ?thesis using writer_round_inv [OF assms(2)] by simp
next
  case run_write_wakes
  then show ?thesis using woken_inv [OF assms(2), of Run_write] assms(2) by (auto simp: ch_inv_def ch_control_ok_def)
next
  case (run_written st)
  then show ?thesis using written_inv [OF assms(1,2)] by blast
next
  case run_joins
  then show ?thesis using join_inv [OF assms(2)] by simp
next
  case run_join_wakes
  then show ?thesis using woken_inv [OF assms(2), of Run_join] assms(2) by (auto simp: ch_inv_def ch_control_ok_def)
next
  case run_retries
  then have "ch_control_ok ch'" using assms(2) by (auto simp: ch_inv_def ch_control_ok_def)
  with run_retries show ?thesis by (intro ch_inv_control [OF assms(2)]) simp_all
next
  case reader_loops
  then show ?thesis
    using reader_point_inv [OF assms(2), where pt = Rd_reading and p = "ch_parser ch" and inp = "ch_in ch"] reader_exit_inv [OF assms(2)]
    by (simp add: reader_round_def isHealthy_def)
next
  case (reader_reads st d)
  then show ?thesis using reader_read_inv [OF assms(1,2)] by blast
next
  case (reader_parses alloc)
  then show ?thesis using reader_parse_inv [OF assms(1,2)] by blast
qed

lemma ch_env_inv:
  assumes "hash_order order" and "ch_inv ch" and "ch_env order ch cbs ch'"
  shows "ch_inv ch'"
  using assms(3) by cases (use assms submit_law detach_law start_inv halt_inv in blast)+

text \<open>The state machine of a channel, with its invariant (for any visiting order).\<close>

interpretation chan_sys: invariant_system ch_init "ch_next up order" "\<lambda>ch. hash_order order \<longrightarrow> ch_inv ch"
  for up order
  by unfold_locales (auto simp: ch_init_def ch_inv_new ch_next_def intro: ch_step_inv ch_env_inv)

section \<open>Properties\<close>

lemma reach_ch_inv: "reach ch_init (ch_next up order) ch \<Longrightarrow> hash_order order \<Longrightarrow> ch_inv ch"
  using chan_sys.reach_inv by blast

lemma hash_order_remdups: "hash_order remdups"
  by (simp add: hash_order_def)

text \<open>
  C5 Replies go to the right owner: on a connection the \<open>k\<close>-th reply that Redis sends is
  delivered to the owner of the \<open>k\<close>-th command written to it, whatever was submitted,
  detached and sent in between. It is delivered to nobody exactly when that command had no
  owner or its owner has detached since the command was written, and it never shifts the
  replies behind it.
\<close>

theorem channel_replies_in_order:
  assumes "hash_order order" and "reach ch_init (ch_next up order) ch" and "isHealthy ch"
    and "ch_sent ch \<noteq> []" and "dispatchReply order r ch = (ch', cbs)"
  shows "ch_answered ch < length (ch_started ch) \<and> ch_answered ch' = ch_answered ch + 1 \<and>
    ch_sent ch' = tl (ch_sent ch) \<and>
    cbs = (case ch_started ch ! ch_answered ch of
             None \<Rightarrow> []
           | Some own \<Rightarrow> if \<exists>n > ch_answered ch. (Some own, n) \<in> set (ch_detached ch) then [] else [Reply own r])"
proof -
  have inv: "ch_inv ch" using reach_ch_inv [OF assms(2,1)] .
  obtain x xs where x: "ch_sent ch = x # xs" using assms(4) by (cases "ch_sent ch") auto
  have h: "ch_history_ok ch" "ch_state ch = CS_kReady" using inv assms(3) by (simp_all add: ch_inv_def isHealthy_def)
  note e = dispatched_history(1,2) [OF h x]
  have "ch_pending ch \<noteq> []" using x by (auto simp: ch_sent_def)
  then have "ch_answered ch' = ch_answered ch + 1"
    using assms(5) by (auto simp: dispatchReply_def Let_def split: list.splits)
  with dispatch_law [OF inv x assms(5)] e x show ?thesis
    by (auto simp: addressee_def gone_def split: option.splits)
qed

text \<open>
  C17 Accounting: \<^verbatim>\<open>queued_commands_\<close>, which selects the least loaded channel, is always
  the number of replies the channel still expects (modulo \<open>2 ^ 64\<close>), and a channel that
  is not ready holds no command.
\<close>

theorem channel_accounting:
  assumes "hash_order order" and "reach ch_init (ch_next up order) ch"
  shows "ch_queued ch = of_nat (length (ch_sent ch @ ch_unsent ch)) \<and>
    (\<not> isHealthy ch \<longrightarrow> ch_write ch = [] \<and> ch_pending ch = [] \<and> ch_queued ch = 0)"
proof -
  have q: "ch_queue_ok ch" using reach_ch_inv [OF assms(2,1)] by (simp add: ch_inv_def)
  have "length (ch_sent ch) = sum_list (map (\<lambda>p. unat (pb_remaining p)) (ch_pending ch))"
    "length (ch_unsent ch) = sum_list (map (\<lambda>b. unat (rb_count b)) (ch_write ch))"
    by (simp_all add: ch_sent_def ch_unsent_def length_concat comp_def)
  then show ?thesis using q by (auto simp: ch_queue_ok_def isHealthy_def sum_ucast)
qed

text \<open>
  C15 A failing connection tells every session that waits for a reply, exactly once, and
  no other, drops everything it held and is no longer used; a connection already failed
  does nothing.
\<close>

theorem channel_failure_notifies_once:
  assumes "hash_order order" and "reach ch_init (ch_next up order) ch"
    and "failConnection order st ch = (ch', cbs)"
  shows "distinct cbs \<and> set cbs = {Failure own st |own. 0 < owed (ch_sent ch @ ch_unsent ch) own} \<and>
    \<not> isHealthy ch' \<and> ch_sent ch' = [] \<and> ch_unsent ch' = [] \<and> failConnection order st' ch' = (ch', [])"
proof -
  have inv: "hash_order order \<and> ch_inv ch" using reach_ch_inv [OF assms(2,1)] assms(1) by simp
  note f = chan.fail_law [OF inv assms(3)]
  have "\<exists>own. cb = Failure own st" if "cb \<in> set cbs" for cb
    using f that by (auto split: if_splits)
  then have "set cbs = {Failure own st |own. 0 < owed (ch_sent ch @ ch_unsent ch) own}"
    using chan.owed_fail(2) [OF inv assms(3)] by blast
  moreover have "failConnection order st' ch' = (ch', [])"
    using f by (simp add: failConnection_def isHealthy_def)
  ultimately show ?thesis
    using f chan.idle [of order ch'] chan.owed_fail(3) [OF inv assms(3)] by simp
qed

text \<open>
  C16 No command is left behind and no exit is missed: while the writer is suspended in
  \<^verbatim>\<open>wait\<close> without a pending notification, the connection is up and there is nothing to
  write; while \<^verbatim>\<open>run\<close> waits so for the reader, the reader is still running.
\<close>

theorem channel_no_lost_wakeup:
  assumes "hash_order order" and "reach ch_init (ch_next up order) ch" and "\<not> sg_pending (ch_signal ch)"
  shows "(ch_run ch = Run_write_wait \<longrightarrow> isHealthy ch \<and> ch_write ch = [] \<and> ch_unsent ch = []) \<and>
    (ch_run ch = Run_join_wait \<longrightarrow> ch_reader ch \<noteq> Rd_none)"
proof -
  have "ch_control_ok ch" using reach_ch_inv [OF assms(2,1)] by (simp add: ch_inv_def)
  with assms(3) show ?thesis by (auto simp: ch_control_ok_def isHealthy_def ch_unsent_def)
qed

text \<open>
  C18 The descriptor is closed or replaced only when no coroutine uses it: in a step that
  closes one the reader has exited and the writer is not inside \<^verbatim>\<open>writeAll\<close>.
\<close>

theorem channel_socket_not_closed_in_use:
  assumes "hash_order order" and "reach ch_init (ch_next up order) ch" and "ch_next up order ch ch'"
    and "closed_fds (cs_calls (ch_socket ch')) \<noteq> closed_fds (cs_calls (ch_socket ch))"
  shows "ch_reader ch = Rd_none \<and> ch_run ch \<in> {Run_top, Run_connecting, Run_join}"
proof -
  have c: "ch_control_ok ch" using reach_ch_inv [OF assms(2,1)] by (simp add: ch_inv_def)
  have fail: "closed_fds (cs_calls (ch_socket ch2)) = closed_fds (cs_calls (ch_socket ch1))"
    if "failConnection order st ch1 = (ch2, cbs)" for st ch1 ch2 cbs
    using that by (auto simp: failConnection_def ch_notify_def sock_op_fds Let_def split: if_splits)
  have disp: "closed_fds (cs_calls (ch_socket ch2)) = closed_fds (cs_calls (ch_socket ch1))"
    if "dispatchReply order r ch1 = (ch2, cbs)" for r ch1 ch2 cbs
    using that fail by (auto simp: dispatchReply_def Let_def split: list.splits)
  from assms(3) obtain cbs where "ch_step up order ch cbs ch' \<or> ch_env order ch cbs ch'"
    by (auto simp: ch_next_def)
  then show ?thesis
  proof
    assume "ch_env order ch cbs ch'"
    then have False
      by cases (use assms(4) fail in \<open>auto simp: submit_def detachOwner_def ch_start_def ch_halt_def ch_notify_def
          sock_op_fds split: if_splits prod.splits\<close>)
    then show ?thesis ..
  next
    assume "ch_step up order ch cbs ch'"
    then show ?thesis
      by cases (use assms(4) c fail disp in \<open>auto simp: ch_control_ok_def ch_op_defs(6-) reader_parse_def
          bind_Some_iff Let_def split: if_splits list.splits prod.splits\<close>)
  qed
qed

end
