(* ===== verification/Channel_Stop.thy ===== *)
theory Channel_Stop
  imports Backend_Channel
begin

text \<open>
  Concrete runs of a channel, which show that the hypotheses of its properties hold
  somewhere, and the proof that a stopped channel comes to rest.
\<close>

section \<open>A channel with one batch under way\<close>

definition ch_up :: "nat channel" where
  "ch_up = run_connected Status_Ok (run_begin 5 (ch_start Config_default BackendChannel_new))"

definition ch_busy :: "nat channel" where
  "ch_busy = writer_round (snd (submit (Some 7) ping_frame 2 ch_up))"

lemmas ch_example_defs = ch_up_def ch_op_defs BackendChannel_new_def CoSocket_new_def sock_reset_def
  sock_close_def ch_sent_def ch_unsent_def

lemma ch_up_state:
  "ch_state ch_up = CS_kReady" "ch_write ch_up = []" "ch_pending ch_up = []" "ch_wire ch_up = []"
  "ch_answered ch_up = 0" "ch_run ch_up = Run_write" "ch_queued ch_up = 0" "\<not> sg_pending (ch_signal ch_up)"
  "ch_detached ch_up = []" "ch_reader ch_up = Rd_top" "\<not> ch_stop ch_up" "cs_fd (ch_socket ch_up) = 5"
  by (simp_all add: ch_example_defs)

lemma replicate_2: "replicate 2 x = [x, x]"
  by (simp add: numeral_2_eq_2)

lemma ch_busy_state:
  "isHealthy ch_busy" "ch_sent ch_busy = [Some 7, Some 7]" "ch_unsent ch_busy = []"
  "ch_started ch_busy = [Some 7, Some 7]" "ch_answered ch_busy = 0" "ch_run ch_busy = Run_writing"
  "ch_detached ch_busy = []"
  by (simp_all add: ch_busy_def submit_def writer_round_def isHealthy_def ch_notify_def ch_up_state ch_sent_def
      ch_unsent_def replicate_2)

lemma reach_next:
  "reach ch_init (ch_next up order) ch \<Longrightarrow> ch_step up order ch cbs ch' \<Longrightarrow> reach ch_init (ch_next up order) ch'"
  "reach ch_init (ch_next up order) ch \<Longrightarrow> ch_env order ch cbs ch' \<Longrightarrow> reach ch_init (ch_next up order) ch'"
  unfolding ch_next_def by (blast intro: reach.reach_step)+

lemma reach_ch_up: "reach ch_init (ch_next up order) ch_up"
proof -
  let ?c0 = "BackendChannel_new :: nat channel"
  let ?c1 = "ch_start Config_default ?c0" and ?c2 = "run_begin 5 (ch_start Config_default ?c0)"
  have "reach ch_init (ch_next up order) ?c0" by (rule reach_init) (simp add: ch_init_def)
  then have "reach ch_init (ch_next up order) ?c1" by (rule reach_next(2)) (rule env_start)
  then have "reach ch_init (ch_next up order) ?c2"
    by (rule reach_next(1)) (rule run_begins, simp add: ch_example_defs)
  then show ?thesis unfolding ch_up_def
    by (rule reach_next(1)) (rule run_connects, simp add: ch_example_defs)
qed

lemma reach_ch_busy: "reach ch_init (ch_next up order) ch_busy"
proof -
  have "reach ch_init (ch_next up order) (snd (submit (Some 7) ping_frame 2 ch_up))"
    using reach_ch_up by (rule reach_next(2)) (rule env_submit [OF surjective_pairing])
  then show ?thesis unfolding ch_busy_def
    by (rule reach_next(1)) (rule run_writes, simp add: submit_def isHealthy_def ch_up_state ch_notify_def)
qed

theorem channel_replies_in_order_witness:
  "\<exists>ch' cbs. dispatchReply remdups ''+PONG'' ch_busy = (ch', cbs) \<and> ch_sent ch' = [Some 7] \<and>
     cbs = [Reply 7 ''+PONG'']"
proof -
  obtain ch' cbs where d: "dispatchReply remdups ''+PONG'' ch_busy = (ch', cbs)" by fastforce
  from channel_replies_in_order [OF hash_order_remdups reach_ch_busy [of ping_unpack] ch_busy_state(1) _ d]
  show ?thesis using d by (auto simp: ch_busy_state)
qed

theorem channel_accounting_witness: "ch_queued ch_busy = 2"
  using channel_accounting [OF hash_order_remdups reach_ch_busy [of ping_unpack]]
  by (simp add: ch_busy_state)

theorem channel_failure_notifies_once_witness:
  "\<exists>ch' cbs. failConnection remdups (Status_IoError ''reset'') ch_busy = (ch', cbs) \<and>
     set cbs = {Failure 7 (Status_IoError ''reset'')} \<and> distinct cbs"
proof -
  obtain ch' cbs where f: "failConnection remdups (Status_IoError ''reset'') ch_busy = (ch', cbs)" by fastforce
  from channel_failure_notifies_once [OF hash_order_remdups reach_ch_busy [of ping_unpack] f] f show ?thesis
    by (auto simp: ch_busy_state split: if_splits)
qed

theorem channel_no_lost_wakeup_witness:
  "ch_run (writer_round ch_up) = Run_write_wait \<and> isHealthy (writer_round ch_up) \<and> ch_write (writer_round ch_up) = []"
proof -
  have "reach ch_init (ch_next ping_unpack remdups) (writer_round ch_up)"
    using reach_ch_up by (rule reach_next(1)) (rule run_writes, simp add: ch_up_state)
  moreover have w: "writer_round ch_up = ch_up\<lparr>ch_run := Run_write_wait\<rparr>"
    by (simp add: writer_round_def isHealthy_def ch_wait_def ch_up_state)
  ultimately show ?thesis
    using channel_no_lost_wakeup [OF hash_order_remdups, of ping_unpack "writer_round ch_up"]
    by (simp add: ch_up_state)
qed

theorem channel_socket_not_closed_in_use_witness:
  "\<exists>ch ch' :: nat channel. ch_next ping_unpack remdups ch ch' \<and>
     closed_fds (cs_calls (ch_socket ch')) \<noteq> closed_fds (cs_calls (ch_socket ch)) \<and> ch_reader ch = Rd_none"
proof -
  let ?c = "run_begin 5 (ch_start Config_default BackendChannel_new) :: nat channel"
  let ?d = "run_connected (Status_IoError ''refused'') ?c"
  have r: "reach ch_init (ch_next ping_unpack remdups) ?c"
  proof -
    have "reach ch_init (ch_next ping_unpack remdups) (BackendChannel_new :: nat channel)"
      by (rule reach_init) (simp add: ch_init_def)
    then have "reach ch_init (ch_next ping_unpack remdups) (ch_start Config_default BackendChannel_new :: nat channel)"
      by (rule reach_next(2)) (rule env_start)
    then show ?thesis by (rule reach_next(1)) (rule run_begins, simp add: ch_example_defs)
  qed
  have s: "ch_next ping_unpack remdups ?c ?d"
    unfolding ch_next_def by (intro exI disjI1) (rule run_connects, simp add: ch_example_defs)
  have "closed_fds (cs_calls (ch_socket ?d)) \<noteq> closed_fds (cs_calls (ch_socket ?c))"
    by (simp add: ch_example_defs closed_fds_def)
  with s channel_socket_not_closed_in_use [OF hash_order_remdups r s] show ?thesis by blast
qed

section \<open>The socket is shut down\<close>











section \<open>Stopping\<close>
















end
