(* ===== verification/Backend_Pool.thy ===== *)
theory Backend_Pool
  imports Backend_Channel
begin

text \<open>
  \<^verbatim>\<open>BackendPool\<close> of \<^verbatim>\<open>src/backend_pool.cpp\<close>: the channels of a worker, as a list; a
  \<^verbatim>\<open>BackendChannel*\<close> is a position in it (the vector never changes after construction).
  \<^verbatim>\<open>stop\<close> makes calls into the sessions between the channels and is with them in
  \<^verbatim>\<open>Proxy_System\<close>.
\<close>

type_synonym 'o pool = "'o channel list"

definition BackendPool_new :: "config \<Rightarrow> 'o pool" where
  "BackendPool_new cfg = replicate (nat (cf_backend_conns cfg)) BackendChannel_new"

definition pool_start :: "config \<Rightarrow> 'o pool \<Rightarrow> 'o pool" where
  "pool_start cfg chs = map (ch_start cfg) chs"

definition pool_isStopped :: "'o pool \<Rightarrow> bool" where
  "pool_isStopped chs \<longleftrightarrow> list_all isStopped chs"

definition pool_detachOwner :: "'o option \<Rightarrow> 'o pool \<Rightarrow> 'o pool" where
  "pool_detachOwner own chs = map (detachOwner own) chs"

text \<open>The loop over the channels from position \<open>i\<close> on; \<open>best\<close> is the best one so far.\<close>

fun select_loop :: "'o channel list \<Rightarrow> nat \<Rightarrow> (nat \<times> 'o channel) option \<Rightarrow> nat option" where
  "select_loop [] i best = map_option fst best"
| "select_loop (ch # chs) i best =
     select_loop chs (i + 1)
       (if isHealthy ch \<and> (case best of None \<Rightarrow> True | Some (_, b) \<Rightarrow> ch_queued ch < ch_queued b)
        then Some (i, ch) else best)"

text \<open>A position outside the vector is a dangling pointer.\<close>

definition select :: "nat option \<Rightarrow> 'o pool \<Rightarrow> nat option option" where
  "select cur chs =
     (case cur of
        Some i \<Rightarrow> if i < length chs then Some (if isHealthy (chs ! i) then Some i else None) else None
      | None \<Rightarrow> Some (select_loop chs 0 None))"

definition pool_submit ::
  "'o option \<Rightarrow> nat option \<Rightarrow> bytes \<Rightarrow> u32 \<Rightarrow> 'o pool \<Rightarrow> (nat option \<times> 'o pool) option" where
  "pool_submit own cur bytes n chs =
     (case select cur chs of
        None \<Rightarrow> None
      | Some None \<Rightarrow> Some (None, chs)
      | Some (Some i) \<Rightarrow>
          let (ok, ch) = submit own bytes n (chs ! i)
          in Some (if ok then Some i else None, chs[i := ch]))"

definition channelForTest :: "nat \<Rightarrow> 'o pool \<Rightarrow> nat option" where
  "channelForTest i chs = (if length chs \<le> i then None else Some i)"

section \<open>Selection\<close>

definition best_ok :: "'o channel list \<Rightarrow> (nat \<times> 'o channel) option \<Rightarrow> bool" where
  "best_ok pre best \<longleftrightarrow>
     (case best of
        None \<Rightarrow> \<forall>ch \<in> set pre. \<not> isHealthy ch
      | Some (i, b) \<Rightarrow> i < length pre \<and> pre ! i = b \<and> isHealthy b \<and>
          (\<forall>j < length pre. isHealthy (pre ! j) \<longrightarrow> ch_queued b \<le> ch_queued (pre ! j)) \<and>
          (\<forall>j < i. isHealthy (pre ! j) \<longrightarrow> ch_queued b < ch_queued (pre ! j)))"

lemma best_ok_snoc:
  assumes "best_ok pre best"
  shows "best_ok (pre @ [ch])
    (if isHealthy ch \<and> (case best of None \<Rightarrow> True | Some (_, b) \<Rightarrow> ch_queued ch < ch_queued b)
     then Some (length pre, ch) else best)"
proof (cases best)
  case None
  with assms show ?thesis by (auto simp: best_ok_def nth_append less_Suc_eq dest: nth_mem)
next
  case (Some ib)
  obtain i b where best: "best = Some (i, b)" using Some by (cases ib) simp
  have b: "i < length pre" "pre ! i = b" "isHealthy b"
    "\<And>j. j < length pre \<Longrightarrow> isHealthy (pre ! j) \<Longrightarrow> ch_queued b \<le> ch_queued (pre ! j)"
    "\<And>j. j < i \<Longrightarrow> isHealthy (pre ! j) \<Longrightarrow> ch_queued b < ch_queued (pre ! j)"
    using assms best by (auto simp: best_ok_def)
  show ?thesis
  proof (cases "isHealthy ch \<and> ch_queued ch < ch_queued b")
    case True
    then have "ch_queued ch < ch_queued (pre ! j)" if "j < length pre" "isHealthy (pre ! j)" for j
      using b(4) [OF that] by (auto intro: less_le_trans)
    with True best show ?thesis by (auto simp: best_ok_def nth_append less_Suc_eq intro: less_imp_le)
  next
    case False
    with best b show ?thesis by (auto simp: best_ok_def nth_append less_Suc_eq not_less)
  qed
qed

lemma select_loop_spec:
  assumes "best_ok pre best"
  shows "\<exists>best'. best_ok (pre @ chs) best' \<and> select_loop chs (length pre) best = map_option fst best'"
  using assms
proof (induction chs arbitrary: pre best)
  case Nil
  then show ?case by auto
next
  case (Cons ch chs)
  from Cons.IH [OF best_ok_snoc [OF Cons.prems, of ch]] show ?case by simp
qed

lemma select_cases:
  "(case select None chs of
      Some None \<Rightarrow> \<forall>ch \<in> set chs. \<not> isHealthy ch
    | Some (Some i) \<Rightarrow> best_ok chs (Some (i, chs ! i))
    | None \<Rightarrow> False)"
proof -
  have "best_ok [] (None :: (nat \<times> 'a channel) option)" by (simp add: best_ok_def)
  from select_loop_spec [OF this, of chs] obtain best where
    "best_ok chs best" "select None chs = Some (map_option fst best)"
    by (auto simp: select_def)
  then show ?thesis by (cases best) (auto simp: best_ok_def)
qed

text \<open>
  C19 Selection: a session that waits for replies stays on its channel, or gets none when
  that channel is down; otherwise it gets a healthy channel with the fewest queued
  commands, the first of them, whenever any channel is healthy.
\<close>

theorem select_least_loaded:
  "(i < length chs \<longrightarrow> select (Some i) chs = Some (if isHealthy (chs ! i) then Some i else None)) \<and>
   (case select None chs of
      None \<Rightarrow> False
    | Some None \<Rightarrow> \<not> (\<exists>ch \<in> set chs. isHealthy ch)
    | Some (Some k) \<Rightarrow> k < length chs \<and> isHealthy (chs ! k) \<and>
        list_all (\<lambda>j. isHealthy (chs ! j) \<longrightarrow>
          ch_queued (chs ! k) \<le> ch_queued (chs ! j) \<and> (j < k \<longrightarrow> ch_queued (chs ! k) < ch_queued (chs ! j)))
          [0..<length chs])"
  using select_cases [of chs]
  by (auto simp: select_def best_ok_def list_all_iff split: option.splits)

theorem select_least_loaded_witness:
  "select None [BackendChannel_new\<lparr>ch_state := CS_kReady, ch_queued := 3\<rparr>,
     (BackendChannel_new\<lparr>ch_state := CS_kReady, ch_queued := 1\<rparr> :: nat channel), BackendChannel_new] = Some (Some 1) \<and>
   select (Some 0) [BackendChannel_new :: nat channel] = Some None"
  using select_least_loaded [of 0 "[BackendChannel_new :: nat channel]"]
  by (simp add: select_def isHealthy_def BackendChannel_new_def)

section \<open>Submission\<close>

lemma pool_submit_cases:
  assumes "list_all ch_inv chs" and "\<forall>i. cur = Some i \<longrightarrow> i < length chs"
  obtains (none) "pool_submit own cur bytes n chs = Some (None, chs)"
  | (some) i ch where "pool_submit own cur bytes n chs = Some (Some i, chs[i := ch])" "i < length chs"
      "isHealthy (chs ! i)" "submit own bytes n (chs ! i) = (True, ch)" "cur \<noteq> None \<Longrightarrow> cur = Some i"
proof -
  obtain k where k: "select cur chs = Some k" "\<And>i. k = Some i \<Longrightarrow> i < length chs \<and> isHealthy (chs ! i) \<and> (cur \<noteq> None \<longrightarrow> cur = Some i)"
  proof (cases cur)
    case None
    with that select_cases [of chs] show ?thesis by (auto simp: best_ok_def split: option.splits)
  next
    case (Some i)
    show ?thesis
      by (rule that [of "if isHealthy (chs ! i) then Some i else None"])
        (use assms(2) Some in \<open>auto simp: select_def split: if_splits\<close>)
  qed
  show thesis
  proof (cases k)
    case None
    with k none show ?thesis by (simp add: pool_submit_def)
  next
    case (Some i)
    obtain ok ch where s: "submit own bytes n (chs ! i) = (ok, ch)" by fastforce
    show ?thesis
    proof (cases ok)
      case True
      with k Some s some [of i ch] show ?thesis by (simp add: pool_submit_def)
    next
      case False
      then have "ch = chs ! i" using s by (auto simp: submit_def split: if_splits)
      with False k Some s none show ?thesis by (simp add: pool_submit_def)
    qed
  qed
qed

end
