(* ===== verification/Client_Session.thy ===== *)
theory Client_Session
  imports Backend_Pool Command_Rules
begin

text \<open>
  \<^verbatim>\<open>ClientSession\<close> of \<^verbatim>\<open>src/client_session.cpp\<close>: one client connection. Its reader
  coroutine parses commands, submits the accepted ones in batches and answers a refused
  one itself, in its place; its writer coroutine sends the replies.

  As in \<^verbatim>\<open>Backend_Channel\<close> buffers and chains are bytes, the signals are their flags and
  a coroutine is its suspension point. The session's address is the number \<open>self\<close>;
  operations that call the pool take and return it. \<open>pack\<close> is \<^verbatim>\<open>redis::PackError\<close> of
  the submodule, \<open>up\<close> its decoder. \<open>alloc k\<close> answers the allocations made while the
  \<open>k\<close>-th command of a batch is parsed. \<^const>\<open>None\<close> is a dangling pointer.
\<close>

section \<open>State\<close>

datatype ss_status = SS_kOpen | SS_kDraining | SS_kAborted

text \<open>
  Where \<^verbatim>\<open>readerLoop\<close> is: finished, at its head, in the loop that waits for outstanding
  replies before the error is queued (at its head or in \<^verbatim>\<open>wait\<close>), in the pause after a
  full batch, in \<^verbatim>\<open>readSome\<close>. Where \<^verbatim>\<open>writerLoop\<close> is: finished, at its head, in
  \<^verbatim>\<open>wait\<close>, in \<^verbatim>\<open>writeAll\<close>.
\<close>

datatype sr_point = SR_none | SR_top | SR_reply string | SR_reply_wait string | SR_pause | SR_reading

datatype sw_point = SW_none | SW_top | SW_wait | SW_writing

text \<open>
  The history of a session: what the client asked, in order (a command that was
  forwarded, or input that was refused with an error), and what was queued for it (a
  reply, or an error of the proxy).
\<close>

datatype request = Forwarded | Refused string

datatype answer = Answered bytes | Error string

fun answer_to :: "answer \<Rightarrow> request" where
  "answer_to (Answered r) = Forwarded"
| "answer_to (Error e) = Refused e"

fun answer_bytes :: "(string \<Rightarrow> bytes) \<Rightarrow> answer \<Rightarrow> bytes" where
  "answer_bytes pack (Answered r) = r"
| "answer_bytes pack (Error e) = pack e"

text \<open>
  The last three fields are the history: the requests, the answers, and the bytes handed
  to the client's socket. No operation reads them.
\<close>

record session =
  ss_socket :: co_socket
  ss_config :: config
  ss_parser :: resp_parser
  ss_in :: bytes
  ss_out :: "bytes list"
  ss_out_signal :: csignal
  ss_reply_signal :: csignal
  ss_current :: "nat option"
  ss_pending :: u64
  ss_state :: ss_status
  ss_final :: string
  ss_loops :: int
  ss_reader :: sr_point
  ss_writer :: sw_point
  ss_asked :: "request list"
  ss_given :: "answer list"
  ss_wrote :: bytes

definition ClientSession_new :: "int \<Rightarrow> config \<Rightarrow> session" where
  "ClientSession_new fd cfg =
     \<lparr>ss_socket = CoSocket_new fd, ss_config = cfg,
      ss_parser = parser_setLimits (cf_max_bulk_bytes cfg) (cf_max_array_elements cfg) 8
        (cf_max_request_bytes cfg) RespParser_new,
      ss_in = [], ss_out = [], ss_out_signal = signal_new, ss_reply_signal = signal_new, ss_current = None,
      ss_pending = 0, ss_state = SS_kOpen, ss_final = [], ss_loops = 0, ss_reader = SR_none,
      ss_writer = SW_none, ss_asked = [], ss_given = [], ss_wrote = []\<rparr>"

definition ss_start :: "session \<Rightarrow> session" where
  "ss_start s = s\<lparr>ss_loops := 2, ss_reader := SR_top, ss_writer := SW_top\<rparr>"

section \<open>Operations\<close>

definition notify_out :: "session \<Rightarrow> session" where
  "notify_out s = s\<lparr>ss_out_signal := signal_set (ss_out_signal s)\<rparr>"

definition notify_reply :: "session \<Rightarrow> session" where
  "notify_reply s = s\<lparr>ss_reply_signal := signal_set (ss_reply_signal s)\<rparr>"

definition ss_drain :: "string \<Rightarrow> session \<Rightarrow> session" where
  "ss_drain error s =
     (if ss_state s \<noteq> SS_kOpen then s
      else notify_out (s\<lparr>ss_state := SS_kDraining, ss_final := error,
             ss_socket := sock_shutdownRead (ss_socket s),
             ss_asked := ss_asked s @ (if error = [] then [] else [Refused error])\<rparr>))"

definition ss_abort :: "nat \<Rightarrow> session \<Rightarrow> nat pool \<Rightarrow> session \<times> nat pool" where
  "ss_abort self s chs =
     (if ss_state s = SS_kAborted then (s, chs)
      else (notify_reply (notify_out (s\<lparr>ss_state := SS_kAborted, ss_current := None, ss_pending := 0,
              ss_out := [], ss_socket := sock_shutdown (ss_socket s)\<rparr>)),
            pool_detachOwner (Some self) chs))"

text \<open>Whether \<^verbatim>\<open>on_finished_\<close> is called.\<close>

definition finishLoop :: "nat \<Rightarrow> session \<Rightarrow> nat pool \<Rightarrow> session \<times> nat pool \<times> bool" where
  "finishLoop self s chs =
     (let s1 = s\<lparr>ss_loops := ss_loops s - 1\<rparr>
      in if ss_loops s1 \<noteq> 0 then (s1, chs, False)
         else (s1\<lparr>ss_socket := sock_close (ss_socket s1)\<rparr>, pool_detachOwner (Some self) chs, True))"

definition reader_finish :: "nat \<Rightarrow> session \<Rightarrow> nat pool \<Rightarrow> session \<times> nat pool \<times> bool" where
  "reader_finish self s chs = finishLoop self (s\<lparr>ss_reader := SR_none\<rparr>) chs"

definition writer_finish :: "nat \<Rightarrow> session \<Rightarrow> nat pool \<Rightarrow> session \<times> nat pool \<times> bool" where
  "writer_finish self s chs = finishLoop self (s\<lparr>ss_writer := SW_none\<rparr>) chs"

definition submitBatch ::
  "nat \<Rightarrow> bytes \<Rightarrow> u32 \<Rightarrow> session \<Rightarrow> nat pool \<Rightarrow> (bool \<times> session \<times> nat pool) option" where
  "submitBatch self bytes command_count s chs =
     (if command_count = 0 then Some (True, s, chs)
      else case pool_submit (Some self) (ss_current s) bytes command_count chs of
        None \<Rightarrow> None
      | Some (None, chs1) \<Rightarrow> let (s1, chs2) = ss_abort self s chs1 in Some (False, s1, chs2)
      | Some (Some ch, chs1) \<Rightarrow>
          Some (True, s\<lparr>ss_current := Some ch, ss_pending := ss_pending s + ucast command_count\<rparr>, chs1))"

definition onBackendReply :: "bytes \<Rightarrow> session \<Rightarrow> session" where
  "onBackendReply reply s =
     (let s1 = s\<lparr>ss_pending := ss_pending s - 1\<rparr>;
          s2 = (if ss_pending s1 = 0 then notify_reply (s1\<lparr>ss_current := None\<rparr>) else s1)
      in notify_out (s2\<lparr>ss_out := ss_out s2 @ [reply], ss_given := ss_given s2 @ [Answered reply]\<rparr>))"

definition onBackendFailure :: "nat \<Rightarrow> session \<Rightarrow> nat pool \<Rightarrow> session \<times> nat pool" where
  "onBackendFailure self s chs = ss_abort self s chs"

section \<open>The reader\<close>

record batch =
  ba_parser :: resp_parser
  ba_parsed :: nat
  ba_consumed :: nat
  ba_rejected :: nat
  ba_error :: string
  ba_status :: ParseStatus

text \<open>The inner loop of \<^verbatim>\<open>readerLoop\<close>, from \<open>parsed\<close> commands in \<open>used\<close> bytes on.\<close>

function parse_batch ::
  "unpacker \<Rightarrow> (nat \<Rightarrow> nat \<Rightarrow> bool) \<Rightarrow> command_rules \<Rightarrow> nat \<Rightarrow> bytes \<Rightarrow> resp_parser \<Rightarrow> nat \<Rightarrow> nat \<Rightarrow> ParseStatus \<Rightarrow>
     batch option" where
  "parse_batch up alloc rules budget inp p parsed used ps0 =
     (if parsed < budget
      then (case peek_bytes up (alloc parsed) p inp used of
              None \<Rightarrow> None
            | Some (ps, out, p1) \<Rightarrow>
                if ps = PS_kNeedMore
                then Some \<lparr>ba_parser = p1, ba_parsed = parsed, ba_consumed = used, ba_rejected = 0,
                           ba_error = [], ba_status = ps\<rparr>
                else if ps \<noteq> PS_kOk
                then Some \<lparr>ba_parser = p1, ba_parsed = parsed, ba_consumed = used, ba_rejected = 0,
                           ba_error = (if ps = PS_kNoMemory then ''ERR proxy out of memory''
                                       else ''ERR proxy protocol error''), ba_status = ps\<rparr>
                else (case out of
                        None \<Rightarrow> None
                      | Some info \<Rightarrow>
                          let valid = validate rules (fi_command_name info) (fi_argc info)
                          in if \<not> status_ok valid
                             then Some \<lparr>ba_parser = p1, ba_parsed = parsed, ba_consumed = used,
                                        ba_rejected = fi_consumed info, ba_error = st_message valid,
                                        ba_status = ps\<rparr>
                             else parse_batch up alloc rules budget inp p1 (parsed + 1)
                                    (used + fi_consumed info) ps))
      else Some \<lparr>ba_parser = p, ba_parsed = parsed, ba_consumed = used, ba_rejected = 0,
                 ba_error = [], ba_status = ps0\<rparr>)"
  by pat_completeness auto
termination by (relation "measure (\<lambda>(_, _, _, budget, _, _, parsed, _, _). budget - parsed)") auto

declare parse_batch.simps [simp del]

text \<open>What follows the inner loop, up to the next suspension.\<close>

definition reader_submit ::
  "nat \<Rightarrow> batch \<Rightarrow> session \<Rightarrow> nat pool \<Rightarrow> (bool \<times> session \<times> nat pool) option" where
  "reader_submit self b s chs =
     (if 0 < ba_parsed b
      then submitBatch self (take (ba_consumed b) (ss_in s)) (of_nat (ba_parsed b))
             (s\<lparr>ss_in := drop (ba_consumed b) (ss_in s),
                ss_asked := ss_asked s @ replicate (ba_parsed b) Forwarded\<rparr>) chs
      else Some (True, s, chs))"

definition reader_after :: "nat \<Rightarrow> batch \<Rightarrow> session \<Rightarrow> nat pool \<Rightarrow> session \<times> nat pool \<times> bool" where
  "reader_after self b s chs =
     (if ba_error b \<noteq> []
      then if ba_rejected b = 0 then reader_finish self (ss_drain (ba_error b) s) chs
           else (s\<lparr>ss_in := drop (ba_rejected b) (ss_in s), ss_reader := SR_reply (ba_error b),
                   ss_asked := ss_asked s @ [Refused (ba_error b)]\<rparr>, chs, False)
      else if ba_status b = PS_kOk \<and> ss_in s \<noteq> [] then (s\<lparr>ss_reader := SR_pause\<rparr>, chs, False)
      else (s\<lparr>ss_reader := SR_reading\<rparr>, chs, False))"

definition ss_reader_top ::
  "unpacker \<Rightarrow> (nat \<Rightarrow> nat \<Rightarrow> bool) \<Rightarrow> command_rules \<Rightarrow> nat \<Rightarrow> session \<Rightarrow> nat pool \<Rightarrow>
     (session \<times> nat pool \<times> bool) option" where
  "ss_reader_top up alloc rules self s chs =
     (if ss_state s \<noteq> SS_kOpen then Some (reader_finish self s chs)
      else do {
        b \<leftarrow> parse_batch up alloc rules (cf_max_pipeline (ss_config s)) (ss_in s) (ss_parser s) 0 0 PS_kNeedMore;
        (ok, s1, chs1) \<leftarrow> reader_submit self b (s\<lparr>ss_parser := ba_parser b\<rparr>) chs;
        Some (if \<not> ok then reader_finish self s1 chs1 else reader_after self b s1 chs1)
      })"

text \<open>The loop that waits until the replies of earlier commands are queued.\<close>

definition ss_reader_reply ::
  "(string \<Rightarrow> bytes) \<Rightarrow> string \<Rightarrow> nat \<Rightarrow> session \<Rightarrow> nat pool \<Rightarrow> session \<times> nat pool \<times> bool" where
  "ss_reader_reply pack error self s chs =
     (if ss_state s = SS_kOpen \<and> ss_pending s \<noteq> 0
      then (if sg_pending (ss_reply_signal s)
            then s\<lparr>ss_reply_signal := signal_clear (ss_reply_signal s)\<rparr>
            else s\<lparr>ss_reader := SR_reply_wait error\<rparr>, chs, False)
      else if ss_state s \<noteq> SS_kOpen then reader_finish self s chs
      else (notify_out (s\<lparr>ss_out := ss_out s @ [pack error], ss_given := ss_given s @ [Error error],
                          ss_reader := SR_top\<rparr>), chs, False))"

definition ss_reader_woken :: "string \<Rightarrow> session \<Rightarrow> session" where
  "ss_reader_woken error s =
     s\<lparr>ss_reply_signal := signal_clear (ss_reply_signal s), ss_reader := SR_reply error\<rparr>"

text \<open>\<open>d\<close> is what \<^verbatim>\<open>readSome\<close> appended before it returned \<open>st\<close>.\<close>

definition ss_reader_read ::
  "status \<Rightarrow> bytes \<Rightarrow> nat \<Rightarrow> session \<Rightarrow> nat pool \<Rightarrow> session \<times> nat pool \<times> bool" where
  "ss_reader_read st d self s chs =
     (let s1 = s\<lparr>ss_in := ss_in s @ d\<rparr>
      in if ss_state s1 \<noteq> SS_kOpen then reader_finish self s1 chs
         else if \<not> status_ok st
         then (if st_code st = SC_kClosed
               then reader_finish self (ss_drain (if ss_in s1 = [] then [] else ''ERR proxy protocol error'') s1) chs
               else let (s2, chs2) = ss_abort self s1 chs in reader_finish self s2 chs2)
         else (s1\<lparr>ss_reader := SR_top\<rparr>, chs, False))"

section \<open>The writer\<close>

text \<open>At most 64 queued chains are joined and handed to \<^verbatim>\<open>writeAll\<close>.\<close>

definition writer_send :: "session \<Rightarrow> session" where
  "writer_send s =
     s\<lparr>ss_wrote := ss_wrote s @ concat (take 64 (ss_out s)), ss_out := drop 64 (ss_out s),
       ss_writer := SW_writing\<rparr>"

definition ss_writer_top ::
  "(string \<Rightarrow> bytes) \<Rightarrow> nat \<Rightarrow> session \<Rightarrow> nat pool \<Rightarrow> session \<times> nat pool \<times> bool" where
  "ss_writer_top pack self s chs =
     (if ss_state s = SS_kAborted then writer_finish self s chs
      else if ss_out s = []
      then if ss_state s = SS_kDraining \<and> ss_pending s = 0
           then if ss_final s = [] then writer_finish self s chs
                else (writer_send (s\<lparr>ss_out := [pack (ss_final s)], ss_given := ss_given s @ [Error (ss_final s)],
                                     ss_final := []\<rparr>), chs, False)
           else (if sg_pending (ss_out_signal s)
                 then s\<lparr>ss_out_signal := signal_clear (ss_out_signal s)\<rparr>
                 else s\<lparr>ss_writer := SW_wait\<rparr>, chs, False)
      else (writer_send s, chs, False))"

definition ss_writer_woken :: "session \<Rightarrow> session" where
  "ss_writer_woken s = s\<lparr>ss_out_signal := signal_clear (ss_out_signal s), ss_writer := SW_top\<rparr>"

definition ss_writer_written :: "status \<Rightarrow> nat \<Rightarrow> session \<Rightarrow> nat pool \<Rightarrow> session \<times> nat pool \<times> bool" where
  "ss_writer_written st self s chs =
     (if \<not> status_ok st then let (s1, chs1) = ss_abort self s chs in writer_finish self s1 chs1
      else (s\<lparr>ss_writer := SW_top\<rparr>, chs, False))"

text \<open>One step of either coroutine; the third component says that \<^verbatim>\<open>on_finished_\<close> was called.\<close>

inductive ss_step ::
  "unpacker \<Rightarrow> (string \<Rightarrow> bytes) \<Rightarrow> command_rules \<Rightarrow> nat \<Rightarrow> session \<Rightarrow> nat pool \<Rightarrow> session \<times> nat pool \<times> bool \<Rightarrow> bool"
  for up :: unpacker and pack :: "string \<Rightarrow> bytes" and rules :: command_rules and self :: nat
where
  sr_top: "ss_reader s = SR_top \<Longrightarrow> ss_reader_top up alloc rules self s chs = Some r \<Longrightarrow>
    ss_step up pack rules self s chs r"
| sr_reply: "ss_reader s = SR_reply e \<Longrightarrow> ss_step up pack rules self s chs (ss_reader_reply pack e self s chs)"
| sr_wakes: "ss_reader s = SR_reply_wait e \<Longrightarrow> ss_step up pack rules self s chs (ss_reader_woken e s, chs, False)"
| sr_resumes: "ss_reader s = SR_pause \<Longrightarrow> ss_step up pack rules self s chs (s\<lparr>ss_reader := SR_top\<rparr>, chs, False)"
| sr_reads: "ss_reader s = SR_reading \<Longrightarrow> status_ok st \<longleftrightarrow> d \<noteq> [] \<Longrightarrow>
    ss_step up pack rules self s chs (ss_reader_read st d self s chs)"
| sw_top: "ss_writer s = SW_top \<Longrightarrow> ss_step up pack rules self s chs (ss_writer_top pack self s chs)"
| sw_wakes: "ss_writer s = SW_wait \<Longrightarrow> ss_step up pack rules self s chs (ss_writer_woken s, chs, False)"
| sw_written: "ss_writer s = SW_writing \<Longrightarrow> ss_step up pack rules self s chs (ss_writer_written st self s chs)"

section \<open>What a batch holds\<close>

text \<open>
  The commands found from position \<open>used\<close> on: each is a complete frame where the one
  before it ended, and the rules accept it.
\<close>

fun batch_frames ::
  "unpacker \<Rightarrow> (nat \<Rightarrow> nat \<Rightarrow> bool) \<Rightarrow> command_rules \<Rightarrow> bytes \<Rightarrow> resp_parser \<Rightarrow> nat \<Rightarrow> nat \<Rightarrow> frame_info list \<Rightarrow>
     resp_parser \<Rightarrow> bool" where
  "batch_frames up alloc rules inp p k used [] p' = (p' = p)"
| "batch_frames up alloc rules inp p k used (info # infos) p' =
     (\<exists>p1. peek_bytes up (alloc k) p inp used = Some (PS_kOk, Some info, p1) \<and>
        status_ok (validate rules (fi_command_name info) (fi_argc info)) \<and>
        batch_frames up alloc rules inp p1 (Suc k) (used + fi_consumed info) infos p')"

text \<open>
  Why the loop ended, \<open>p\<close> being the parser then: the budget is used up, or the input at
  the end of the batch is incomplete, is no frame, or is a frame the rules refuse.
\<close>

definition batch_stop ::
  "unpacker \<Rightarrow> (nat \<Rightarrow> nat \<Rightarrow> bool) \<Rightarrow> command_rules \<Rightarrow> nat \<Rightarrow> bytes \<Rightarrow> resp_parser \<Rightarrow> batch \<Rightarrow> bool" where
  "batch_stop up alloc rules budget inp p b =
     (if ba_parsed b = budget then ba_parser b = p \<and> ba_error b = [] \<and> ba_rejected b = 0
      else case peek_bytes up (alloc (ba_parsed b)) p inp (ba_consumed b) of
        Some (PS_kOk, Some info, p1) \<Rightarrow>
          \<not> status_ok (validate rules (fi_command_name info) (fi_argc info)) \<and>
          ba_error b = st_message (validate rules (fi_command_name info) (fi_argc info)) \<and>
          ba_rejected b = fi_consumed info \<and> ba_status b = PS_kOk \<and> ba_parser b = p1
      | Some (ps, _, p1) \<Rightarrow>
          (ba_error b = [] \<longleftrightarrow> ps = PS_kNeedMore) \<and> ba_rejected b = 0 \<and> ba_status b = ps \<and> ba_parser b = p1
      | None \<Rightarrow> False)"

lemma parse_batch_spec:
  assumes "unpack_bounds up" and "parsed \<le> budget" and "used \<le> length inp"
  shows "\<exists>b infos p1. parse_batch up alloc rules budget inp p parsed used ps0 = Some b \<and>
    batch_frames up alloc rules inp p parsed used infos p1 \<and> batch_stop up alloc rules budget inp p1 b \<and>
    ba_parsed b = parsed + length infos \<and> ba_parsed b \<le> budget \<and>
    ba_consumed b = used + sum_list (map fi_consumed infos) \<and> ba_consumed b + ba_rejected b \<le> length inp"
  using assms(2,3)
proof (induction "budget - parsed" arbitrary: p parsed used ps0)
  case 0
  then show ?case
    by (subst parse_batch.simps) (auto simp: batch_stop_def intro!: exI [of _ "[]"])
next
  case (Suc n)
  then have lt: "parsed < budget" by simp
  obtain ps out p1 where pk: "peek_bytes up (alloc parsed) p inp used = Some (ps, out, p1)"
    using unpack_total [of up "alloc parsed" p "drop used inp"] Suc.prems(2) by (auto simp: peek_bytes_def)
  note ok = peek_bytes_ok [OF assms(1) pk]
  consider (stop) "ps \<noteq> PS_kOk"
    | (refused) info where "ps = PS_kOk" "out = Some info"
        "\<not> status_ok (validate rules (fi_command_name info) (fi_argc info))"
    | (accepted) info where "ps = PS_kOk" "out = Some info"
        "status_ok (validate rules (fi_command_name info) (fi_argc info))"
    using ok(1) by (cases out) auto
  then show ?case
  proof cases
    case stop
    then show ?thesis
      using lt pk Suc.prems
      by (subst parse_batch.simps) (cases ps; auto simp: batch_stop_def intro!: exI [of _ "[]"])
  next
    case refused
    then show ?thesis
      using lt pk Suc.prems ok(2) [of info]
      by (subst parse_batch.simps) (auto simp: batch_stop_def Let_def intro!: exI [of _ "[]"])
  next
    case accepted
    have step: "parse_batch up alloc rules budget inp p parsed used ps0 =
        parse_batch up alloc rules budget inp p1 (Suc parsed) (used + fi_consumed info) ps"
      using lt pk accepted by (subst parse_batch.simps) (simp add: Let_def)
    have n: "n = budget - Suc parsed" and le: "Suc parsed \<le> budget" "used + fi_consumed info \<le> length inp"
      using Suc.hyps(2) lt ok(2) [OF accepted(2)] by simp_all
    obtain b infos p2 where "parse_batch up alloc rules budget inp p1 (Suc parsed) (used + fi_consumed info) ps = Some b"
      "batch_frames up alloc rules inp p1 (Suc parsed) (used + fi_consumed info) infos p2"
      "batch_stop up alloc rules budget inp p2 b" "ba_parsed b = Suc parsed + length infos" "ba_parsed b \<le> budget"
      "ba_consumed b = used + fi_consumed info + sum_list (map fi_consumed infos)"
      "ba_consumed b + ba_rejected b \<le> length inp"
      using Suc.hyps(1) [OF n le, of p1 ps] by blast
    then show ?thesis
      using pk accepted by (intro exI [of _ b] exI [of _ "info # infos"] exI [of _ p2]) (simp add: step)
  qed
qed

text \<open>
  C4 What a session forwards: however the decoder answers and whichever allocation
  fails, the loop over the buffered input ends with a batch that is a run of complete
  command frames, each starting where the one before it ended and each accepted by the
  rules, at most as many as the budget allows; the batch ends only at the budget, at
  incomplete or malformed input, or at a refused command, whose error and length it
  reports, and everything it reports lies inside the buffer.
\<close>

theorem forwards_only_accepted_commands:
  assumes "unpack_bounds up"
  shows "\<exists>b infos p1. parse_batch up alloc rules budget inp p 0 0 PS_kNeedMore = Some b \<and>
    batch_frames up alloc rules inp p 0 0 infos p1 \<and> batch_stop up alloc rules budget inp p1 b \<and>
    ba_parsed b = length infos \<and> ba_parsed b \<le> budget \<and>
    ba_consumed b = sum_list (map fi_consumed infos) \<and> ba_consumed b + ba_rejected b \<le> length inp"
  using parse_batch_spec [OF assms, of 0 budget 0] by simp

lemma peek_bytes_ping:
  "14 \<le> p_max_frame_bytes p \<Longrightarrow> \<exists>p'. peek_bytes ping_unpack (\<lambda>_. True) p (ping_frame @ post) 0 =
     Some (PS_kOk, Some \<lparr>fi_consumed = 14, fi_command_name = ''PING'', fi_argc = 1\<rparr>, p')"
  using unpack_ping [of p post]
  by (auto simp: peek_bytes_def frame_of_def extractCommandInfo_def ping_value_def)

lemma ping_valid: "status_ok (validate CommandRules_Default ''PING'' 1)"
proof -
  have "(''PING'', 1, 2, True, False) \<in> set default_allowed" by (simp add: default_allowed_def)
  from default_entries_sane [OF this] show ?thesis by (simp add: status_ok_def Status_Ok_def)
qed

theorem forwards_only_accepted_commands_witness:
  "unpack_bounds ping_unpack \<and>
   (\<exists>b p1. parse_batch ping_unpack (\<lambda>_ _. True) CommandRules_Default 1 ping_frame RespParser_new 0 0 PS_kNeedMore = Some b \<and>
     batch_frames ping_unpack (\<lambda>_ _. True) CommandRules_Default ping_frame RespParser_new 0 0
       [\<lparr>fi_consumed = 14, fi_command_name = ''PING'', fi_argc = 1\<rparr>] p1 \<and>
     ba_parsed b = 1 \<and> ba_consumed b = 14 \<and> ba_error b = [])"
proof -
  obtain b infos p1 where
    b: "parse_batch ping_unpack (\<lambda>_ _. True) CommandRules_Default 1 ping_frame RespParser_new 0 0 PS_kNeedMore = Some b"
      "batch_frames ping_unpack (\<lambda>_ _. True) CommandRules_Default ping_frame RespParser_new 0 0 infos p1"
      "batch_stop ping_unpack (\<lambda>_ _. True) CommandRules_Default 1 ping_frame p1 b"
      "ba_parsed b = length infos" "ba_parsed b \<le> 1" "ba_consumed b = sum_list (map fi_consumed infos)"
    using forwards_only_accepted_commands [OF ping_unpack_ok(1), of "\<lambda>_ _. True" CommandRules_Default 1 ping_frame RespParser_new]
    by blast
  obtain p' where pk: "peek_bytes ping_unpack (\<lambda>_. True) RespParser_new ping_frame 0 =
      Some (PS_kOk, Some \<lparr>fi_consumed = 14, fi_command_name = ''PING'', fi_argc = 1\<rparr>, p')"
    using peek_bytes_ping [OF RespParser_new_limit, of "[]"] by auto
  show ?thesis
  proof (cases infos)
    case Nil
    with b pk ping_valid show ?thesis by (simp add: batch_stop_def)
  next
    case (Cons i rest)
    with b have "rest = []" by simp
    with Cons b pk show ?thesis using ping_unpack_ok(1) by (auto simp: batch_stop_def)
  qed
qed

end
