(* ===== verification/Session_Invariant.thy ===== *)
theory Session_Invariant
  imports Client_Session
begin

text \<open>
  The invariant of a session: how its suspension points go with its state, what its
  counters stand for, and that what it has been asked is, in order, what it has answered,
  what it waits for and what it still has to answer itself. Every operation keeps it. A
  second predicate links a session to the channels of the pool.
\<close>

section \<open>The invariant\<close>

text \<open>The refusal that is still to be queued.\<close>

fun held :: "sr_point \<Rightarrow> string \<Rightarrow> request list" where
  "held (SR_reply e) final = [Refused e]"
| "held (SR_reply_wait e) final = [Refused e]"
| "held _ final = (if final = [] then [] else [Refused final])"

abbreviation ss_held :: "session \<Rightarrow> request list" where
  "ss_held s \<equiv> held (ss_reader s) (ss_final s)"

definition ss_control_ok :: "session \<Rightarrow> bool" where
  "ss_control_ok s \<longleftrightarrow>
     cf_max_pipeline (ss_config s) < 2 ^ 32 \<and>
     ss_loops s = (if ss_reader s = SR_none then 0 else 1) + (if ss_writer s = SW_none then 0 else 1) \<and>
     (ss_state s = SS_kOpen \<longrightarrow> ss_reader s \<noteq> SR_none \<and> ss_writer s \<noteq> SW_none \<and> ss_final s = []) \<and>
     (ss_state s = SS_kDraining \<longrightarrow> ss_reader s = SR_none \<and>
        (ss_writer s = SW_none \<longrightarrow> ss_out s = [] \<and> ss_pending s = 0 \<and> ss_final s = [])) \<and>
     (ss_state s = SS_kAborted \<longrightarrow> ss_current s = None \<and> ss_pending s = 0 \<and> ss_out s = [])"

text \<open>A coroutine suspended in \<^verbatim>\<open>wait\<close> without a notification has nothing to do.\<close>

definition ss_signals_ok :: "session \<Rightarrow> bool" where
  "ss_signals_ok s \<longleftrightarrow>
     (ss_writer s = SW_wait \<longrightarrow> \<not> sg_pending (ss_out_signal s) \<longrightarrow>
        ss_out s = [] \<and> (ss_state s = SS_kOpen \<or> ss_state s = SS_kDraining \<and> ss_pending s \<noteq> 0)) \<and>
     (\<forall>e. ss_reader s = SR_reply_wait e \<longrightarrow> \<not> sg_pending (ss_reply_signal s) \<longrightarrow>
        ss_state s = SS_kOpen \<and> ss_pending s \<noteq> 0)"

definition ss_history_ok :: "(string \<Rightarrow> bytes) \<Rightarrow> session \<Rightarrow> bool" where
  "ss_history_ok pack s \<longleftrightarrow>
     (ss_state s \<noteq> SS_kAborted \<longrightarrow>
        (ss_current s = None \<longleftrightarrow> ss_pending s = 0) \<and>
        ss_asked s = map answer_to (ss_given s) @ replicate (unat (ss_pending s)) Forwarded @ ss_held s \<and>
        ss_wrote s @ concat (ss_out s) = concat (map (answer_bytes pack) (ss_given s)))"

definition ss_inv :: "(string \<Rightarrow> bytes) \<Rightarrow> session \<Rightarrow> bool" where
  "ss_inv pack s \<longleftrightarrow> ss_control_ok s \<and> ss_signals_ok s \<and> ss_history_ok pack s"

lemmas ss_inv_defs = ss_inv_def ss_control_ok_def ss_signals_ok_def ss_history_ok_def
lemmas ss_notify_defs = notify_out_def notify_reply_def

lemma ss_inv_new:
  "cf_max_pipeline cfg < 2 ^ 32 \<Longrightarrow> ss_inv pack (ss_start (ClientSession_new fd cfg))"
  by (simp add: ss_inv_defs ss_start_def ClientSession_new_def)

section \<open>The link to the pool\<close>

definition ch_owed :: "nat channel \<Rightarrow> nat \<Rightarrow> nat" where
  "ch_owed ch own = owed (ch_sent ch @ ch_unsent ch) own"

text \<open>The channel of a session owes it exactly the replies it counts, and no other owes it any.\<close>

definition ss_link :: "nat \<Rightarrow> session \<Rightarrow> nat pool \<Rightarrow> bool" where
  "ss_link self s chs \<longleftrightarrow>
     (\<forall>i. ss_current s = Some i \<longrightarrow> i < length chs) \<and>
     (\<forall>i < length chs. ch_owed (chs ! i) self = (if ss_current s = Some i then unat (ss_pending s) else 0))"

text \<open>What a session's step leaves as it is for the others.\<close>

definition pool_frame :: "nat \<Rightarrow> nat pool \<Rightarrow> nat pool \<Rightarrow> bool" where
  "pool_frame self chs chs' \<longleftrightarrow>
     length chs' = length chs \<and> list_all ch_inv chs' \<and>
     (\<forall>i < length chs. \<forall>own. own \<noteq> self \<longrightarrow> ch_owed (chs' ! i) own = ch_owed (chs ! i) own)"

lemma pool_frame_refl: "list_all ch_inv chs \<Longrightarrow> pool_frame self chs chs"
  by (simp add: pool_frame_def)

lemma pool_frame_trans: "pool_frame self a b \<Longrightarrow> pool_frame self b c \<Longrightarrow> pool_frame self a c"
  by (simp add: pool_frame_def)

lemma detach_owed:
  "ch_inv ch \<Longrightarrow> ch_owed (detachOwner (Some self) ch) own = (if own = self then 0 else ch_owed ch own)"
  using chan.owed_detach [of remdups ch self own] by (simp add: ch_owed_def hash_order_remdups)

lemma detach_frame:
  assumes "list_all ch_inv chs"
  shows "pool_frame self chs (pool_detachOwner (Some self) chs)"
    and "i < length chs \<Longrightarrow> ch_owed (pool_detachOwner (Some self) chs ! i) self = 0"
proof -
  have inv: "ch_inv (chs ! i)" if "i < length chs" for i using assms that by (simp add: list_all_length)
  show "pool_frame self chs (pool_detachOwner (Some self) chs)"
    using inv detach_law by (auto simp: pool_frame_def pool_detachOwner_def list_all_length detach_owed)
  show "i < length chs \<Longrightarrow> ch_owed (pool_detachOwner (Some self) chs ! i) self = 0"
    using inv by (simp add: pool_detachOwner_def detach_owed)
qed

lemma link_detached:
  assumes "list_all ch_inv chs" and "ss_current s = None"
  shows "ss_link self s (pool_detachOwner (Some self) chs)"
  using assms detach_frame(2) [OF assms(1)] by (simp add: ss_link_def pool_detachOwner_def)

lemma link_cong:
  "ss_link self s chs \<Longrightarrow> ss_current s' = ss_current s \<Longrightarrow> ss_pending s' = ss_pending s \<Longrightarrow> ss_link self s' chs"
  by (simp add: ss_link_def)

section \<open>Callbacks and ends\<close>

lemma onBackendReply_fields [simp]:
  "ss_pending (onBackendReply r s) = ss_pending s - 1"
  "ss_current (onBackendReply r s) = (if ss_pending s - 1 = 0 then None else ss_current s)"
  "ss_state (onBackendReply r s) = ss_state s" "ss_final (onBackendReply r s) = ss_final s"
  "ss_reader (onBackendReply r s) = ss_reader s" "ss_writer (onBackendReply r s) = ss_writer s"
  "ss_loops (onBackendReply r s) = ss_loops s" "ss_config (onBackendReply r s) = ss_config s"
  "ss_out (onBackendReply r s) = ss_out s @ [r]" "ss_given (onBackendReply r s) = ss_given s @ [Answered r]"
  "ss_asked (onBackendReply r s) = ss_asked s" "ss_wrote (onBackendReply r s) = ss_wrote s"
  "sg_pending (ss_out_signal (onBackendReply r s))"
  "sg_pending (ss_reply_signal (onBackendReply r s)) = (ss_pending s - 1 = 0 \<or> sg_pending (ss_reply_signal s))"
  "ss_held (onBackendReply r s) = ss_held s"
  by (simp_all add: onBackendReply_def ss_notify_defs signal_set_def Let_def)

lemma unat_pred: "n \<noteq> 0 \<Longrightarrow> unat n = Suc (unat (n - 1))" for n :: "'a::len word"
  by (metis Suc_pred' unat_gt_0 unat_minus_one)

lemma reply_inv:
  assumes "ss_inv pack s" and "ss_pending s \<noteq> 0"
  shows "ss_inv pack (onBackendReply r s)"
proof -
  have ab: "ss_state s \<noteq> SS_kAborted" using assms by (auto simp: ss_inv_def ss_control_ok_def)
  have "ss_control_ok (onBackendReply r s)"
    using assms ab by (cases "ss_state s") (simp_all add: ss_inv_def ss_control_ok_def)
  moreover have "ss_signals_ok (onBackendReply r s)"
    using assms by (simp add: ss_inv_def ss_signals_ok_def)
  moreover have "ss_history_ok pack (onBackendReply r s)"
  proof -
    have h: "ss_current s \<noteq> None"
      "ss_asked s = map answer_to (ss_given s) @ replicate (unat (ss_pending s)) Forwarded @ ss_held s"
      "ss_wrote s @ concat (ss_out s) = concat (map (answer_bytes pack) (ss_given s))"
      using assms ab by (simp_all add: ss_inv_def ss_history_ok_def)
    show ?thesis using h(1,3) by (simp add: ss_history_ok_def h(2) unat_pred [OF assms(2)] flip: append_assoc)
  qed
  ultimately show ?thesis by (simp add: ss_inv_def)
qed

lemma ss_abort_cases:
  obtains (already) "ss_state s = SS_kAborted" "ss_abort self s chs = (s, chs)"
  | (aborts) s' where "ss_state s \<noteq> SS_kAborted" "ss_abort self s chs = (s', pool_detachOwner (Some self) chs)"
      "ss_state s' = SS_kAborted" "ss_current s' = None" "ss_pending s' = 0" "ss_out s' = []"
      "ss_reader s' = ss_reader s" "ss_writer s' = ss_writer s" "ss_loops s' = ss_loops s"
      "ss_config s' = ss_config s" "sg_pending (ss_out_signal s')" "sg_pending (ss_reply_signal s')"
proof (cases "ss_state s = SS_kAborted")
  case True
  then show ?thesis using already by (simp add: ss_abort_def)
next
  case False
  show ?thesis
    by (rule aborts [OF False, where s' = "fst (ss_abort self s chs)"]) (simp_all add: ss_abort_def False ss_notify_defs signal_set_def)
qed

lemma abort_spec:
  assumes "ss_control_ok s" "ss_signals_ok s" and "list_all ch_inv chs"
    and "ss_state s = SS_kAborted \<longrightarrow> ss_link self s chs" and "ss_abort self s chs = (s', chs')"
  shows "ss_inv pack s' \<and> ss_state s' = SS_kAborted \<and> ss_reader s' = ss_reader s \<and> ss_writer s' = ss_writer s \<and>
    ss_link self s' chs' \<and> pool_frame self chs chs'"
proof (cases rule: ss_abort_cases [of s self chs])
  case already
  with assms show ?thesis by (simp add: pool_frame_refl ss_inv_def ss_history_ok_def)
next
  case (aborts t)
  then have t: "s' = t" "chs' = pool_detachOwner (Some self) chs" using assms(5) by simp_all
  have "ss_control_ok s'" using assms(1) aborts by (simp add: ss_inv_def ss_control_ok_def t)
  moreover have "ss_signals_ok s'" "ss_history_ok pack s'"
    using aborts by (simp_all add: ss_signals_ok_def ss_history_ok_def t)
  ultimately show ?thesis
    using aborts link_detached [OF assms(3)] detach_frame(1) [OF assms(3)] by (simp add: ss_inv_def t)
qed

lemma abort_inv:
  assumes "ss_control_ok s" "ss_signals_ok s" and "list_all ch_inv chs" and "ss_link self s chs"
    and "ss_abort self s chs = (s', chs')"
  shows "ss_inv pack s'" "ss_state s' = SS_kAborted" "ss_reader s' = ss_reader s" "ss_writer s' = ss_writer s"
    "ss_link self s' chs'" "pool_frame self chs chs'"
  using abort_spec [OF assms(1-3) _ assms(5)] assms(4) by simp_all

text \<open>
  A loop ends only in a session that is not open any more; when both have, nothing is
  outstanding, so detaching the owner once more changes nothing for it.
\<close>

lemma closed_idle:
  assumes "ss_inv pack s" and "ss_reader s = SR_none" and "ss_writer s = SW_none"
  shows "ss_current s = None" "ss_pending s = 0" "ss_out s = []"
    and "ss_state s \<noteq> SS_kAborted \<Longrightarrow> ss_asked s = map answer_to (ss_given s) \<and>
      ss_wrote s = concat (map (answer_bytes pack) (ss_given s))"
proof -
  show 1: "ss_pending s = 0" "ss_out s = []"
    using assms by (cases "ss_state s"; simp add: ss_inv_def ss_control_ok_def)+
  show "ss_current s = None"
    using assms 1 by (cases "ss_state s"; simp add: ss_inv_def ss_control_ok_def ss_history_ok_def)
  show "ss_asked s = map answer_to (ss_given s) \<and> ss_wrote s = concat (map (answer_bytes pack) (ss_given s))"
    if "ss_state s \<noteq> SS_kAborted"
    using assms 1 that by (cases "ss_state s") (simp_all add: ss_inv_defs)
qed

text \<open>What a step of a session ends with: the session, the pool and whether it has finished.\<close>

definition ss_ok :: "(string \<Rightarrow> bytes) \<Rightarrow> nat \<Rightarrow> nat pool \<Rightarrow> session \<times> nat pool \<times> bool \<Rightarrow> bool" where
  "ss_ok pack self chs r =
     (case r of (s', chs', fin) \<Rightarrow>
        ss_inv pack s' \<and> ss_link self s' chs' \<and> pool_frame self chs chs' \<and>
        (fin \<longleftrightarrow> ss_reader s' = SR_none \<and> ss_writer s' = SW_none))"

lemma ss_ok_frame: "pool_frame self chs chs1 \<Longrightarrow> ss_ok pack self chs1 r \<Longrightarrow> ss_ok pack self chs r"
  by (auto simp: ss_ok_def intro: pool_frame_trans)

lemma ss_ok_same:
  assumes "ss_inv pack s'" and "list_all ch_inv chs" and "ss_link self s chs"
    and "ss_current s' = ss_current s" and "ss_pending s' = ss_pending s"
    and "ss_reader s' \<noteq> SR_none \<or> ss_writer s' \<noteq> SW_none"
  shows "ss_ok pack self chs (s', chs, False)"
  using assms link_cong [OF assms(3-5)] by (auto simp: ss_ok_def pool_frame_refl)

text \<open>\<open>s1\<close> is the session when the loop that ends has left its last suspension point.\<close>

lemma finishLoop_ok:
  assumes "ss_inv pack (s1\<lparr>ss_loops := ss_loops s1 - 1\<rparr>)" and "list_all ch_inv chs" and "ss_link self s1 chs"
  shows "ss_ok pack self chs (finishLoop self s1 chs)"
proof -
  let ?s = "s1\<lparr>ss_loops := ss_loops s1 - 1\<rparr>"
  have loops: "ss_loops s1 - 1 = 0 \<longleftrightarrow> ss_reader s1 = SR_none \<and> ss_writer s1 = SW_none"
    using assms(1) by (simp add: ss_inv_def ss_control_ok_def split: if_splits)
  show ?thesis
  proof (cases "ss_loops s1 - 1 = 0")
    case False
    then have "finishLoop self s1 chs = (?s, chs, False)" by (simp add: finishLoop_def)
    moreover have "ss_link self ?s chs" by (rule link_cong [OF assms(3)]) simp_all
    ultimately show ?thesis using assms loops False by (simp add: ss_ok_def pool_frame_refl)
  next
    case True
    let ?t = "?s\<lparr>ss_socket := sock_close (ss_socket s1)\<rparr>"
    have r: "finishLoop self s1 chs = (?t, pool_detachOwner (Some self) chs, True)"
      using True by (simp add: finishLoop_def)
    have "ss_current ?t = None" using closed_idle(1) [OF assms(1)] loops True by simp
    moreover have "ss_inv pack ?t" using assms(1) by (simp add: ss_inv_defs)
    ultimately show ?thesis
      using loops True link_detached [OF assms(2), of ?t self] detach_frame(1) [OF assms(2)]
      by (simp add: ss_ok_def r)
  qed
qed

lemma reader_finish_ok:
  assumes "ss_inv pack s" and "list_all ch_inv chs" and "ss_link self s chs"
    and "ss_reader s \<noteq> SR_none" and "ss_state s = SS_kAborted"
  shows "ss_ok pack self chs (reader_finish self s chs)"
  unfolding reader_finish_def
  using assms(1,4,5) link_cong [OF assms(3)]
  by (intro finishLoop_ok assms(2)) (simp_all add: ss_inv_defs)

lemma writer_finish_ok:
  assumes "ss_inv pack s" and "list_all ch_inv chs" and "ss_link self s chs" and "ss_writer s \<noteq> SW_none"
    and "ss_state s = SS_kAborted \<or>
      ss_state s = SS_kDraining \<and> ss_out s = [] \<and> ss_pending s = 0 \<and> ss_final s = []"
  shows "ss_ok pack self chs (writer_finish self s chs)"
  unfolding writer_finish_def
  using assms(1,4,5) link_cong [OF assms(3)]
  by (intro finishLoop_ok assms(2)) (auto simp: ss_inv_defs)

lemma drain_finish_ok:
  assumes "ss_inv pack s" and "list_all ch_inv chs" and "ss_link self s chs"
    and "ss_state s = SS_kOpen" and "ss_reader s = SR_top \<or> ss_reader s = SR_reading"
  shows "ss_ok pack self chs (reader_finish self (ss_drain e s) chs)"
  unfolding reader_finish_def
  using assms(1,4,5) link_cong [OF assms(3)]
  by (intro finishLoop_ok assms(2))
    (auto simp: ss_inv_defs ss_drain_def notify_out_def signal_set_def)

section \<open>Submission\<close>

text \<open>No channel expects more replies than \<^verbatim>\<open>std::size_t\<close> counts.\<close>

definition pool_fits :: "nat pool \<Rightarrow> bool" where
  "pool_fits chs \<longleftrightarrow> list_all (\<lambda>ch. length (ch_sent ch @ ch_unsent ch) < 2 ^ 64) chs"

lemma detach_fits: "pool_fits chs \<Longrightarrow> pool_fits (pool_detachOwner own chs)"
  by (auto simp: pool_fits_def pool_detachOwner_def list_all_iff detach_lists
      intro: le_less_trans [OF add_left_mono [OF length_filter_le]])

lemma owed_le_length: "owed xs own \<le> length xs"
  by (simp add: owed_def count_le_length)

lemma submit_frame:
  assumes "list_all ch_inv chs" and "i < length chs" and "submit (Some self) d n (chs ! i) = (True, ch)"
  shows "pool_frame self chs (chs[i := ch])"
    and "ch_owed ch self = ch_owed (chs ! i) self + unat n"
proof -
  have i: "ch_inv (chs ! i)" using assms(1,2) by (simp add: list_all_length)
  have owed: "ch_owed ch x = ch_owed (chs ! i) x + (if x = self then unat n else 0)" for x
    using chan.owed_sub [of remdups "chs ! i" self d n ch x] i assms(3) by (simp add: ch_owed_def hash_order_remdups)
  note law = submit_law [OF i assms(3)]
  show "pool_frame self chs (chs[i := ch])"
    using assms(1,2) law owed by (auto simp: pool_frame_def nth_list_update list_all_length)
  show "ch_owed ch self = ch_owed (chs ! i) self + unat n" using owed by simp
qed

lemma submitted_inv:
  assumes "ss_inv pack s" and "ss_state s = SS_kOpen" and "ss_reader s = SR_top"
    and "unat (ss_pending s) + k < 2 ^ 64" and "0 < k"
  shows "ss_inv pack (s\<lparr>ss_in := x, ss_asked := ss_asked s @ replicate k Forwarded, ss_current := Some i,
    ss_pending := ss_pending s + of_nat k\<rparr>)"
proof -
  have n: "unat (ss_pending s + of_nat k) = unat (ss_pending s) + k"
    using assms(4) by (simp add: unat_word_ariths unat_of_nat)
  have "ss_pending s + of_nat k \<noteq> 0" using n assms(5) by (metis add_is_0 neq0_conv unat_0)
  with assms(1-3) n show ?thesis by (simp add: ss_inv_defs replicate_add)
qed

lemma reader_submit_ok:
  assumes "ss_inv pack s" and "list_all ch_inv chs" and "ss_link self s chs"
    and "ss_state s = SS_kOpen" and "ss_reader s = SR_top" and "ba_parsed b < 2 ^ 32"
    and "reader_submit self b s chs = Some (ok, s1, chs1)" and "ok \<Longrightarrow> pool_fits chs1"
  shows "ss_inv pack s1 \<and> ss_link self s1 chs1 \<and> pool_frame self chs chs1 \<and> ss_reader s1 = SR_top \<and>
    ss_state s1 = (if ok then SS_kOpen else SS_kAborted)"
proof (cases "ba_parsed b = 0")
  case True
  with assms show ?thesis by (auto simp: reader_submit_def pool_frame_refl)
next
  case False
  define k where "k = ba_parsed b"
  define n :: u32 where "n = of_nat k"
  have k: "0 < k" "unat n = k" "n \<noteq> 0" "ucast n = (of_nat k :: u64)"
    using False assms(6) by (auto simp: k_def n_def unat_of_nat ucast_of_nat word_of_nat_eq_0_iff dest: nat_dvd_not_less)
  define s0 where "s0 = s\<lparr>ss_in := drop (ba_consumed b) (ss_in s), ss_asked := ss_asked s @ replicate k Forwarded\<rparr>"
  have r: "submitBatch self (take (ba_consumed b) (ss_in s)) n s0 chs = Some (ok, s1, chs1)"
    using assms(7) False by (simp add: reader_submit_def k_def n_def s0_def)
  have cur: "\<forall>i. ss_current s0 = Some i \<longrightarrow> i < length chs"
    using assms(3) by (simp add: ss_link_def s0_def)
  from assms(2) cur show ?thesis
  proof (cases rule: pool_submit_cases [where own = "Some self" and cur = "ss_current s0" and
        bytes = "take (ba_consumed b) (ss_in s)" and n = n])
    case none
    obtain s2 chs2 where a: "ss_abort self s0 chs = (s2, chs2)" by fastforce
    then have e: "\<not> ok" "s1 = s2" "chs1 = chs2" using r none k by (simp_all add: submitBatch_def)
    have c: "ss_control_ok s0" "ss_signals_ok s0"
      using assms(1) by (simp_all add: ss_inv_defs s0_def)
    have l: "ss_link self s0 chs" by (rule link_cong [OF assms(3)]) (simp_all add: s0_def)
    show ?thesis using abort_inv [OF c assms(2) l a] assms(5) e by (simp add: s0_def)
  next
    case (some i ch)
    then have e: "ok" "s1 = s0\<lparr>ss_current := Some i, ss_pending := ss_pending s + of_nat k\<rparr>" "chs1 = chs[i := ch]"
      using r k by (simp_all add: submitBatch_def s0_def)
    have f: "pool_frame self chs chs1" "ch_owed ch self = ch_owed (chs ! i) self + k"
      using submit_frame [OF assms(2) some(2,4)] k(2) e(3) by simp_all
    have p: "ch_owed (chs ! i) self = unat (ss_pending s)"
    proof (cases "ss_current s")
      case None
      then have "ss_pending s = 0" using assms(1,4) by (simp add: ss_inv_def ss_history_ok_def)
      with None assms(3) some(2) show ?thesis by (simp add: ss_link_def)
    next
      case (Some j)
      then have "j = i" using some(5) by (simp add: s0_def)
      with Some assms(3) some(2) show ?thesis by (simp add: ss_link_def)
    qed
    have "ch_owed ch self < 2 ^ 64"
      using assms(8) e(1) some(2) owed_le_length [of "ch_sent ch @ ch_unsent ch" self]
      by (auto simp: pool_fits_def e list_all_length ch_owed_def dest: spec [of _ i])
    then have lt: "unat (ss_pending s) + k < 2 ^ 64" using f(2) p by simp
    then have n: "unat (ss_pending s + of_nat k) = unat (ss_pending s) + k"
      by (simp add: unat_word_ariths unat_of_nat)
    have "ss_link self s1 chs1"
      using assms(3) some(2,5) f(2) p n by (auto simp: ss_link_def e s0_def nth_list_update)
    moreover have "ss_inv pack s1"
      using submitted_inv [OF assms(1,4,5) lt k(1)] by (simp add: e s0_def)
    ultimately show ?thesis using f(1) assms(4,5) e by (simp add: s0_def)
  qed
qed

section \<open>Steps\<close>

text \<open>
  Every step of either coroutine keeps the invariant and the link, does nothing to the
  channels that another session could see, and reports the end exactly when both loops
  are over.
\<close>

lemma reader_after_ok:
  assumes "ss_inv pack s" and "list_all ch_inv chs" and "ss_link self s chs"
    and "ss_state s = SS_kOpen" and "ss_reader s = SR_top"
  shows "ss_ok pack self chs (reader_after self b s chs)"
proof -
  let ?r = "s\<lparr>ss_in := drop (ba_rejected b) (ss_in s), ss_reader := SR_reply (ba_error b),
    ss_asked := ss_asked s @ [Refused (ba_error b)]\<rparr>"
  have "ss_inv pack ?r" "ss_inv pack (s\<lparr>ss_reader := SR_pause\<rparr>)" "ss_inv pack (s\<lparr>ss_reader := SR_reading\<rparr>)"
    using assms(1,4,5) by (simp_all add: ss_inv_defs)
  then show ?thesis
    using drain_finish_ok [OF assms(1-4)] assms(5)
    by (auto simp: reader_after_def intro!: ss_ok_same [OF _ assms(2,3)])
qed

lemma reader_after_pool:
  "ss_loops s \<noteq> 1 \<Longrightarrow> reader_after self b s chs = (s', chs', fin) \<Longrightarrow> chs' = chs"
  by (auto simp: reader_after_def reader_finish_def finishLoop_def ss_drain_def notify_out_def Let_def split: if_splits)

lemma reader_top_ok:
  assumes "ss_inv pack s" and "list_all ch_inv chs" and "ss_link self s chs" and "unpack_bounds up"
    and "ss_reader s = SR_top" and "ss_reader_top up alloc rules self s chs = Some (s', chs', fin)"
    and "pool_fits chs'"
  shows "ss_ok pack self chs (s', chs', fin)"
proof (cases "ss_state s = SS_kOpen")
  case False
  then have "ss_state s = SS_kAborted"
    using assms(1,5) by (cases "ss_state s") (simp_all add: ss_inv_defs)
  with False reader_finish_ok [OF assms(1-3)] assms(5,6) show ?thesis by (simp add: ss_reader_top_def)
next
  case True
  from assms(6) True obtain b ok s1 chs1 where
    b: "parse_batch up alloc rules (cf_max_pipeline (ss_config s)) (ss_in s) (ss_parser s) 0 0 PS_kNeedMore = Some b"
      "reader_submit self b (s\<lparr>ss_parser := ba_parser b\<rparr>) chs = Some (ok, s1, chs1)"
      "(s', chs', fin) = (if \<not> ok then reader_finish self s1 chs1 else reader_after self b s1 chs1)"
    by (auto simp: ss_reader_top_def bind_Some_iff)
  let ?s = "s\<lparr>ss_parser := ba_parser b\<rparr>"
  have s: "ss_inv pack ?s" using assms(1) by (simp add: ss_inv_defs)
  have l: "ss_link self ?s chs" by (rule link_cong [OF assms(3)]) simp_all
  have "ba_parsed b \<le> cf_max_pipeline (ss_config s)"
    using parse_batch_spec [OF assms(4), of 0 "cf_max_pipeline (ss_config s)" 0 "ss_in s" alloc rules "ss_parser s" PS_kNeedMore] b(1)
    by auto
  then have k: "ba_parsed b < 2 ^ 32" using assms(1) by (simp add: ss_inv_defs)
  have f: "pool_fits chs1" if ok
  proof -
    have "ss_loops s1 = ss_loops s"
      using b(2) that by (auto simp: reader_submit_def submitBatch_def split: if_splits option.splits prod.splits)
    also have "\<dots> \<noteq> 1" using assms(1) True by (simp add: ss_inv_defs)
    finally show ?thesis using reader_after_pool [of s1 self b chs1 s' chs' fin] b(3) that assms(7) by simp
  qed
  from reader_submit_ok [OF s assms(2) l _ _ k b(2) f] True assms(5)
  have r: "ss_inv pack s1" "ss_link self s1 chs1" "pool_frame self chs chs1" "ss_reader s1 = SR_top"
    "ss_state s1 = (if ok then SS_kOpen else SS_kAborted)" by simp_all
  then have i: "list_all ch_inv chs1" by (simp add: pool_frame_def)
  have "ss_ok pack self chs1 (s', chs', fin)"
    using reader_after_ok [OF r(1) i r(2) _ r(4)] reader_finish_ok [OF r(1) i r(2)] r(4,5) b(3)
    by (cases ok) simp_all
  with r(3) show ?thesis by (rule ss_ok_frame)
qed

lemma reader_reply_ok:
  assumes "ss_inv pack s" and "list_all ch_inv chs" and "ss_link self s chs" and "ss_reader s = SR_reply e"
  shows "ss_ok pack self chs (ss_reader_reply pack e self s chs)"
proof -
  let ?q = "notify_out (s\<lparr>ss_out := ss_out s @ [pack e], ss_given := ss_given s @ [Error e], ss_reader := SR_top\<rparr>)"
  consider "ss_state s = SS_kOpen" "ss_pending s \<noteq> 0" | "ss_state s = SS_kOpen" "ss_pending s = 0"
    | "ss_state s = SS_kAborted"
    using assms(1,4) by (cases "ss_state s") (auto simp: ss_inv_defs)
  then show ?thesis
  proof cases
    case 1
    then have "ss_inv pack (s\<lparr>ss_reply_signal := signal_clear (ss_reply_signal s)\<rparr>)"
      "\<not> sg_pending (ss_reply_signal s) \<Longrightarrow> ss_inv pack (s\<lparr>ss_reader := SR_reply_wait e\<rparr>)"
      using assms(1,4) by (simp_all add: ss_inv_defs)
    with 1 assms show ?thesis
      by (auto simp: ss_reader_reply_def intro!: ss_ok_same [OF _ assms(2,3)])
  next
    case 2
    then have "ss_inv pack ?q" using assms(1,4) by (simp add: ss_inv_defs notify_out_def signal_set_def)
    with 2 show ?thesis
      by (auto simp: ss_reader_reply_def notify_out_def intro!: ss_ok_same [OF _ assms(2,3)])
  next
    case 3
    with reader_finish_ok [OF assms(1-3)] assms(4) show ?thesis by (simp add: ss_reader_reply_def)
  qed
qed

lemma abort_finish_ok:
  assumes "ss_inv pack s" and "list_all ch_inv chs" and "ss_link self s chs" and "ss_abort self s chs = (s1, chs1)"
  shows "ss_reader s \<noteq> SR_none \<Longrightarrow> ss_ok pack self chs (reader_finish self s1 chs1)"
    and "ss_writer s \<noteq> SW_none \<Longrightarrow> ss_ok pack self chs (writer_finish self s1 chs1)"
proof -
  have c: "ss_control_ok s" "ss_signals_ok s" using assms(1) by (simp_all add: ss_inv_def)
  note a = abort_inv [OF c assms(2-4)]
  have i: "list_all ch_inv chs1" using a(6) by (simp add: pool_frame_def)
  show "ss_ok pack self chs (reader_finish self s1 chs1)" if "ss_reader s \<noteq> SR_none"
    using reader_finish_ok [OF a(1) i a(5)] a(2,3) that by (auto intro: ss_ok_frame [OF a(6)])
  show "ss_ok pack self chs (writer_finish self s1 chs1)" if "ss_writer s \<noteq> SW_none"
    using writer_finish_ok [OF a(1) i a(5)] a(2,4) that by (auto intro: ss_ok_frame [OF a(6)])
qed

lemma reader_read_ok:
  assumes "ss_inv pack s" and "list_all ch_inv chs" and "ss_link self s chs" and "ss_reader s = SR_reading"
  shows "ss_ok pack self chs (ss_reader_read st d self s chs)"
proof -
  let ?s = "s\<lparr>ss_in := ss_in s @ d\<rparr>"
  have i: "ss_inv pack ?s" using assms(1) by (simp add: ss_inv_defs)
  have l: "ss_link self ?s chs" by (rule link_cong [OF assms(3)]) simp_all
  consider "ss_state s = SS_kOpen" | "ss_state s = SS_kAborted"
    using assms(1,4) by (cases "ss_state s") (auto simp: ss_inv_defs)
  then show ?thesis
  proof cases
    case 1
    then have "ss_inv pack (?s\<lparr>ss_reader := SR_top\<rparr>)" using assms(1,4) by (simp add: ss_inv_defs)
    moreover obtain s2 chs2 where "ss_abort self ?s chs = (s2, chs2)" by fastforce
    ultimately show ?thesis
      using 1 assms(4) drain_finish_ok [OF i assms(2) l] abort_finish_ok(1) [OF i assms(2) l]
      by (auto simp: ss_reader_read_def Let_def intro!: ss_ok_same [OF _ assms(2,3)])
  next
    case 2
    with reader_finish_ok [OF i assms(2) l] assms(4) show ?thesis by (simp add: ss_reader_read_def Let_def)
  qed
qed

lemma writer_send_inv:
  assumes "ss_control_ok s" and "ss_signals_ok s" and "ss_history_ok pack s"
    and "ss_state s \<noteq> SS_kAborted" and "ss_writer s \<noteq> SW_none"
  shows "ss_inv pack (writer_send s)"
proof -
  have "concat (take 64 xs) @ concat (drop 64 xs) = concat xs" for xs :: "bytes list"
    by (simp flip: concat_append)
  with assms show ?thesis by (simp add: ss_inv_defs writer_send_def)
qed

lemma writer_top_ok:
  assumes "ss_inv pack s" and "list_all ch_inv chs" and "ss_link self s chs" and "ss_writer s = SW_top"
  shows "ss_ok pack self chs (ss_writer_top pack self s chs)"
proof -
  let ?e = "s\<lparr>ss_out := [pack (ss_final s)], ss_given := ss_given s @ [Error (ss_final s)], ss_final := []\<rparr>"
  have ok: "ss_control_ok s" "ss_signals_ok s" "ss_history_ok pack s" using assms(1) by (simp_all add: ss_inv_def)
  consider (aborted) "ss_state s = SS_kAborted"
    | (send) "ss_state s \<noteq> SS_kAborted" "ss_out s \<noteq> []"
    | (final) "ss_state s = SS_kDraining" "ss_out s = []" "ss_pending s = 0" "ss_final s \<noteq> []"
    | (finish) "ss_state s = SS_kDraining" "ss_out s = []" "ss_pending s = 0" "ss_final s = []"
    | (idle) "ss_state s \<noteq> SS_kAborted" "ss_out s = []" "\<not> (ss_state s = SS_kDraining \<and> ss_pending s = 0)"
    by blast
  then show ?thesis
  proof cases
    case aborted
    with writer_finish_ok [OF assms(1-3)] assms(4) show ?thesis by (simp add: ss_writer_top_def)
  next
    case send
    with writer_send_inv [OF ok] assms(4) show ?thesis
      by (auto simp: ss_writer_top_def writer_send_def intro!: ss_ok_same [OF _ assms(2,3)])
  next
    case final
    then have "ss_inv pack (writer_send ?e)"
      using ok assms(4) by (intro writer_send_inv) (simp_all add: ss_inv_defs)
    with final show ?thesis
      by (auto simp: ss_writer_top_def writer_send_def intro!: ss_ok_same [OF _ assms(2,3)])
  next
    case finish
    with writer_finish_ok [OF assms(1-3)] assms(4) show ?thesis by (simp add: ss_writer_top_def)
  next
    case idle
    then have "ss_inv pack (s\<lparr>ss_out_signal := signal_clear (ss_out_signal s)\<rparr>)"
      "\<not> sg_pending (ss_out_signal s) \<Longrightarrow> ss_inv pack (s\<lparr>ss_writer := SW_wait\<rparr>)"
      using assms(1,4) by (cases "ss_state s"; simp add: ss_inv_defs)+
    with idle assms(4) show ?thesis
      by (auto simp: ss_writer_top_def intro!: ss_ok_same [OF _ assms(2,3)])
  qed
qed

lemma writer_written_ok:
  assumes "ss_inv pack s" and "list_all ch_inv chs" and "ss_link self s chs" and "ss_writer s = SW_writing"
  shows "ss_ok pack self chs (ss_writer_written st self s chs)"
proof -
  have "ss_inv pack (s\<lparr>ss_writer := SW_top\<rparr>)" using assms(1,4) by (simp add: ss_inv_defs)
  moreover obtain s2 chs2 where "ss_abort self s chs = (s2, chs2)" by fastforce
  ultimately show ?thesis
    using assms(4) abort_finish_ok(2) [OF assms(1-3)]
    by (auto simp: ss_writer_written_def intro!: ss_ok_same [OF _ assms(2,3)])
qed

lemma resume_inv:
  assumes "ss_inv pack s"
  shows "ss_reader s = SR_reply_wait e \<Longrightarrow> ss_inv pack (ss_reader_woken e s)"
    and "ss_reader s = SR_pause \<Longrightarrow> ss_inv pack (s\<lparr>ss_reader := SR_top\<rparr>)"
    and "ss_writer s = SW_wait \<Longrightarrow> ss_inv pack (ss_writer_woken s)"
  using assms by (cases "ss_state s"; simp add: ss_inv_defs ss_reader_woken_def ss_writer_woken_def)+

lemma ss_step_ok:
  assumes "ss_step up pack rules self s chs (s', chs', fin)" and "unpack_bounds up"
    and "ss_inv pack s" and "list_all ch_inv chs" and "ss_link self s chs" and "pool_fits chs'"
  shows "ss_ok pack self chs (s', chs', fin)"
  using assms(1)
proof cases
  case (sr_top alloc)
  show ?thesis by (rule reader_top_ok [OF assms(3-5,2) sr_top assms(6)])
next
  case (sr_reply e)
  with reader_reply_ok [OF assms(3-5)] show ?thesis by simp
next
  case (sr_wakes e)
  with resume_inv(1) [OF assms(3)] show ?thesis
    by (auto simp: ss_reader_woken_def intro!: ss_ok_same [OF _ assms(4,5)])
next
  case sr_resumes
  with resume_inv(2) [OF assms(3)] show ?thesis by (auto intro!: ss_ok_same [OF _ assms(4,5)])
next
  case (sr_reads st d)
  with reader_read_ok [OF assms(3-5)] show ?thesis by simp
next
  case sw_top
  with writer_top_ok [OF assms(3-5)] show ?thesis by simp
next
  case sw_wakes
  with resume_inv(3) [OF assms(3)] show ?thesis
    by (auto simp: ss_writer_woken_def intro!: ss_ok_same [OF _ assms(4,5)])
next
  case (sw_written st)
  with writer_written_ok [OF assms(3-5)] show ?thesis by simp
qed

text \<open>The reader's round always gets to its end.\<close>

lemma reader_top_total:
  assumes "unpack_bounds up" and "list_all ch_inv chs" and "ss_link self s chs"
  shows "ss_reader_top up alloc rules self s chs \<noteq> None"
proof -
  have sub: "reader_submit self b (s\<lparr>ss_parser := p\<rparr>) chs \<noteq> None" for b p
  proof -
    have cur: "\<forall>i. ss_current s = Some i \<longrightarrow> i < length chs" using assms(3) by (simp add: ss_link_def)
    from assms(2) cur show ?thesis
      by (cases rule: pool_submit_cases [where own = "Some self" and cur = "ss_current s" and
            bytes = "take (ba_consumed b) (ss_in s)" and n = "of_nat (ba_parsed b)"])
        (auto simp: reader_submit_def submitBatch_def split: prod.splits)
  qed
  from parse_batch_spec [OF assms(1), of 0 "cf_max_pipeline (ss_config s)" 0 "ss_in s" alloc rules "ss_parser s" PS_kNeedMore]
  obtain b where "parse_batch up alloc rules (cf_max_pipeline (ss_config s)) (ss_in s) (ss_parser s) 0 0 PS_kNeedMore = Some b"
    by auto
  moreover obtain ok s1 chs1 where "reader_submit self b (s\<lparr>ss_parser := ba_parser b\<rparr>) chs = Some (ok, s1, chs1)"
    using sub [of b "ba_parser b"] by (cases "reader_submit self b (s\<lparr>ss_parser := ba_parser b\<rparr>) chs") auto
  ultimately show ?thesis by (simp add: ss_reader_top_def del: not_None_eq)
qed

end
