(* ===== verification/Proxy_System.thy ===== *)
theory Proxy_System
  imports Session_Invariant
begin

text \<open>
  The sessions and the channels of one worker together: channels call back into the
  sessions they hold pointers to, sessions submit to and detach from the channels. The
  sessions are a map from their addresses; a callback to an address that is not there is
  \<^const>\<open>None\<close>. Also \<^verbatim>\<open>BackendPool::stop\<close>, whose callbacks run between two channels.
\<close>

section \<open>Callbacks\<close>

type_synonym sessions = "nat \<rightharpoonup> session"

fun deliver :: "nat callback \<Rightarrow> sessions \<times> nat pool \<Rightarrow> (sessions \<times> nat pool) option" where
  "deliver (Reply own r) (ss, chs) =
     (case ss own of
        None \<Rightarrow> None
      | Some s \<Rightarrow> Some (ss(own \<mapsto> onBackendReply r s), chs))"
| "deliver (Failure own st) (ss, chs) =
     (case ss own of
        None \<Rightarrow> None
      | Some s \<Rightarrow> let (s1, chs1) = onBackendFailure own s chs in Some (ss(own \<mapsto> s1), chs1))"

fun deliver_all :: "nat callback list \<Rightarrow> sessions \<times> nat pool \<Rightarrow> (sessions \<times> nat pool) option" where
  "deliver_all [] w = Some w"
| "deliver_all (cb # cbs) w = do { w1 \<leftarrow> deliver cb w; deliver_all cbs w1 }"

text \<open>\<^verbatim>\<open>BackendPool::stop\<close> over the channels with the given indices.\<close>

fun pool_stop :: "(nat list \<Rightarrow> nat list) \<Rightarrow> nat list \<Rightarrow> sessions \<times> nat pool \<Rightarrow> (sessions \<times> nat pool) option" where
  "pool_stop order [] w = Some w"
| "pool_stop order (j # js) (ss, chs) =
     (let (ch, cbs) = ch_halt order (chs ! j)
      in do { w1 \<leftarrow> deliver_all cbs (ss, chs[j := ch]); pool_stop order js w1 })"

section \<open>What a step of a channel does to its owners\<close>

definition ch_effect :: "nat channel \<Rightarrow> nat callback list \<Rightarrow> nat channel \<Rightarrow> bool" where
  "ch_effect ch cbs ch' \<longleftrightarrow>
     ch_inv ch' \<and>
     (cbs = [] \<and> ch_owed ch' = ch_owed ch \<or>
      (\<exists>own r. cbs = [Reply own r] \<and> 0 < ch_owed ch own \<and> isHealthy ch' = isHealthy ch \<and>
         ch_owed ch' = (ch_owed ch)(own := ch_owed ch own - 1)) \<or>
      (\<exists>st os. cbs = map (\<lambda>own. Failure own st) os \<and> distinct os \<and> set os = {own. 0 < ch_owed ch own} \<and>
         ch_owed ch' = (\<lambda>_. 0)))"

lemma effect_silent:
  "ch_inv ch' \<Longrightarrow> ch_sent ch' @ ch_unsent ch' = ch_sent ch @ ch_unsent ch \<Longrightarrow> ch_effect ch [] ch'"
  by (simp add: ch_effect_def ch_owed_def fun_eq_iff flip: owed_simps(3))

text \<open>\<open>ch1\<close> holds the same commands as \<open>ch\<close>, and \<open>ch'\<close> those that are left after the failure.\<close>

lemma effect_fail:
  assumes "hash_order order" and "ch_inv ch1" and "failConnection order st ch1 = (ch2, cbs)"
    and "ch_sent ch1 @ ch_unsent ch1 = ch_sent ch @ ch_unsent ch"
    and "ch_inv ch'" and "ch_sent ch' @ ch_unsent ch' = ch_sent ch2 @ ch_unsent ch2"
  shows "ch_effect ch cbs ch'"
proof -
  have z: "ch_owed ch' = (\<lambda>_. 0)"
    using chan.owed_fail(1) [OF conjI [OF assms(1,2)] assms(3)] assms(6) by (simp add: ch_owed_def fun_eq_iff)
  have o: "ch_owed ch x = owed (ch_sent ch1 @ ch_unsent ch1) x" for x
    by (simp add: ch_owed_def assms(4) del: owed_simps)
  show ?thesis
  proof (cases "isHealthy ch1")
    case True
    with fail_law [OF assms(1-3)] obtain os where
      "cbs = map (\<lambda>own. Failure own st) os" "distinct os" "set os = {own. Some own \<in> set (ch_sent ch1 @ ch_unsent ch1)}"
      by auto
    then show ?thesis unfolding ch_effect_def o owed_pos using assms(5) z by blast
  next
    case False
    with fail_law [OF assms(1-3)] chan.idle [OF conjI [OF assms(1,2)] False] z
    show ?thesis using assms(5) o by (simp add: ch_effect_def fun_eq_iff)
  qed
qed

lemma effect_dispatch:
  assumes "hash_order order" and "ch_inv ch1" and "dispatchReply order r ch1 = (ch', cbs)"
    and "ch_sent ch1 @ ch_unsent ch1 = ch_sent ch @ ch_unsent ch" and "isHealthy ch1 = isHealthy ch"
  shows "ch_effect ch cbs ch'"
proof -
  have o: "ch_owed ch x = owed (ch_sent ch1 @ ch_unsent ch1) x" for x
    by (simp add: ch_owed_def assms(4) del: owed_simps)
  have i: "ch_inv ch'" by (rule dispatch_inv [OF assms(1-3)])
  from chan.owed_disp [OF conjI [OF assms(1,2)] assms(3)] show ?thesis
  proof (elim disjE exE conjE)
    fix own
    assume a: "cbs = [Reply own r]" "isHealthy ch' = isHealthy ch1" "0 < owed (ch_sent ch1 @ ch_unsent ch1) own"
      "\<forall>x. owed (ch_sent ch' @ ch_unsent ch') x = owed (ch_sent ch1 @ ch_unsent ch1) x - (if x = own then 1 else 0)"
    then have "ch_owed ch' = (ch_owed ch)(own := ch_owed ch own - 1)"
      by (simp add: fun_eq_iff o ch_owed_def [of ch'] del: owed_simps)
    with a(1-3) i o assms(5) show ?thesis by (simp add: ch_effect_def del: owed_simps)
  next
    assume "cbs = []" "\<forall>x. owed (ch_sent ch' @ ch_unsent ch') x = owed (ch_sent ch1 @ ch_unsent ch1) x"
    with i o show ?thesis by (simp add: ch_effect_def fun_eq_iff ch_owed_def [of ch'] del: owed_simps)
  next
    fix st
    assume "failConnection order st ch1 = (ch', cbs)"
    then show ?thesis by (rule effect_fail [OF assms(1,2) _ assms(4) i]) simp
  qed
qed

lemma reader_exit_lists [simp]:
  "ch_sent (reader_exit ch) = ch_sent ch" "ch_unsent (reader_exit ch) = ch_unsent ch"
  by (simp_all add: reader_exit_def ch_notify_def ch_sent_def ch_unsent_def)

lemma reader_read_effect:
  assumes "hash_order order" and "ch_inv ch" and "ch_reader ch = Rd_reading"
    and "reader_read order st d ch = (ch', cbs)"
  shows "ch_effect ch cbs ch'"
proof -
  let ?ch1 = "ch\<lparr>ch_in := ch_in ch @ d\<rparr>"
  have 1: "ch_inv ?ch1" using input_inv [OF assms(2), where p = "ch_parser ch"] by simp
  have i: "ch_inv ch'" by (rule reader_read_inv [OF assms])
  have l: "ch_sent ?ch1 @ ch_unsent ?ch1 = ch_sent ch @ ch_unsent ch" by (simp add: ch_sent_def ch_unsent_def)
  show ?thesis
  proof (cases "isHealthy ?ch1 \<and> \<not> status_ok st")
    case True
    then obtain ch2 where "failConnection order st ?ch1 = (ch2, cbs)" "ch' = reader_exit ch2"
      using assms(4) by (auto simp: reader_read_def Let_def split: prod.splits)
    with effect_fail [OF assms(1) 1 _ l i] show ?thesis by simp
  next
    case False
    with assms(4) have "cbs = []" "ch_sent ch' @ ch_unsent ch' = ch_sent ch @ ch_unsent ch"
      by (auto simp: reader_read_def Let_def ch_sent_def [of "ch\<lparr>ch_in := _\<rparr>"] ch_unsent_def [of "ch\<lparr>ch_in := _\<rparr>"]
          ch_sent_def [of "ch\<lparr>ch_in := _, ch_reader := _\<rparr>"] ch_unsent_def [of "ch\<lparr>ch_in := _, ch_reader := _\<rparr>"]
          ch_sent_def [of ch] ch_unsent_def [of ch] split: if_splits)
    with effect_silent [OF i] show ?thesis by simp
  qed
qed

lemma reader_parse_effect:
  assumes "hash_order order" and "ch_inv ch" and "ch_reader ch = Rd_parse"
    and "reader_parse up order alloc ch = Some (ch', cbs)"
  shows "ch_effect ch cbs ch'"
proof (cases "isHealthy ch")
  case False
  with assms(4) have "cbs = []" "ch_sent ch' @ ch_unsent ch' = ch_sent ch @ ch_unsent ch"
    by (auto simp: reader_parse_def ch_sent_def ch_unsent_def)
  with effect_silent [OF reader_parse_inv [OF assms]] show ?thesis by simp
next
  case True
  have lists: "ch_sent (ch\<lparr>ch_parser := p, ch_in := d, ch_reader := x\<rparr>) @
      ch_unsent (ch\<lparr>ch_parser := p, ch_in := d, ch_reader := x\<rparr>) = ch_sent ch @ ch_unsent ch"
    "ch_sent (ch\<lparr>ch_parser := p, ch_in := d\<rparr>) @ ch_unsent (ch\<lparr>ch_parser := p, ch_in := d\<rparr>) = ch_sent ch @ ch_unsent ch"
    for p d x by (simp_all add: ch_sent_def ch_unsent_def)
  have top: "ch_inv (ch\<lparr>ch_parser := p, ch_in := d, ch_reader := Rd_top\<rparr>)" for p d
    using reader_point_inv [OF assms(2), of Rd_top d p] assms(3) by simp
  have i: "ch_inv ch'" by (rule reader_parse_inv [OF assms])
  from assms(4) True consider
      p d where "ch' = ch\<lparr>ch_parser := p, ch_in := d, ch_reader := Rd_top\<rparr>" "cbs = []"
    | st p d where "failConnection order st (ch\<lparr>ch_parser := p, ch_in := d, ch_reader := Rd_top\<rparr>) = (ch', cbs)"
    | r p d where "dispatchReply order r (ch\<lparr>ch_parser := p, ch_in := d\<rparr>) = (ch', cbs)"
    by (auto simp: reader_parse_def bind_Some_iff Let_def split: if_splits)
  then show ?thesis
  proof cases
    case 1
    with effect_silent [OF top lists(1)] show ?thesis by simp
  next
    case 2
    from effect_fail [OF assms(1) top this lists(1) i] show ?thesis by simp
  next
    case 3
    from effect_dispatch [OF assms(1) input_inv [OF assms(2)] this lists(2)] show ?thesis by (simp add: isHealthy_def)
  qed
qed

lemma ch_step_effect:
  assumes "hash_order order" and "ch_inv ch" and "ch_step up order ch cbs ch'"
  shows "ch_effect ch cbs ch'"
proof -
  note i = ch_step_inv [OF assms]
  have quiet: "cbs = [] \<Longrightarrow> ch_write ch' = ch_write ch \<Longrightarrow> ch_pending ch' = ch_pending ch \<Longrightarrow> ch_effect ch cbs ch'"
    using effect_silent [OF i] by (simp add: ch_sent_def ch_unsent_def)
  from assms(3) show ?thesis
  proof cases
    case run_writes
    then have "ch_sent ch' @ ch_unsent ch' = ch_sent ch @ ch_unsent ch"
      by (simp add: writer_round_def ch_wait_def ch_sent_def ch_unsent_def split: list.split)
    with run_writes effect_silent [OF i] show ?thesis by simp
  next
    case (run_written st)
    let ?ch1 = "ch\<lparr>ch_run := Run_write\<rparr>"
    have 1: "ch_inv ?ch1"
      using assms(2) by (rule ch_inv_control) (use run_written assms(2) in \<open>auto simp: ch_inv_def ch_control_ok_def\<close>)
    have l: "ch_sent ?ch1 @ ch_unsent ?ch1 = ch_sent ch @ ch_unsent ch" by (simp add: ch_sent_def ch_unsent_def)
    show ?thesis
      using run_written(2) effect_silent [OF 1 l] effect_fail [OF assms(1) 1 _ l i]
      by (auto simp: writer_written_def Let_def split: if_splits)
  next
    case (reader_reads st d)
    then show ?thesis using reader_read_effect [OF assms(1,2)] by blast
  next
    case (reader_parses alloc)
    then show ?thesis using reader_parse_effect [OF assms(1,2)] by blast
  next
    case reader_loops
    then show ?thesis by (intro quiet) (simp_all add: reader_round_def reader_exit_def ch_notify_def)
  qed (rule quiet; simp add: run_begin_eq run_connected_def run_cleanup_def ch_woken_def
      join_round_def ch_wait_def Let_def)+
qed

lemma ch_halt_effect:
  assumes "hash_order order" and "ch_inv ch" and "ch_halt order ch = (ch', cbs)"
  shows "ch_effect ch cbs ch'"
proof -
  obtain ch1 where f: "failConnection order (Status_Closed ''backend stopped'') ch = (ch1, cbs)"
    "ch_write ch' = ch_write ch1" "ch_pending ch' = ch_pending ch1"
    by (cases "failConnection order (Status_Closed ''backend stopped'') ch")
      (use assms(3) in \<open>auto simp: ch_halt_def failConnection_def batch_owners_def ch_notify_def isHealthy_def Let_def
          split: if_splits\<close>)
  then show ?thesis
    by (intro effect_fail [OF assms(1,2) f(1) refl halt_inv [OF assms]]) (simp add: ch_sent_def ch_unsent_def)
qed

section \<open>Sessions and channels fit\<close>

definition owed_none :: "nat pool \<Rightarrow> nat \<Rightarrow> bool" where
  "owed_none chs i \<longleftrightarrow> (\<forall>j < length chs. ch_owed (chs ! j) i = 0)"

text \<open>
  What holds at an address: a live session is linked to the channels; where there is no
  session no channel holds the address. The sessions in \<open>T\<close> are those whose channel has
  just failed and that are still to be told.
\<close>

definition at_ok :: "(string \<Rightarrow> bytes) \<Rightarrow> nat set \<Rightarrow> nat pool \<Rightarrow> nat \<Rightarrow> session option \<Rightarrow> bool" where
  "at_ok pack T chs i so =
     (case so of
        None \<Rightarrow> i \<notin> T \<and> owed_none chs i
      | Some s \<Rightarrow> ss_inv pack s \<and>
          (if i \<in> T then ss_state s \<noteq> SS_kAborted \<and> owed_none chs i else ss_link i s chs))"

definition sys_ok :: "(string \<Rightarrow> bytes) \<Rightarrow> nat set \<Rightarrow> sessions \<Rightarrow> nat pool \<Rightarrow> bool" where
  "sys_ok pack T ss chs \<longleftrightarrow> list_all ch_inv chs \<and> (\<forall>i. at_ok pack T chs i (ss i))"

lemma sys_okD: "sys_ok pack {} ss chs \<Longrightarrow> ss i = Some s \<Longrightarrow> ss_inv pack s \<and> ss_link i s chs"
  unfolding sys_ok_def at_ok_def by (auto dest: spec [of _ i])

text \<open>Where the coroutines of the sessions are; callbacks do not move them.\<close>

definition ss_points :: "sessions \<Rightarrow> nat \<Rightarrow> (sr_point \<times> sw_point) option" where
  "ss_points ss i = map_option (\<lambda>s. (ss_reader s, ss_writer s)) (ss i)"

lemma at_ok_frame:
  assumes "pool_frame self chs chs'" and "i \<noteq> self" and "at_ok pack T chs i so" and "i \<in> T' \<longleftrightarrow> i \<in> T"
  shows "at_ok pack T' chs' i so"
proof -
  have "owed_none chs' i = owed_none chs i" using assms(1,2) by (simp add: owed_none_def pool_frame_def)
  moreover have "ss_link i s chs' = ss_link i s chs" for s
    using assms(1,2) by (simp add: ss_link_def pool_frame_def)
  ultimately show ?thesis using assms(3,4) by (cases so) (simp_all add: at_ok_def)
qed

lemma sys_ok_update:
  assumes "sys_ok pack T ss chs" and "pool_frame self chs chs'" and "ss_inv pack s" and "ss_link self s chs'"
  shows "sys_ok pack (T - {self}) (ss(self \<mapsto> s)) chs'"
proof -
  have "at_ok pack (T - {self}) chs' i (ss i)" if "i \<noteq> self" for i
    using assms(1) that by (intro at_ok_frame [OF assms(2)]) (auto simp: sys_ok_def)
  moreover have "at_ok pack (T - {self}) chs' self (Some s)" using assms(3,4) by (simp add: at_ok_def)
  ultimately show ?thesis using assms(2) by (simp add: sys_ok_def pool_frame_def)
qed

lemma at_ok_channel:
  assumes "j < length chs" and "ch_owed ch i = ch_owed (chs ! j) i" and "at_ok pack {} chs i so"
  shows "at_ok pack {} (chs[j := ch]) i so"
proof -
  have "owed_none (chs[j := ch]) i = owed_none chs i" using assms(1,2) by (auto simp: owed_none_def nth_list_update)
  moreover have "ss_link i s (chs[j := ch]) = ss_link i s chs" for s
    using assms(1,2) by (auto simp: ss_link_def nth_list_update)
  ultimately show ?thesis using assms(3) by (cases so) (simp_all add: at_ok_def)
qed

lemma list_all_update: "list_all P xs \<Longrightarrow> P x \<Longrightarrow> list_all P (xs[j := x])"
  by (auto simp: list_all_iff dest: set_update_subset_insert [THEN subsetD])

lemma waiting_at:
  assumes "sys_ok pack {} ss chs" and "j < length chs" and "0 < ch_owed (chs ! j) i"
  obtains s where "ss i = Some s" "ss_inv pack s" "ss_current s = Some j" "ss_pending s \<noteq> 0"
    "ss_state s \<noteq> SS_kAborted" "\<And>k. k < length chs \<Longrightarrow> ch_owed (chs ! k) i = (if k = j then unat (ss_pending s) else 0)"
proof -
  have a: "at_ok pack {} chs i (ss i)" using assms(1) by (simp add: sys_ok_def)
  with assms(2,3) obtain s where s: "ss i = Some s" "ss_inv pack s" "ss_link i s chs"
    by (auto simp: at_ok_def owed_none_def split: option.splits)
  with assms(2,3) have c: "ss_current s = Some j" by (auto simp: ss_link_def split: if_splits)
  with s(3) assms(2,3) have "ss_pending s \<noteq> 0" by (auto simp: ss_link_def)
  moreover from this s(2) have "ss_state s \<noteq> SS_kAborted" by (auto simp: ss_inv_def ss_control_ok_def)
  ultimately show thesis using that [OF s(1,2) c] s(3) c by (auto simp: ss_link_def)
qed

section \<open>Callbacks reach live sessions\<close>

lemma deliver_failure:
  assumes "sys_ok pack T ss chs" and "own \<in> T"
  obtains s s' chs' where "ss own = Some s" "deliver (Failure own st) (ss, chs) = Some (ss(own \<mapsto> s'), chs')"
    "sys_ok pack (T - {own}) (ss(own \<mapsto> s')) chs'" "ss_state s' = SS_kAborted"
    "ss_reader s' = ss_reader s" "ss_writer s' = ss_writer s" "length chs' = length chs"
proof -
  from assms obtain s where s: "ss own = Some s" "ss_inv pack s" "ss_state s \<noteq> SS_kAborted"
    unfolding sys_ok_def at_ok_def by (auto dest!: spec [of _ own] split: option.splits)
  obtain s' chs' where a: "ss_abort own s chs = (s', chs')" by fastforce
  have c: "ss_control_ok s" "ss_signals_ok s" "list_all ch_inv chs" using s(2) assms(1) by (simp_all add: ss_inv_def sys_ok_def)
  from abort_spec [OF c _ a, of pack] s(3)
  have r: "ss_inv pack s'" "ss_state s' = SS_kAborted" "ss_reader s' = ss_reader s" "ss_writer s' = ss_writer s"
    "ss_link own s' chs'" "pool_frame own chs chs'" by simp_all
  show thesis
    by (rule that [OF s(1) _ sys_ok_update [OF assms(1) r(6,1,5)] r(2-4)])
      (use a s(1) r(6) in \<open>simp_all add: onBackendFailure_def pool_frame_def\<close>)
qed

lemma deliver_failures:
  assumes "sys_ok pack (set os) ss chs" and "distinct os"
  shows "\<exists>ss' chs'. deliver_all (map (\<lambda>own. Failure own st) os) (ss, chs) = Some (ss', chs') \<and>
    sys_ok pack {} ss' chs' \<and> ss_points ss' = ss_points ss \<and> length chs' = length chs \<and>
    (\<forall>i. if i \<in> set os then \<exists>s. ss' i = Some s \<and> ss_state s = SS_kAborted else ss' i = ss i)"
  using assms
proof (induction os arbitrary: ss chs)
  case (Cons own os)
  from Cons.prems(1) obtain s s' chs1 where
    d: "ss own = Some s" "deliver (Failure own st) (ss, chs) = Some (ss(own \<mapsto> s'), chs1)"
      "sys_ok pack (set (own # os) - {own}) (ss(own \<mapsto> s')) chs1" "ss_state s' = SS_kAborted"
      "ss_reader s' = ss_reader s" "ss_writer s' = ss_writer s" "length chs1 = length chs"
    by (rule deliver_failure [where own = own and st = st]) auto
  have "set (own # os) - {own} = set os" using Cons.prems(2) by auto
  with d(3) have "sys_ok pack (set os) (ss(own \<mapsto> s')) chs1" by simp
  moreover have "distinct os" using Cons.prems(2) by simp
  ultimately obtain ss' chs' where
    r: "deliver_all (map (\<lambda>own. Failure own st) os) (ss(own \<mapsto> s'), chs1) = Some (ss', chs')"
      "sys_ok pack {} ss' chs'" "ss_points ss' = ss_points (ss(own \<mapsto> s'))" "length chs' = length chs1"
      "\<forall>i. if i \<in> set os then \<exists>s. ss' i = Some s \<and> ss_state s = SS_kAborted else ss' i = (ss(own \<mapsto> s')) i"
    using Cons.IH by blast
  have "ss_points (ss(own \<mapsto> s')) = ss_points ss" using d(1,5,6) by (auto simp: ss_points_def fun_eq_iff)
  moreover have "\<forall>i. if i \<in> set (own # os) then \<exists>s. ss' i = Some s \<and> ss_state s = SS_kAborted else ss' i = ss i"
    using r(5) d(4) by (auto split: if_splits)
  ultimately show ?case using d(2,7) r by auto
qed simp

lemma deliver_reply:
  assumes "sys_ok pack {} ss chs" and "j < length chs" and "0 < ch_owed (chs ! j) own" and "ch_inv ch"
    and "ch_owed ch = (ch_owed (chs ! j))(own := ch_owed (chs ! j) own - 1)"
  shows "\<exists>s. ss own = Some s \<and> deliver (Reply own r) (ss, chs[j := ch]) =
      Some (ss(own \<mapsto> onBackendReply r s), chs[j := ch]) \<and> sys_ok pack {} (ss(own \<mapsto> onBackendReply r s)) (chs[j := ch])"
proof -
  obtain s where s: "ss own = Some s" "ss_inv pack s" "ss_current s = Some j" "ss_pending s \<noteq> 0"
    "\<And>k. k < length chs \<Longrightarrow> ch_owed (chs ! k) own = (if k = j then unat (ss_pending s) else 0)"
    using waiting_at [OF assms(1-3)] by metis
  have "at_ok pack {} (chs[j := ch]) i (ss i)" if "i \<noteq> own" for i
    using assms(1,5) that by (intro at_ok_channel assms(2)) (simp_all add: sys_ok_def)
  moreover have "ss_link own (onBackendReply r s) (chs[j := ch])"
    using s assms(2,5) unat_pred [OF s(4)] by (auto simp: ss_link_def nth_list_update)
  ultimately have "sys_ok pack {} (ss(own \<mapsto> onBackendReply r s)) (chs[j := ch])"
    using assms(1,4) reply_inv [OF s(2,4)] by (simp add: sys_ok_def at_ok_def list_all_update)
  with s(1) show ?thesis by simp
qed

text \<open>A channel has failed: the sessions that waited for it are those that are to be told.\<close>

lemma failed_pending:
  assumes "sys_ok pack {} ss chs" and "j < length chs" and "ch_inv ch" and "ch_owed ch = (\<lambda>_. 0)"
  shows "sys_ok pack {own. 0 < ch_owed (chs ! j) own} ss (chs[j := ch])"
proof -
  have "at_ok pack {own. 0 < ch_owed (chs ! j) own} (chs[j := ch]) i (ss i)" for i
  proof (cases "0 < ch_owed (chs ! j) i")
    case True
    then obtain s where s: "ss i = Some s" "ss_inv pack s" "ss_state s \<noteq> SS_kAborted"
      "\<And>k. k < length chs \<Longrightarrow> ch_owed (chs ! k) i = (if k = j then unat (ss_pending s) else 0)"
      using waiting_at [OF assms(1,2)] by metis
    then have "owed_none (chs[j := ch]) i"
      using assms(2,4) unfolding owed_none_def by (simp add: nth_list_update)
    with s True show ?thesis by (simp add: at_ok_def)
  next
    case False
    then have "at_ok pack {} (chs[j := ch]) i (ss i)"
      using assms(1,4) by (intro at_ok_channel assms(2)) (simp_all add: sys_ok_def)
    with False show ?thesis by (simp add: at_ok_def split: option.splits)
  qed
  then show ?thesis using assms(1,3) by (simp add: sys_ok_def list_all_update)
qed

lemma effect_delivered:
  assumes "sys_ok pack {} ss chs" and "j < length chs" and "ch_effect (chs ! j) cbs ch"
  shows "\<exists>ss' chs'. deliver_all cbs (ss, chs[j := ch]) = Some (ss', chs') \<and> sys_ok pack {} ss' chs' \<and>
    ss_points ss' = ss_points ss \<and> length chs' = length chs"
proof -
  have i: "ch_inv ch" using assms(3) by (simp add: ch_effect_def)
  from assms(3) consider
      "cbs = []" "ch_owed ch = ch_owed (chs ! j)"
    | own r where "cbs = [Reply own r]" "0 < ch_owed (chs ! j) own" "isHealthy ch = isHealthy (chs ! j)"
        "ch_owed ch = (ch_owed (chs ! j))(own := ch_owed (chs ! j) own - 1)"
    | st os where "cbs = map (\<lambda>own. Failure own st) os" "distinct os" "set os = {own. 0 < ch_owed (chs ! j) own}"
        "ch_owed ch = (\<lambda>_. 0)"
    by (auto simp: ch_effect_def)
  then show ?thesis
  proof cases
    case 1
    have "at_ok pack {} (chs[j := ch]) i (ss i)" for i
      using assms(1) 1(2) by (intro at_ok_channel assms(2)) (simp_all add: sys_ok_def)
    with 1 assms(1) i show ?thesis by (simp add: sys_ok_def list_all_update)
  next
    case 2
    from deliver_reply [OF assms(1,2) 2(2) i 2(4), of r] obtain s where
      d: "ss own = Some s" "deliver (Reply own r) (ss, chs[j := ch]) = Some (ss(own \<mapsto> onBackendReply r s), chs[j := ch])"
        "sys_ok pack {} (ss(own \<mapsto> onBackendReply r s)) (chs[j := ch])"
      by blast
    have "ss_points (ss(own \<mapsto> onBackendReply r s)) = ss_points ss"
      using d(1) by (simp add: ss_points_def fun_eq_iff)
    with d 2(1) show ?thesis by simp
  next
    case 3
    have "sys_ok pack (set os) ss (chs[j := ch])"
      using failed_pending [OF assms(1,2) i 3(4)] 3(3) by simp
    from deliver_failures [OF this 3(2), of st] 3(1) show ?thesis by fastforce
  qed
qed

lemma pool_stop_ok:
  assumes "hash_order order" and "sys_ok pack {} ss chs" and "list_all (\<lambda>j. j < length chs) js"
  shows "\<exists>ss' chs'. pool_stop order js (ss, chs) = Some (ss', chs') \<and> sys_ok pack {} ss' chs' \<and>
    ss_points ss' = ss_points ss \<and> length chs' = length chs"
  using assms(2,3)
proof (induction js arbitrary: ss chs)
  case (Cons j js)
  obtain ch cbs where h: "ch_halt order (chs ! j) = (ch, cbs)" by fastforce
  have j: "j < length chs" "ch_inv (chs ! j)" using Cons.prems by (auto simp: sys_ok_def list_all_length)
  from effect_delivered [OF Cons.prems(1) j(1) ch_halt_effect [OF assms(1) j(2) h]] obtain ss1 chs1 where
    1: "deliver_all cbs (ss, chs[j := ch]) = Some (ss1, chs1)" "sys_ok pack {} ss1 chs1"
      "ss_points ss1 = ss_points ss" "length chs1 = length chs" by blast
  have "list_all (\<lambda>j. j < length chs1) js" using Cons.prems(2) 1(4) by simp
  from Cons.IH [OF 1(2) this] h 1 show ?case by auto
qed simp

text \<open>A step of a session.\<close>

lemma session_step_ok:
  assumes "unpack_bounds up" and "sys_ok pack {} ss chs" and "ss i = Some s"
    and "ss_step up pack rules i s chs (s', chs', fin)" and "pool_fits chs'"
  shows "sys_ok pack {} (ss(i \<mapsto> s')) chs' \<and> length chs' = length chs \<and>
    (fin \<longleftrightarrow> ss_reader s' = SR_none \<and> ss_writer s' = SW_none)"
proof -
  have s: "ss_inv pack s" "ss_link i s chs" "list_all ch_inv chs"
    using sys_okD [OF assms(2,3)] assms(2) by (simp_all add: sys_ok_def)
  from ss_step_ok [OF assms(4,1) s(1,3,2) assms(5)]
  have r: "ss_inv pack s'" "ss_link i s' chs'" "pool_frame i chs chs'" "fin \<longleftrightarrow> ss_reader s' = SR_none \<and> ss_writer s' = SW_none"
    by (simp_all add: ss_ok_def)
  from sys_ok_update [OF assms(2) r(3,1,2)] r(3,4) show ?thesis by (simp add: pool_frame_def)
qed

lemma idle_owed: "ch_inv ch \<Longrightarrow> \<not> isHealthy ch \<Longrightarrow> ch_owed ch own = 0"
  using chan.idle [of remdups ch] by (simp add: ch_owed_def hash_order_remdups)

lemma waiting_channel:
  assumes "sys_ok pack {} ss chs" and "ss i = Some s" and "ss_pending s \<noteq> 0"
  shows "\<exists>ch \<in> set chs. isHealthy ch \<and> 0 < ch_owed ch i"
    and "\<exists>j < length chs. isHealthy (chs ! j) \<and> 0 < ch_owed (chs ! j) i"
proof -
  note s = sys_okD [OF assms(1,2)]
  then obtain j where j: "ss_current s = Some j" "j < length chs"
    using assms(3) by (cases "ss_state s") (auto simp: ss_inv_def ss_control_ok_def ss_history_ok_def ss_link_def)
  then have o: "0 < ch_owed (chs ! j) i" using s assms(3) by (simp add: ss_link_def unat_gt_0)
  have "ch_inv (chs ! j)" using assms(1) j by (simp add: sys_ok_def list_all_length)
  with o idle_owed have "isHealthy (chs ! j)" by fastforce
  with o j show "\<exists>ch \<in> set chs. isHealthy ch \<and> 0 < ch_owed ch i" "\<exists>j < length chs. isHealthy (chs ! j) \<and> 0 < ch_owed (chs ! j) i"
    using nth_mem by blast+
qed

lemma failure_delivered:
  assumes "hash_order order" and "sys_ok pack {} ss chs" and "j < length chs" and "ch_effect (chs ! j) cbs ch"
    and "\<not> isHealthy ch" and "deliver_all cbs (ss, chs[j := ch]) = Some (ss', chs')"
  shows "\<forall>i. if 0 < ch_owed (chs ! j) i
    then (\<exists>s. ss' i = Some s \<and> ss_state s = SS_kAborted) \<and> (\<forall>k < length chs'. ch_owed (chs' ! k) i = 0)
    else ss' i = ss i"
proof -
  have i: "ch_inv ch" using assms(4) by (simp add: ch_effect_def)
  have z: "ch_owed ch = (\<lambda>_. 0)" using idle_owed [OF i assms(5)] by blast
  have up: "isHealthy (chs ! j)" if "0 < ch_owed (chs ! j) own" for own
    using that idle_owed [of "chs ! j" own] assms(2,3) by (auto simp: sys_ok_def list_all_length)
  consider "cbs = []" "ch_owed (chs ! j) = (\<lambda>_. 0)"
    | st os where "cbs = map (\<lambda>own. Failure own st) os" "distinct os" "set os = {own. 0 < ch_owed (chs ! j) own}"
  proof -
    assume quiet: "cbs = [] \<Longrightarrow> ch_owed (chs ! j) = (\<lambda>_. 0) \<Longrightarrow> thesis"
      and fails: "\<And>st os. cbs = map (\<lambda>own. Failure own st) os \<Longrightarrow> distinct os \<Longrightarrow>
        set os = {own. 0 < ch_owed (chs ! j) own} \<Longrightarrow> thesis"
    from assms(4) show thesis
      unfolding ch_effect_def
    proof (elim conjE disjE exE)
      assume "cbs = []" "ch_owed ch = ch_owed (chs ! j)"
      with z quiet show thesis by simp
    next
      fix own r
      assume "0 < ch_owed (chs ! j) own" "isHealthy ch = isHealthy (chs ! j)"
      with up assms(5) show thesis by blast
    qed (rule fails)
  qed
  then show ?thesis
  proof cases
    case 1
    with assms(6) show ?thesis by simp
  next
    case 2
    have "sys_ok pack (set os) ss (chs[j := ch])" using failed_pending [OF assms(2,3) i z] 2(3) by simp
    from deliver_failures [OF this 2(2), of st] 2(1) assms(6)
    have d: "sys_ok pack {} ss' chs'" "\<forall>i. if i \<in> set os then \<exists>s. ss' i = Some s \<and> ss_state s = SS_kAborted else ss' i = ss i"
      by auto
    have "ch_owed (chs' ! k) i = 0" if "ss' i = Some s" "ss_state s = SS_kAborted" "k < length chs'" for i s k
      using sys_okD [OF d(1) that(1)] that(2,3) by (simp add: ss_inv_def ss_control_ok_def ss_link_def)
    note free = this
    show ?thesis
    proof
      fix i
      show "if 0 < ch_owed (chs ! j) i
        then (\<exists>s. ss' i = Some s \<and> ss_state s = SS_kAborted) \<and> (\<forall>k < length chs'. ch_owed (chs' ! k) i = 0)
        else ss' i = ss i"
        using d(2) [rule_format, of i] 2(3) free [of i] by (cases "i \<in> set os") auto
    qed
  qed
qed

section \<open>Stopping the pool\<close>

text \<open>A failure callback leaves a session as it was or aborted, and only takes owners off the channels.\<close>

definition stop_frame :: "sessions \<times> nat pool \<Rightarrow> sessions \<times> nat pool \<Rightarrow> bool" where
  "stop_frame w w' =
     (case (w, w') of ((ss, chs), (ss', chs')) \<Rightarrow>
        (\<forall>i. ss' i = ss i \<or> (\<exists>s. ss' i = Some s \<and> ss_state s = SS_kAborted)) \<and>
        length chs' = length chs \<and> list_all ch_inv chs' \<and>
        (\<forall>j < length chs. (ch_stop (chs ! j) \<longrightarrow> ch_stop (chs' ! j)) \<and>
           (isHealthy (chs' ! j) \<longrightarrow> isHealthy (chs ! j)) \<and>
           (\<forall>own. ch_owed (chs ! j) own = 0 \<longrightarrow> ch_owed (chs' ! j) own = 0)))"

lemma stop_frame_trans: "stop_frame a b \<Longrightarrow> stop_frame b c \<Longrightarrow> stop_frame a c"
  by (cases a; cases b; cases c; simp add: stop_frame_def; metis)

lemma stop_frame_refl: "list_all ch_inv chs \<Longrightarrow> stop_frame (ss, chs) (ss, chs)"
  by (simp add: stop_frame_def)

lemma stop_frame_failure:
  assumes "list_all ch_inv chs" and "deliver (Failure own st) (ss, chs) = Some w'"
  shows "stop_frame (ss, chs) w'"
proof -
  from assms(2) obtain s s' chs' where s: "ss own = Some s" "ss_abort own s chs = (s', chs')" "w' = (ss(own \<mapsto> s'), chs')"
    by (auto simp: onBackendFailure_def split: option.splits prod.splits)
  have inv: "ch_inv (chs ! j)" if "j < length chs" for j using assms(1) that by (simp add: list_all_length)
  have d: "stop_frame (ss, chs) (ss, pool_detachOwner (Some own) chs)"
    using inv detach_law
    by (auto simp: stop_frame_def pool_detachOwner_def list_all_length detach_owed)
      (simp add: detachOwner_def split: prod.splits)
  show ?thesis
  proof (cases rule: ss_abort_cases [of s own chs])
    case already
    with s have "w' = (ss(own \<mapsto> s), chs)" by simp
    moreover have "ss(own \<mapsto> s) = ss" using s(1) by auto
    ultimately show ?thesis using stop_frame_refl [OF assms(1)] by simp
  next
    case (aborts t)
    with s d show ?thesis by (simp add: stop_frame_def)
  qed
qed

lemma stop_frame_failures:
  assumes "list_all ch_inv chs" and "deliver_all (map (\<lambda>own. Failure own st) os) (ss, chs) = Some w'"
  shows "stop_frame (ss, chs) w'"
  using assms
proof (induction os arbitrary: ss chs)
  case (Cons own os)
  from Cons.prems(2) obtain ss1 chs1 where
    1: "deliver (Failure own st) (ss, chs) = Some (ss1, chs1)"
      "deliver_all (map (\<lambda>own. Failure own st) os) (ss1, chs1) = Some w'"
    by (auto simp: bind_Some_iff simp del: deliver.simps)
  note f = stop_frame_failure [OF Cons.prems(1) 1(1)]
  then have "list_all ch_inv chs1" by (simp add: stop_frame_def)
  from stop_frame_trans [OF f Cons.IH [OF this 1(2)]] show ?case .
qed (auto intro: stop_frame_refl)

definition halted :: "nat channel \<Rightarrow> bool" where
  "halted ch \<longleftrightarrow> ch_stop ch \<and> \<not> isHealthy ch \<and> (\<forall>own. ch_owed ch own = 0)"

lemma stop_frame_halted:
  "stop_frame (ss, chs) (ss', chs') \<Longrightarrow> j < length chs \<Longrightarrow> halted (chs ! j) \<Longrightarrow> halted (chs' ! j)"
  by (auto simp: stop_frame_def halted_def)

lemma halt_spec:
  assumes "hash_order order" and "ch_inv ch" and "ch_halt order ch = (ch', cbs)"
  shows "ch_inv ch' \<and> halted ch' \<and> (\<exists>st os. cbs = map (\<lambda>own. Failure own st) os)"
proof -
  have "ch_stop ch' \<and> \<not> isHealthy ch' \<and> (\<exists>st os. cbs = map (\<lambda>own. Failure own st) os)"
    using assms(3) by (auto simp: ch_halt_def failConnection_def ch_notify_def isHealthy_def Let_def split: if_splits)
  moreover have i: "ch_inv ch'" by (rule halt_inv [OF assms])
  moreover from calculation chan.idle [OF conjI [OF assms(1) i]] have "\<forall>own. ch_owed ch' own = 0"
    by (simp add: ch_owed_def)
  ultimately show ?thesis by (simp add: halted_def)
qed

lemma pool_stop_spec:
  assumes "hash_order order" and "list_all ch_inv chs" and "list_all (\<lambda>j. j < length chs) js"
    and "pool_stop order js (ss, chs) = Some (ss', chs')"
  shows "(\<forall>i. ss' i = ss i \<or> (\<exists>s. ss' i = Some s \<and> ss_state s = SS_kAborted)) \<and> length chs' = length chs \<and>
    (\<forall>j < length chs. j \<in> set js \<or> halted (chs ! j) \<longrightarrow> halted (chs' ! j))"
  using assms(2-4)
proof (induction js arbitrary: ss chs)
  case (Cons j js)
  obtain ch cbs where h: "ch_halt order (chs ! j) = (ch, cbs)" by fastforce
  have j: "j < length chs" "ch_inv (chs ! j)" using Cons.prems by (auto simp: list_all_length)
  from Cons.prems(3) h obtain ss1 chs1 where
    1: "deliver_all cbs (ss, chs[j := ch]) = Some (ss1, chs1)" "pool_stop order js (ss1, chs1) = Some (ss', chs')"
    by (auto simp: bind_Some_iff)
  note ch = halt_spec [OF assms(1) j(2) h]
  then have "list_all ch_inv (chs[j := ch])" using Cons.prems(1) by (simp add: list_all_update)
  with ch 1(1) have f: "stop_frame (ss, chs[j := ch]) (ss1, chs1)" using stop_frame_failures by blast
  then have l: "length chs1 = length chs" "list_all ch_inv chs1" by (simp_all add: stop_frame_def)
  have "list_all (\<lambda>j. j < length chs1) js" using Cons.prems(2) l(1) by simp
  note ih = Cons.IH [OF l(2) this 1(2)]
  have "halted (chs1 ! k)" if "k < length chs" "k = j \<or> halted (chs ! k)" for k
    using stop_frame_halted [OF f, of k] that ch j(1) by (cases "k = j") simp_all
  moreover have "ss' i = ss i \<or> (\<exists>s. ss' i = Some s \<and> ss_state s = SS_kAborted)" for i
  proof -
    have "ss1 i = ss i \<or> (\<exists>s. ss1 i = Some s \<and> ss_state s = SS_kAborted)" using f by (simp add: stop_frame_def)
    with ih show ?thesis by metis
  qed
  ultimately show ?case using ih l(1) by simp
qed simp

text \<open>A session that waits for nothing is not called back.\<close>

lemma idle_session:
  "sys_ok pack {} ss chs \<Longrightarrow> \<nexists>s. ss i = Some s \<and> ss_pending s \<noteq> 0 \<Longrightarrow> k < length chs \<Longrightarrow> ch_owed (chs ! k) i = 0"
  by (cases "ss i") (auto simp: sys_ok_def at_ok_def owed_none_def ss_link_def dest!: spec [of _ i])

lemma pool_stop_idle:
  assumes "hash_order order" and "sys_ok pack {} ss chs" and "list_all (\<lambda>j. j < length chs) js"
    and "pool_stop order js (ss, chs) = Some (ss', chs')" and "\<nexists>s. ss i = Some s \<and> ss_pending s \<noteq> 0"
  shows "ss' i = ss i"
  using assms(2-5)
proof (induction js arbitrary: ss chs)
  case (Cons j js)
  obtain ch cbs where h: "ch_halt order (chs ! j) = (ch, cbs)" by fastforce
  have j: "j < length chs" "ch_inv (chs ! j)" using Cons.prems by (auto simp: sys_ok_def list_all_length)
  note e = ch_halt_effect [OF assms(1) j(2) h]
  from effect_delivered [OF Cons.prems(1) j(1) e] obtain ss1 chs1 where
    1: "deliver_all cbs (ss, chs[j := ch]) = Some (ss1, chs1)" "sys_ok pack {} ss1 chs1" "length chs1 = length chs" by blast
  have "\<not> isHealthy ch" using halt_spec [OF assms(1) j(2) h] by (simp add: halted_def)
  from failure_delivered [OF assms(1) Cons.prems(1) j(1) e this 1(1)] idle_session [OF Cons.prems(1,4) j(1)]
  have same: "ss1 i = ss i" by (auto dest: spec [of _ i])
  have "list_all (\<lambda>j. j < length chs1) js" "pool_stop order js (ss1, chs1) = Some (ss', chs')"
    using Cons.prems(2,3) h 1 by simp_all
  from Cons.IH [OF 1(2) this] Cons.prems(4) same show ?case by simp
qed simp

end
