(* ===== verification/Worker.thy ===== *)
theory Worker
  imports Proxy_System
begin

text \<open>
  \<^verbatim>\<open>Worker\<close> of \<^verbatim>\<open>src/worker.cpp\<close>: one thread with its channels and sessions. The
  accepting thread hands it descriptors through a locked queue, a flag and a notifier;
  its main coroutine turns them into sessions, destroys the finished ones and sleeps in
  \<^verbatim>\<open>poll\<close>.

  \<open>'n\<close> is the state of \<^verbatim>\<open>conn_util::FdNotifier\<close>, of a submodule: \<open>ntf\<close> and \<open>drn\<close> are its
  \<^verbatim>\<open>notify\<close> and \<^verbatim>\<open>drain\<close>, \<open>rd\<close> says whether its descriptor is readable. A session's address
  is a number that no live session has; it may have been the address of an earlier one.
\<close>

section \<open>State\<close>

text \<open>
  Where the main coroutine is: not started, at the head of its loop, in \<^verbatim>\<open>reapFds\<close> after
  it has seen the flag, in \<^verbatim>\<open>co_poll\<close>. Where the accepting thread is in \<^verbatim>\<open>dispatchFd\<close>:
  outside, between the two assignments (it holds the lock), before \<^verbatim>\<open>notify\<close>.
\<close>

datatype main_point = MP_none | MP_head | MP_swap | MP_poll

datatype dispatch_point = DP_idle | DP_pushed | DP_flagged

text \<open>The last two fields are the history: the descriptors handed over, and those that got a session.\<close>

record 'n worker =
  wk_id :: int
  wk_config :: config
  wk_rules :: command_rules
  wk_pending_fds :: "int list"
  wk_has_pending :: bool
  wk_notifier :: 'n
  wk_pool :: "nat pool"
  wk_sessions :: sessions
  wk_finished :: "nat list"
  wk_main :: main_point
  wk_dispatch :: dispatch_point
  wk_dispatched :: "int list"
  wk_adopted :: "int list"

definition Worker_new :: "int \<Rightarrow> config \<Rightarrow> command_rules \<Rightarrow> 'n \<Rightarrow> 'n worker" where
  "Worker_new wid cfg rules n =
     \<lparr>wk_id = wid, wk_config = cfg, wk_rules = rules, wk_pending_fds = [], wk_has_pending = False,
      wk_notifier = n, wk_pool = BackendPool_new cfg, wk_sessions = Map.empty, wk_finished = [],
      wk_main = MP_none, wk_dispatch = DP_idle, wk_dispatched = [], wk_adopted = []\<rparr>"

section \<open>Handing over a descriptor\<close>

definition dispatch_push :: "int \<Rightarrow> 'n worker \<Rightarrow> 'n worker" where
  "dispatch_push fd w =
     w\<lparr>wk_pending_fds := wk_pending_fds w @ [fd], wk_dispatch := DP_pushed, wk_dispatched := wk_dispatched w @ [fd]\<rparr>"

definition dispatch_flag :: "'n worker \<Rightarrow> 'n worker" where
  "dispatch_flag w = w\<lparr>wk_has_pending := True, wk_dispatch := DP_flagged\<rparr>"

definition dispatch_notify :: "('n \<Rightarrow> 'n) \<Rightarrow> 'n worker \<Rightarrow> 'n worker" where
  "dispatch_notify ntf w = w\<lparr>wk_notifier := ntf (wk_notifier w), wk_dispatch := DP_idle\<rparr>"

definition dispatchFd :: "('n \<Rightarrow> 'n) \<Rightarrow> int \<Rightarrow> 'n worker \<Rightarrow> 'n worker" where
  "dispatchFd ntf fd w = dispatch_notify ntf (dispatch_flag (dispatch_push fd w))"

section \<open>The main coroutine\<close>

definition wk_run :: "'n worker \<Rightarrow> 'n worker" where
  "wk_run w = w\<lparr>wk_pool := pool_start (wk_config w) (wk_pool w), wk_main := MP_head\<rparr>"

definition reapSessions :: "'n worker \<Rightarrow> 'n worker" where
  "reapSessions w = w\<lparr>wk_sessions := wk_sessions w |` (- set (wk_finished w)), wk_finished := []\<rparr>"

text \<open>The sessions for the descriptors, the \<open>k\<close>-th at the \<open>k\<close>-th address.\<close>

fun adopt :: "config \<Rightarrow> nat list \<Rightarrow> int list \<Rightarrow> sessions \<Rightarrow> sessions" where
  "adopt cfg (i # ids) (fd # queue) ss = adopt cfg ids queue (ss(i \<mapsto> ss_start (ClientSession_new fd cfg)))"
| "adopt cfg _ _ ss = ss"

text \<open>
  The loop body up to the test of the flag, and from there to \<^verbatim>\<open>co_poll\<close>; \<open>ids\<close> are the
  addresses of the new sessions.
\<close>

definition main_head :: "'n worker \<Rightarrow> 'n worker" where
  "main_head w =
     (if \<not> wk_has_pending w then (reapSessions w)\<lparr>wk_main := MP_poll\<rparr> else w\<lparr>wk_main := MP_swap\<rparr>)"

definition reapFds :: "nat list \<Rightarrow> 'n worker \<Rightarrow> 'n worker" where
  "reapFds ids w =
     w\<lparr>wk_pending_fds := [], wk_has_pending := False,
       wk_sessions := adopt (wk_config w) ids (wk_pending_fds w) (wk_sessions w),
       wk_adopted := wk_adopted w @ wk_pending_fds w\<rparr>"

definition main_swap :: "nat list \<Rightarrow> 'n worker \<Rightarrow> 'n worker" where
  "main_swap ids w = (reapSessions (reapFds ids w))\<lparr>wk_main := MP_poll\<rparr>"

definition main_polled :: "('n \<Rightarrow> 'n) \<Rightarrow> int \<Rightarrow> 'n worker \<Rightarrow> 'n worker" where
  "main_polled drn ret w =
     w\<lparr>wk_notifier := (if ret > 0 then drn (wk_notifier w) else wk_notifier w), wk_main := MP_head\<rparr>"

text \<open>The callback given to a session.\<close>

definition session_finished :: "('n \<Rightarrow> 'n) \<Rightarrow> nat \<Rightarrow> 'n worker \<Rightarrow> 'n worker" where
  "session_finished ntf i w = w\<lparr>wk_finished := wk_finished w @ [i], wk_notifier := ntf (wk_notifier w)\<rparr>"

section \<open>Steps\<close>

text \<open>
  One step of the accepting thread, of the main coroutine, of a channel with the
  callbacks it makes, of a session, or a call of \<^verbatim>\<open>BackendPool::stop\<close>.
\<close>

inductive wk_step ::
  "unpacker \<Rightarrow> (string \<Rightarrow> bytes) \<Rightarrow> (nat list \<Rightarrow> nat list) \<Rightarrow> ('n \<Rightarrow> 'n) \<Rightarrow> ('n \<Rightarrow> 'n) \<Rightarrow> 'n worker \<Rightarrow> 'n worker \<Rightarrow> bool"
  for up :: unpacker and pack :: "string \<Rightarrow> bytes" and order :: "nat list \<Rightarrow> nat list" and ntf drn :: "'n \<Rightarrow> 'n"
where
  wk_push: "wk_dispatch w = DP_idle \<Longrightarrow> wk_step up pack order ntf drn w (dispatch_push fd w)"
| wk_flag: "wk_dispatch w = DP_pushed \<Longrightarrow> wk_step up pack order ntf drn w (dispatch_flag w)"
| wk_notify: "wk_dispatch w = DP_flagged \<Longrightarrow> wk_step up pack order ntf drn w (dispatch_notify ntf w)"
| wk_runs: "wk_main w = MP_none \<Longrightarrow> wk_step up pack order ntf drn w (wk_run w)"
| wk_heads: "wk_main w = MP_head \<Longrightarrow> wk_step up pack order ntf drn w (main_head w)"
| wk_swaps: "wk_main w = MP_swap \<Longrightarrow> wk_dispatch w \<noteq> DP_pushed \<Longrightarrow> distinct ids \<Longrightarrow>
    length ids = length (wk_pending_fds w) \<Longrightarrow> set ids \<inter> dom (wk_sessions w) = {} \<Longrightarrow>
    wk_step up pack order ntf drn w (main_swap ids w)"
| wk_polled: "wk_main w = MP_poll \<Longrightarrow> wk_step up pack order ntf drn w (main_polled drn ret w)"
| wk_channel: "j < length (wk_pool w) \<Longrightarrow> ch_step up order (wk_pool w ! j) cbs ch \<Longrightarrow>
    deliver_all cbs (wk_sessions w, (wk_pool w)[j := ch]) = Some (ss, chs) \<Longrightarrow>
    wk_step up pack order ntf drn w (w\<lparr>wk_sessions := ss, wk_pool := chs\<rparr>)"
| wk_session: "wk_sessions w i = Some s \<Longrightarrow>
    ss_step up pack (wk_rules w) i s (wk_pool w) (s', chs, fin) \<Longrightarrow>
    w1 = w\<lparr>wk_sessions := (wk_sessions w)(i \<mapsto> s'), wk_pool := chs\<rparr> \<Longrightarrow>
    wk_step up pack order ntf drn w (if fin then session_finished ntf i w1 else w1)"
| wk_stops: "pool_stop order [0..<length (wk_pool w)] (wk_sessions w, wk_pool w) = Some (ss, chs) \<Longrightarrow>
    wk_step up pack order ntf drn w (w\<lparr>wk_sessions := ss, wk_pool := chs\<rparr>)"

text \<open>A worker starts with a batch limit that fits the batch counter; no channel outgrows its counter.\<close>

definition wk_init :: "'n worker \<Rightarrow> bool" where
  "wk_init w \<longleftrightarrow> (\<exists>wid cfg rules n. w = Worker_new wid cfg rules n \<and> cf_max_pipeline cfg < 2 ^ 32)"

definition wk_next ::
  "unpacker \<Rightarrow> (string \<Rightarrow> bytes) \<Rightarrow> (nat list \<Rightarrow> nat list) \<Rightarrow> ('n \<Rightarrow> 'n) \<Rightarrow> ('n \<Rightarrow> 'n) \<Rightarrow> 'n worker \<Rightarrow> 'n worker \<Rightarrow> bool" where
  "wk_next up pack order ntf drn w w' \<longleftrightarrow> wk_step up pack order ntf drn w w' \<and> pool_fits (wk_pool w')"

section \<open>The invariant\<close>

text \<open>The finished sessions are those whose coroutines have both ended.\<close>

definition finished_ok :: "'n worker \<Rightarrow> bool" where
  "finished_ok w \<longleftrightarrow>
     distinct (wk_finished w) \<and> set (wk_finished w) = {i. ss_points (wk_sessions w) i = Some (SR_none, SW_none)}"

text \<open>
  Nothing is lost between the threads: what is queued is announced by the flag or about
  to be, and the main coroutine does not sleep on work unless it is about to be notified.
\<close>

definition handover_ok :: "('n \<Rightarrow> bool) \<Rightarrow> 'n worker \<Rightarrow> bool" where
  "handover_ok rd w \<longleftrightarrow>
     wk_dispatched w = wk_adopted w @ wk_pending_fds w \<and>
     (wk_pending_fds w \<noteq> [] \<longrightarrow> wk_dispatch w = DP_pushed \<or> wk_has_pending w) \<and>
     (wk_has_pending w \<and> wk_main w = MP_poll \<longrightarrow> wk_dispatch w = DP_flagged \<or> rd (wk_notifier w)) \<and>
     (wk_finished w \<noteq> [] \<and> wk_main w = MP_poll \<longrightarrow> rd (wk_notifier w))"

definition wk_inv :: "(string \<Rightarrow> bytes) \<Rightarrow> ('n \<Rightarrow> bool) \<Rightarrow> 'n worker \<Rightarrow> bool" where
  "wk_inv pack rd w \<longleftrightarrow>
     cf_max_pipeline (wk_config w) < 2 ^ 32 \<and> sys_ok pack {} (wk_sessions w) (wk_pool w) \<and>
     finished_ok w \<and> handover_ok rd w"

lemma wk_inv_new:
  assumes "cf_max_pipeline cfg < 2 ^ 32"
  shows "wk_inv pack rd (Worker_new wid cfg rules n)"
proof -
  have "list_all ch_inv (BackendPool_new cfg :: nat pool)" by (simp add: BackendPool_new_def ch_inv_new list_all_iff)
  moreover have "ch_owed BackendChannel_new i = 0" for i
    by (simp add: ch_owed_def ch_sent_def ch_unsent_def BackendChannel_new_def)
  ultimately show ?thesis
    using assms
    by (simp add: wk_inv_def Worker_new_def sys_ok_def at_ok_def owed_none_def finished_ok_def handover_ok_def
        ss_points_def BackendPool_new_def)
qed

lemma sys_ok_start:
  assumes "sys_ok pack {} ss chs"
  shows "sys_ok pack {} ss (pool_start cfg chs)"
proof -
  have owed: "ch_owed (pool_start cfg chs ! j) i = ch_owed (chs ! j) i" if "j < length chs" for i j
    using that by (simp add: pool_start_def ch_start_def ch_owed_def ch_sent_def ch_unsent_def)
  have frame: "pool_frame i chs (pool_start cfg chs)" for i
    using assms owed by (auto simp: pool_frame_def sys_ok_def pool_start_def list_all_length start_inv)
  have "at_ok pack {} (pool_start cfg chs) i (ss i)" for i
    by (rule at_ok_frame [OF frame [of "Suc i"], where T = "{}"]) (use assms in \<open>simp_all add: sys_ok_def\<close>)
  with frame show ?thesis by (simp add: sys_ok_def pool_frame_def)
qed

lemma sys_ok_reap:
  assumes "sys_ok pack {} ss chs" and "\<And>i. i \<in> F \<Longrightarrow> ss_points ss i = Some (SR_none, SW_none)"
  shows "sys_ok pack {} (ss |` (- F)) chs"
proof -
  have "at_ok pack {} chs i ((ss |` (- F)) i)" for i
  proof (cases "i \<in> F")
    case True
    then obtain s where s: "ss i = Some s" "ss_reader s = SR_none" "ss_writer s = SW_none"
      using assms(2) [of i] by (auto simp: ss_points_def)
    with sys_okD [OF assms(1) s(1)] closed_idle(1) [of pack s] have "owed_none chs i"
      by (simp add: ss_link_def owed_none_def)
    with True show ?thesis by (simp add: at_ok_def)
  next
    case False
    with assms(1) show ?thesis by (simp add: sys_ok_def)
  qed
  with assms(1) show ?thesis by (simp add: sys_ok_def)
qed

lemma sys_ok_adopt:
  assumes "sys_ok pack {} ss chs" and "cf_max_pipeline cfg < 2 ^ 32"
    and "distinct ids" and "set ids \<inter> dom ss = {}"
  shows "sys_ok pack {} (adopt cfg ids queue ss) chs \<and>
    ss_points (adopt cfg ids queue ss) -` {Some (SR_none, SW_none)} = ss_points ss -` {Some (SR_none, SW_none)}"
  using assms(1,3,4)
proof (induction ids arbitrary: queue ss)
  case (Cons i ids)
  let ?new = "\<lambda>fd. ss_start (ClientSession_new fd cfg)"
  show ?case
  proof (cases queue)
    case (Cons fd queue')
    have none: "ss i = None" using Cons.prems(3) by (auto simp: dom_def)
    then have "owed_none chs i" using Cons.prems(1) unfolding sys_ok_def at_ok_def by (auto dest!: spec [of _ i])
    then have "ss_link i (?new fd) chs" by (simp add: ss_link_def owed_none_def ss_start_def ClientSession_new_def)
    moreover have "pool_frame i chs chs" using Cons.prems(1) by (simp add: pool_frame_refl sys_ok_def)
    ultimately have 1: "sys_ok pack {} (ss(i \<mapsto> ?new fd)) chs"
      using sys_ok_update [OF Cons.prems(1) _ ss_inv_new [OF assms(2)]] by simp
    have 2: "distinct ids" "set ids \<inter> dom (ss(i \<mapsto> ?new fd)) = {}" using Cons.prems(2,3) by auto
    have 3: "ss_points (ss(i \<mapsto> ?new fd)) -` {Some (SR_none, SW_none)} = ss_points ss -` {Some (SR_none, SW_none)}"
      using none by (auto simp: ss_points_def ss_start_def split: if_splits)
    show ?thesis using Cons.IH [OF 1 2, of queue'] unfolding \<open>queue = fd # queue'\<close> adopt.simps 3 .
  qed (use Cons.prems in simp)
qed simp

lemma ss_step_alive:
  "ss_step up pack rules i s chs r \<Longrightarrow> ss_reader s \<noteq> SR_none \<or> ss_writer s \<noteq> SW_none"
  by (cases rule: ss_step.cases) auto

text \<open>Every step keeps the invariant.\<close>

lemma session_step_inv:
  assumes "unpack_bounds up" and "\<And>n. rd (ntf n)" and "wk_inv pack rd w" and "wk_sessions w i = Some s"
    and "ss_step up pack rules i s (wk_pool w) (s', chs, fin)" and "pool_fits chs"
    and "w1 = w\<lparr>wk_sessions := (wk_sessions w)(i \<mapsto> s'), wk_pool := chs\<rparr>"
  shows "wk_inv pack rd (if fin then session_finished ntf i w1 else w1)"
proof -
  have "sys_ok pack {} (wk_sessions w) (wk_pool w)" using assms(3) by (simp add: wk_inv_def)
  note ok = session_step_ok [OF assms(1) this assms(4-6)]
  have alive: "i \<notin> set (wk_finished w)"
    using ss_step_alive [OF assms(5)] assms(3,4) by (auto simp: wk_inv_def finished_ok_def ss_points_def)
  have "finished_ok (if fin then session_finished ntf i w1 else w1)"
    using assms(3,4) ok alive
    by (auto simp: wk_inv_def finished_ok_def ss_points_def assms(7) session_finished_def split: if_splits)
  moreover have "handover_ok rd (if fin then session_finished ntf i w1 else w1)"
    using assms(2,3) by (auto simp: wk_inv_def handover_ok_def assms(7) session_finished_def)
  ultimately show ?thesis
    using ok assms(3) by (simp add: wk_inv_def assms(7) session_finished_def)
qed

lemma callbacks_inv:
  assumes "wk_inv pack rd w" and "sys_ok pack {} ss chs" and "ss_points ss = ss_points (wk_sessions w)"
  shows "wk_inv pack rd (w\<lparr>wk_sessions := ss, wk_pool := chs\<rparr>)"
  using assms by (simp add: wk_inv_def finished_ok_def handover_ok_def)

lemma reap_inv:
  assumes "sys_ok pack {} (wk_sessions w) (wk_pool w)" and "finished_ok w"
  shows "sys_ok pack {} (wk_sessions (reapSessions w)) (wk_pool (reapSessions w))" "finished_ok (reapSessions w)"
proof -
  show "sys_ok pack {} (wk_sessions (reapSessions w)) (wk_pool (reapSessions w))"
    using assms sys_ok_reap [OF assms(1), of "set (wk_finished w)"] by (simp add: reapSessions_def finished_ok_def)
  show "finished_ok (reapSessions w)"
    using assms(2) by (auto simp: reapSessions_def finished_ok_def ss_points_def restrict_map_def)
qed

lemma main_inv:
  assumes "wk_inv pack rd w"
  shows "wk_inv pack rd (wk_run w)" "wk_inv pack rd (main_head w)" "wk_inv pack rd (main_polled drn ret w)"
proof -
  have w: "sys_ok pack {} (wk_sessions w) (wk_pool w)" "finished_ok w" using assms by (simp_all add: wk_inv_def)
  show "wk_inv pack rd (wk_run w)"
    using assms sys_ok_start [OF w(1), of "wk_config w"]
    by (simp add: wk_inv_def wk_run_def finished_ok_def handover_ok_def)
  show "wk_inv pack rd (main_polled drn ret w)"
    using assms by (simp add: wk_inv_def main_polled_def finished_ok_def handover_ok_def)
  show "wk_inv pack rd (main_head w)"
    using assms reap_inv [OF w] by (auto simp: wk_inv_def main_head_def finished_ok_def handover_ok_def reapSessions_def)
qed

lemma swap_inv:
  assumes "wk_inv pack rd w" and "wk_dispatch w \<noteq> DP_pushed" and "distinct ids"
    and "set ids \<inter> dom (wk_sessions w) = {}"
  shows "wk_inv pack rd (main_swap ids w)"
proof -
  let ?w = "reapFds ids w"
  have w: "sys_ok pack {} (wk_sessions w) (wk_pool w)" "cf_max_pipeline (wk_config w) < 2 ^ 32" "finished_ok w"
    "handover_ok rd w"
    using assms by (simp_all add: wk_inv_def)
  note a = sys_ok_adopt [OF w(1,2) assms(3,4), of "wk_pending_fds w"]
  have "sys_ok pack {} (wk_sessions ?w) (wk_pool ?w)" using a by (simp add: reapFds_def)
  moreover have "finished_ok ?w" using a w(3) by (simp add: finished_ok_def reapFds_def vimage_def)
  ultimately have "sys_ok pack {} (wk_sessions (reapSessions ?w)) (wk_pool (reapSessions ?w))" "finished_ok (reapSessions ?w)"
    by (rule reap_inv)+
  moreover have "handover_ok rd (main_swap ids w)"
    using w(4) by (simp add: handover_ok_def main_swap_def reapSessions_def reapFds_def)
  ultimately show ?thesis
    using w(2) by (simp add: wk_inv_def main_swap_def finished_ok_def) (simp add: reapSessions_def reapFds_def)
qed

lemma dispatch_steps_inv:
  assumes "wk_inv pack rd w"
  shows "wk_dispatch w = DP_idle \<Longrightarrow> wk_inv pack rd (dispatch_push fd w)"
    and "wk_dispatch w = DP_pushed \<Longrightarrow> wk_inv pack rd (dispatch_flag w)"
    and "rd (ntf (wk_notifier w)) \<Longrightarrow> wk_dispatch w = DP_flagged \<Longrightarrow> wk_inv pack rd (dispatch_notify ntf w)"
proof -
  have w: "sys_ok pack {} (wk_sessions w) (wk_pool w)" "cf_max_pipeline (wk_config w) < 2 ^ 32" "finished_ok w"
    "handover_ok rd w"
    using assms by (simp_all add: wk_inv_def)
  show "wk_inv pack rd (dispatch_push fd w)" if "wk_dispatch w = DP_idle"
    using w that by (simp add: wk_inv_def dispatch_push_def finished_ok_def handover_ok_def)
  show "wk_inv pack rd (dispatch_flag w)" if "wk_dispatch w = DP_pushed"
    using w that by (simp add: wk_inv_def dispatch_flag_def finished_ok_def handover_ok_def)
  show "wk_inv pack rd (dispatch_notify ntf w)" if "rd (ntf (wk_notifier w))" "wk_dispatch w = DP_flagged"
    using w that by (auto simp: wk_inv_def dispatch_notify_def finished_ok_def handover_ok_def)
qed

lemma wk_next_inv:
  assumes "hash_order order" and "unpack_bounds up" and "\<And>n. rd (ntf n)"
    and "wk_inv pack rd w" and "wk_next up pack order ntf drn w w'"
  shows "wk_inv pack rd w'"
proof -
  have sys: "sys_ok pack {} (wk_sessions w) (wk_pool w)" using assms(4) by (simp add: wk_inv_def)
  have fits: "pool_fits (wk_pool w')" using assms(5) by (simp add: wk_next_def)
  from assms(5) have "wk_step up pack order ntf drn w w'" by (simp add: wk_next_def)
  then show ?thesis
  proof cases
    case (wk_push fd)
    then show ?thesis using dispatch_steps_inv(1) [OF assms(4)] by simp
  next
    case wk_flag
    then show ?thesis using dispatch_steps_inv(2) [OF assms(4)] by simp
  next
    case wk_notify
    then show ?thesis using dispatch_steps_inv(3) [OF assms(4), of ntf] assms(3) by simp
  next
    case wk_runs
    then show ?thesis using main_inv(1) [OF assms(4)] by simp
  next
    case wk_heads
    then show ?thesis using main_inv(2) [OF assms(4)] by simp
  next
    case (wk_swaps ids)
    then show ?thesis using swap_inv [OF assms(4)] by simp
  next
    case (wk_polled ret)
    then show ?thesis using main_inv(3) [OF assms(4)] by simp
  next
    case (wk_channel j cbs ch ss chs)
    have "ch_inv (wk_pool w ! j)" using sys wk_channel(2) by (simp add: sys_ok_def list_all_length)
    from effect_delivered [OF sys wk_channel(2) ch_step_effect [OF assms(1) this wk_channel(3)]] wk_channel(4)
    have "sys_ok pack {} ss chs" "ss_points ss = ss_points (wk_sessions w)" by auto
    from callbacks_inv [OF assms(4) this] wk_channel(1) show ?thesis by simp
  next
    case (wk_session i s s' chs fin w1)
    have "pool_fits chs" using fits wk_session(1,4) by (simp add: session_finished_def split: if_splits)
    from session_step_inv [where ntf = ntf, OF assms(2,3,4) wk_session(2,3) this wk_session(4)] wk_session(1)
    show ?thesis by simp
  next
    case (wk_stops ss chs)
    from pool_stop_ok [OF assms(1) sys, of "[0..<length (wk_pool w)]"] wk_stops(2)
    have "sys_ok pack {} ss chs" "ss_points ss = ss_points (wk_sessions w)" by (auto simp: list_all_iff)
    from callbacks_inv [OF assms(4) this] wk_stops(1) show ?thesis by simp
  qed
qed

text \<open>What the sources rely on of the code they call: the decoder, the set, the notifier.\<close>

definition env_ok :: "unpacker \<Rightarrow> (nat list \<Rightarrow> nat list) \<Rightarrow> ('n \<Rightarrow> 'n) \<Rightarrow> ('n \<Rightarrow> bool) \<Rightarrow> bool" where
  "env_ok up order ntf rd \<longleftrightarrow> unpack_bounds up \<and> hash_order order \<and> (\<forall>n. rd (ntf n))"

interpretation wk_sys: invariant_system wk_init "wk_next up pack order ntf drn"
  "\<lambda>w. env_ok up order ntf rd \<longrightarrow> wk_inv pack rd w"
  for up pack order ntf drn rd
proof unfold_locales
  show "wk_init w \<Longrightarrow> env_ok up order ntf rd \<longrightarrow> wk_inv pack rd w" for w
    using wk_inv_new by (auto simp: wk_init_def)
  show "env_ok up order ntf rd \<longrightarrow> wk_inv pack rd w \<Longrightarrow> wk_next up pack order ntf drn w w' \<Longrightarrow>
    env_ok up order ntf rd \<longrightarrow> wk_inv pack rd w'" for w w'
    using wk_next_inv [of order up rd ntf pack w drn w'] unfolding env_ok_def by blast
qed

lemma reach_wk_inv:
  "env_ok up order ntf rd \<Longrightarrow> reach wk_init (wk_next up pack order ntf drn) w \<Longrightarrow> wk_inv pack rd w"
  using wk_sys.reach_inv by blast

lemma reach_fits: "reach wk_init (wk_next up pack order ntf drn) w \<Longrightarrow> pool_fits (wk_pool w)"
proof (induction rule: reach.induct)
  case (reach_init w)
  then show ?case
    by (auto simp: wk_init_def Worker_new_def pool_fits_def BackendPool_new_def BackendChannel_new_def list_all_iff
        ch_sent_def ch_unsent_def)
qed (simp add: wk_next_def)

lemma adopt_other: "i \<notin> set ids \<Longrightarrow> adopt cfg ids queue ss i = ss i"
  by (induction cfg ids queue ss rule: adopt.induct) auto

lemma points_dom: "ss_points ss' = ss_points ss \<Longrightarrow> ss' i = None \<longleftrightarrow> ss i = None"
  by (drule fun_cong [of _ _ i]) (auto simp: ss_points_def)

lemma destroyed_finished:
  assumes "env_ok up order ntf rd" and "wk_inv pack rd w" and "wk_step up pack order ntf drn w w'"
    and "wk_sessions w i = Some s" and "wk_sessions w' i = None"
  shows "i \<in> set (wk_finished w)"
proof -
  have sys: "sys_ok pack {} (wk_sessions w) (wk_pool w)" and e: "hash_order order"
    using assms(1,2) by (simp_all add: wk_inv_def env_ok_def)
  from assms(3) show ?thesis
  proof cases
    case wk_heads
    with assms(4,5) show ?thesis
      by (auto simp: main_head_def reapSessions_def restrict_map_def split: if_splits)
  next
    case (wk_swaps ids)
    then have "i \<notin> set ids" using assms(4) by auto
    with wk_swaps assms(4,5) show ?thesis
      by (auto simp: main_swap_def reapSessions_def reapFds_def adopt_other restrict_map_def split: if_splits)
  next
    case (wk_channel j cbs ch ss chs)
    have "ch_inv (wk_pool w ! j)" using sys wk_channel(2) by (simp add: sys_ok_def list_all_length)
    from effect_delivered [OF sys wk_channel(2) ch_step_effect [OF e this wk_channel(3)]] wk_channel(4)
    have "ss_points ss = ss_points (wk_sessions w)" by auto
    from points_dom [OF this, of i] wk_channel(1) assms(4,5) show ?thesis by simp
  next
    case (wk_stops ss chs)
    from pool_stop_ok [OF e sys, of "[0..<length (wk_pool w)]"] wk_stops(2)
    have "ss_points ss = ss_points (wk_sessions w)" by (auto simp: list_all_iff)
    from points_dom [OF this, of i] wk_stops(1) assms(4,5) show ?thesis by simp
  next
    case (wk_session k t t' chs fin w1)
    with assms(4,5) show ?thesis by (auto simp: session_finished_def split: if_splits)
  qed (use assms(4,5) in \<open>simp_all add: dispatch_push_def dispatch_flag_def dispatch_notify_def wk_run_def main_polled_def\<close>)
qed

section \<open>Properties\<close>

text \<open>
  C11 No connection is lost between the threads, however the accepting thread and the
  worker interleave: the descriptors handed over are, in order, those that got a session
  and those still queued; and a worker asleep in \<^verbatim>\<open>co_poll\<close> with nothing to wake it,
  while no hand-over is under way, has no descriptor queued and no session to destroy.
\<close>

theorem worker_no_fd_lost:
  assumes "env_ok up order ntf rd" and "reach wk_init (wk_next up pack order ntf drn) w"
  shows "wk_dispatched w = wk_adopted w @ wk_pending_fds w \<and>
    (wk_main w = MP_poll \<and> wk_dispatch w = DP_idle \<and> \<not> rd (wk_notifier w) \<longrightarrow>
       wk_pending_fds w = [] \<and> wk_finished w = [])"
  using reach_wk_inv [OF assms] by (auto simp: wk_inv_def handover_ok_def)

lemma adopt_nth:
  assumes "distinct ids" and "length ids = length queue" and "k < length ids"
  shows "adopt cfg ids queue ss (ids ! k) = Some (ss_start (ClientSession_new (queue ! k) cfg))"
  using assms
proof (induction ids arbitrary: queue ss k)
  case (Cons i ids)
  then obtain fd rest where q: "queue = fd # rest" by (cases queue) auto
  show ?case
  proof (cases k)
    case 0
    with Cons.prems(1) q show ?thesis by (simp add: adopt_other)
  next
    case (Suc k')
    with Cons q show ?thesis by simp
  qed
qed simp

text \<open>
  Taking over the queue: the \<open>k\<close>-th queued descriptor gets a session of its own, whose
  two coroutines are started; the queue and the flag are cleared, the finished sessions
  are destroyed, and every other session stays as it is.
\<close>

lemma reapFds_adopts_all:
  assumes "distinct ids" and "length ids = length (wk_pending_fds w)"
    and "set ids \<inter> (dom (wk_sessions w) \<union> set (wk_finished w)) = {}"
  shows "(\<forall>k < length ids. wk_sessions (main_swap ids w) (ids ! k) =
      Some (ss_start (ClientSession_new (wk_pending_fds w ! k) (wk_config w)))) \<and>
    (\<forall>i. i \<notin> set ids \<longrightarrow> wk_sessions (main_swap ids w) i =
      (if i \<in> set (wk_finished w) then None else wk_sessions w i)) \<and>
    wk_pending_fds (main_swap ids w) = [] \<and> \<not> wk_has_pending (main_swap ids w) \<and> wk_finished (main_swap ids w) = []"
proof -
  have "ids ! k \<notin> set (wk_finished w)" if "k < length ids" for k
    using assms(3) nth_mem [OF that] by blast
  then show ?thesis
    using assms(1,2) by (simp add: main_swap_def reapSessions_def reapFds_def adopt_nth adopt_other)
qed

end
