(* ===== verification/Worker_Run.thy ===== *)
theory Worker_Run
  imports Worker Channel_Stop
begin

text \<open>
  A concrete run of a worker, which shows that the hypotheses of its properties hold
  somewhere: the pool is started and its channel connects, a descriptor is handed over
  and gets a session, and the session forwards a \<^verbatim>\<open>PING\<close>. The notifier is a flag.
\<close>

abbreviation ex_next :: "bool worker \<Rightarrow> bool worker \<Rightarrow> bool" where
  "ex_next \<equiv> wk_next ping_unpack (\<lambda>e. CHR ''-'' # e) remdups (\<lambda>_. True) (\<lambda>_. False)"

abbreviation ex_reach :: "bool worker \<Rightarrow> bool" where
  "ex_reach \<equiv> reach wk_init ex_next"

lemma ex_env_ok: "env_ok ping_unpack remdups (\<lambda>_. True) (\<lambda>b. b)"
  by (simp add: env_ok_def ping_unpack_ok hash_order_remdups)

lemma ex_step:
  "ex_reach w \<Longrightarrow> wk_step ping_unpack (\<lambda>e. CHR ''-'' # e) remdups (\<lambda>_. True) (\<lambda>_. False) w w' \<Longrightarrow>
     pool_fits (wk_pool w') \<Longrightarrow> ex_reach w'"
  by (erule reach_step) (simp add: wk_next_def)

lemmas ex_reach_fits = reach_fits [of ping_unpack "\<lambda>e. CHR ''-'' # e" remdups "\<lambda>_. True" "\<lambda>_. False"]

section \<open>Up to the first session\<close>

definition ex_new :: "bool worker" where
  "ex_new = Worker_new 0 Config_default CommandRules_Default False"

definition ex_up :: "bool worker" where
  "ex_up = (wk_run ex_new)\<lparr>wk_pool := [ch_up]\<rparr>"

definition ex_session :: session where
  "ex_session = ss_start (ClientSession_new 9 Config_default)"

definition ex_open :: "bool worker" where
  "ex_open = main_swap [7] (main_head (dispatchFd (\<lambda>_. True) 9 ex_up))"

lemma ch_up_fits: "pool_fits [ch_up]" "pool_fits [run_begin 5 (ch_start Config_default BackendChannel_new)]"
  "pool_fits [ch_start Config_default BackendChannel_new]"
  by (simp_all add: pool_fits_def ch_example_defs)

lemma ex_reach_up: "ex_reach ex_up"
proof -
  let ?c1 = "ch_start Config_default BackendChannel_new :: nat channel"
  let ?c2 = "run_begin 5 ?c1"
  let ?w1 = "wk_run ex_new"
  have p: "wk_pool ?w1 = [?c1]" "wk_sessions ?w1 = Map.empty"
    by (simp_all add: ex_new_def Worker_new_def wk_run_def BackendPool_new_def pool_start_def Config_default_def)
  have "ex_reach ex_new"
    unfolding ex_new_def wk_init_def by (rule reach_init) (intro exI conjI, rule refl, simp add: Config_default_def)
  then have 1: "ex_reach ?w1"
    by (rule ex_step) (use p ch_up_fits in \<open>auto intro: wk_runs simp: ex_new_def Worker_new_def\<close>)
  have "wk_step ping_unpack (\<lambda>e. CHR ''-'' # e) remdups (\<lambda>_. True) (\<lambda>_. False) ?w1
      (?w1\<lparr>wk_sessions := Map.empty, wk_pool := [?c2]\<rparr>)"
    by (rule wk_channel [where j = 0 and cbs = "[]" and ch = ?c2])
      (simp_all add: p, rule run_begins, simp add: ch_example_defs)
  from ex_step [OF 1 this] have 2: "ex_reach (?w1\<lparr>wk_sessions := Map.empty, wk_pool := [?c2]\<rparr>)"
    by (simp add: ch_up_fits)
  have "wk_step ping_unpack (\<lambda>e. CHR ''-'' # e) remdups (\<lambda>_. True) (\<lambda>_. False)
      (?w1\<lparr>wk_sessions := Map.empty, wk_pool := [?c2]\<rparr>) (?w1\<lparr>wk_sessions := Map.empty, wk_pool := [ch_up]\<rparr>)"
    using wk_channel [where j = 0 and cbs = "[]" and ch = ch_up and w = "?w1\<lparr>wk_sessions := Map.empty, wk_pool := [?c2]\<rparr>"
        and ss = Map.empty and chs = "[ch_up]"] run_connects [of ?c2 ping_unpack remdups Status_Ok]
    by (simp add: ch_up_def) (simp add: ch_example_defs)
  from ex_step [OF 2 this] ch_up_fits(1) have "ex_reach (?w1\<lparr>wk_sessions := Map.empty, wk_pool := [ch_up]\<rparr>)" by simp
  moreover have "?w1\<lparr>wk_sessions := Map.empty, wk_pool := [ch_up]\<rparr> = ex_up"
    using p(2) by (simp add: ex_up_def)
  ultimately show ?thesis by simp
qed

lemma ex_up_state:
  "wk_dispatch ex_up = DP_idle" "wk_main ex_up = MP_head" "wk_pool ex_up = [ch_up]" "wk_sessions ex_up = Map.empty"
  "wk_pending_fds ex_up = []" "wk_finished ex_up = []" "wk_config ex_up = Config_default"
  "wk_rules ex_up = CommandRules_Default"
  by (simp_all add: ex_up_def wk_run_def ex_new_def Worker_new_def)

lemma ex_open_state:
  "wk_sessions ex_open = [7 \<mapsto> ex_session]" "wk_pool ex_open = [ch_up]" "wk_main ex_open = MP_poll"
  "wk_dispatched ex_open = [9]" "wk_adopted ex_open = [9]" "wk_rules ex_open = CommandRules_Default" "wk_notifier ex_open"
  "wk_finished ex_open = []" "wk_dispatch ex_open = DP_idle" "\<not> wk_has_pending ex_open"
  by (simp_all add: ex_open_def dispatchFd_def dispatch_push_def dispatch_flag_def dispatch_notify_def main_head_def
      main_swap_def reapFds_def reapSessions_def ex_session_def ex_up_def wk_run_def ex_new_def Worker_new_def)

lemma ex_reach_open: "ex_reach ex_open"
proof -
  have "ex_reach (dispatch_push 9 ex_up)"
    using ex_reach_up by (rule ex_step) (simp_all add: wk_push ex_up_state, simp add: dispatch_push_def ex_up_state ch_up_fits)
  then have "ex_reach (dispatch_flag (dispatch_push 9 ex_up))"
    by (rule ex_step) (rule wk_flag, simp_all add: dispatch_push_def dispatch_flag_def ex_up_state ch_up_fits)
  then have "ex_reach (dispatchFd (\<lambda>_. True) 9 ex_up)"
    unfolding dispatchFd_def
    by (rule ex_step) (rule wk_notify, simp_all add: dispatch_push_def dispatch_flag_def dispatch_notify_def ex_up_state ch_up_fits)
  then have "ex_reach (main_head (dispatchFd (\<lambda>_. True) 9 ex_up))"
    by (rule ex_step) (rule wk_heads,
      simp_all add: dispatchFd_def dispatch_push_def dispatch_flag_def dispatch_notify_def main_head_def ex_up_state ch_up_fits)
  then show ?thesis
    unfolding ex_open_def
    by (rule ex_step) (rule wk_swaps, simp_all add: dispatchFd_def dispatch_push_def dispatch_flag_def dispatch_notify_def
        main_head_def main_swap_def reapFds_def reapSessions_def ex_up_state ch_up_fits)
qed

section \<open>A forwarded command\<close>

lemma ping_frame_nonempty: "ping_frame \<noteq> []"
  using length_ping_frame by fastforce

lemma peek_bytes_end:
  assumes "0 < p_max_frame_bytes p"
  shows "\<exists>n. peek_bytes ping_unpack (\<lambda>_. True) p inp (length inp) = Some (PS_kNeedMore, None, p\<lparr>p_scratch := n\<rparr>)"
proof -
  obtain n where "unpack ping_unpack (\<lambda>_. True) p [] = Some (unpack_ref ping_unpack p [], p\<lparr>p_scratch := n\<rparr>)"
    using unpack_eq_ref [where alloc = "\<lambda>_. True", OF ping_unpack_ok(2) TrueI] by blast
  moreover have "rr_status (unpack_ref ping_unpack p []) = RS_kNeedMore"
    using assms ping_frame_nonempty by (simp add: unpack_ref_def ping_unpack_def unpack_finish_def Let_def)
  ultimately show ?thesis by (intro exI [of _ n]) (simp add: peek_bytes_def frame_of_def)
qed

lemma parse_nothing:
  assumes "0 < p_max_frame_bytes p" and "0 < budget"
  shows "\<exists>n. parse_batch ping_unpack (\<lambda>_ _. True) rules budget [] p 0 0 ps =
    Some \<lparr>ba_parser = p\<lparr>p_scratch := n\<rparr>, ba_parsed = 0, ba_consumed = 0, ba_rejected = 0, ba_error = [],
      ba_status = PS_kNeedMore\<rparr>"
proof -
  obtain n where "peek_bytes ping_unpack (\<lambda>_. True) p [] 0 = Some (PS_kNeedMore, None, p\<lparr>p_scratch := n\<rparr>)"
    using peek_bytes_end [OF assms(1), of "[]"] by auto
  with assms(2) show ?thesis by (intro exI [of _ n]) (subst parse_batch.simps, simp)
qed

lemma parse_ping:
  assumes "14 \<le> p_max_frame_bytes p" and "1 < budget"
  shows "\<exists>n. parse_batch ping_unpack (\<lambda>_ _. True) CommandRules_Default budget ping_frame p 0 0 ps =
    Some \<lparr>ba_parser = p\<lparr>p_scratch := n\<rparr>, ba_parsed = 1, ba_consumed = 14, ba_rejected = 0, ba_error = [],
      ba_status = PS_kNeedMore\<rparr>"
proof -
  obtain m where "unpack ping_unpack (\<lambda>_. True) p (ping_frame @ []) =
      Some (\<lparr>rr_status = RS_kOk, rr_consumed = 14, rr_value = Some ping_value, rr_error = []\<rparr>, p\<lparr>p_scratch := m\<rparr>)"
    using unpack_ping [OF assms(1)] by blast
  then have 1: "peek_bytes ping_unpack (\<lambda>_. True) p ping_frame 0 =
      Some (PS_kOk, Some \<lparr>fi_consumed = 14, fi_command_name = ''PING'', fi_argc = 1\<rparr>, p\<lparr>p_scratch := m\<rparr>)"
    by (simp add: peek_bytes_def frame_of_def extractCommandInfo_def ping_value_def)
  obtain n where 2: "peek_bytes ping_unpack (\<lambda>_. True) (p\<lparr>p_scratch := m\<rparr>) ping_frame 14 =
      Some (PS_kNeedMore, None, p\<lparr>p_scratch := n\<rparr>)"
    using peek_bytes_end [of "p\<lparr>p_scratch := m\<rparr>" ping_frame] assms(1) by auto
  show ?thesis
    using assms(2) 1 2 ping_valid
    by (intro exI [of _ n]) (subst parse_batch.simps, simp, subst parse_batch.simps, simp)
qed

definition ch_asked :: "nat channel" where
  "ch_asked = snd (submit (Some 7) ping_frame 1 ch_up)"

lemma ch_asked_state:
  "isHealthy ch_asked" "ch_sent ch_asked = []" "ch_unsent ch_asked = [Some 7]" "pool_fits [ch_asked]"
  "submit (Some 7) ping_frame 1 ch_up = (True, ch_asked)" "ch_reader ch_asked = Rd_top"
  by (simp_all add: ch_asked_def submit_def isHealthy_def ch_notify_def ch_up_state ch_sent_def ch_unsent_def pool_fits_def)

text \<open>The session has forwarded one command and waits for the reply.\<close>

lemma ex_waiting:
  obtains w s where "ex_reach w" "wk_sessions w = [7 \<mapsto> s]" "wk_pool w = [ch_asked]" "ss_state s = SS_kOpen"
    "ss_pending s = 1" "ss_current s = Some 0" "ss_asked s = [Forwarded]" "ss_given s = []" "ss_reader s = SR_reading"
    "ss_writer s = SW_top" "ss_out s = []" "ss_final s = []" "ss_wrote s = []" "ss_loops s = 2" "ss_in s = []"
    "wk_rules w = CommandRules_Default" "wk_finished w = []" "wk_main w = MP_poll" "\<not> wk_has_pending w"
proof -
  let ?pk = "\<lambda>e. CHR ''-'' # e"
  let ?p = "ss_parser ex_session"
  have cfg: "ss_config ex_session = Config_default" "14 \<le> p_max_frame_bytes ?p" "1 < cf_max_pipeline Config_default"
    by (simp_all add: ex_session_def ss_start_def ClientSession_new_def parser_setLimits_def Config_default_def)
  have st: "ss_state ex_session = SS_kOpen" "ss_reader ex_session = SR_top" "ss_in ex_session = []"
      "ss_pending ex_session = 0" "ss_current ex_session = None" "ss_asked ex_session = []" "ss_given ex_session = []"
      "ss_writer ex_session = SW_top" "ss_out ex_session = []" "ss_final ex_session = []" "ss_wrote ex_session = []"
      "ss_loops ex_session = 2"
    by (simp_all add: ex_session_def ss_start_def ClientSession_new_def)
  obtain n where n: "parse_batch ping_unpack (\<lambda>_ _. True) CommandRules_Default (cf_max_pipeline Config_default) [] ?p 0 0
      PS_kNeedMore = Some \<lparr>ba_parser = ?p\<lparr>p_scratch := n\<rparr>, ba_parsed = 0, ba_consumed = 0, ba_rejected = 0,
      ba_error = [], ba_status = PS_kNeedMore\<rparr>"
    using parse_nothing [of ?p "cf_max_pipeline Config_default"] cfg by fastforce
  obtain k where k: "parse_batch ping_unpack (\<lambda>_ _. True) CommandRules_Default (cf_max_pipeline Config_default) ping_frame
      (?p\<lparr>p_scratch := n\<rparr>) 0 0 PS_kNeedMore = Some \<lparr>ba_parser = ?p\<lparr>p_scratch := k\<rparr>, ba_parsed = 1, ba_consumed = 14,
      ba_rejected = 0, ba_error = [], ba_status = PS_kNeedMore\<rparr>"
    using parse_ping [of "?p\<lparr>p_scratch := n\<rparr>" "cf_max_pipeline Config_default"] cfg by fastforce
  define s1 where "s1 = ex_session\<lparr>ss_parser := ?p\<lparr>p_scratch := n\<rparr>, ss_reader := SR_reading\<rparr>"
  define s2 where "s2 = s1\<lparr>ss_in := ping_frame, ss_reader := SR_top\<rparr>"
  define s3 where "s3 = s2\<lparr>ss_parser := ?p\<lparr>p_scratch := k\<rparr>, ss_in := [], ss_asked := [Forwarded], ss_current := Some 0,
    ss_pending := 1, ss_reader := SR_reading\<rparr>"
  let ?w = "\<lambda>s. ex_open\<lparr>wk_sessions := [7 \<mapsto> s], wk_pool := [ch_up]\<rparr>"
  have top: "ss_step ping_unpack ?pk CommandRules_Default 7 ex_session [ch_up] (s1, [ch_up], False)"
    by (rule sr_top [where alloc = "\<lambda>_ _. True"])
      (simp_all add: st cfg n ss_reader_top_def reader_submit_def reader_after_def s1_def)
  have read: "ss_step ping_unpack ?pk CommandRules_Default 7 s1 [ch_up] (s2, [ch_up], False)"
    using sr_reads [of s1 Status_Ok ping_frame ping_unpack ?pk CommandRules_Default 7 "[ch_up]"] ping_frame_nonempty
    by (simp add: ss_reader_read_def s1_def s2_def st status_ok_def Status_Ok_def)
  have forward: "ss_step ping_unpack ?pk CommandRules_Default 7 s2 [ch_up] (s3, [ch_asked], False)"
    by (rule sr_top [where alloc = "\<lambda>_ _. True"])
      (simp_all add: st cfg k ss_reader_top_def reader_submit_def reader_after_def submitBatch_def pool_submit_def
        select_def isHealthy_def ch_up_state ch_asked_state s1_def s2_def s3_def)
  have "ex_reach (?w s1)"
    using ex_reach_open by (rule ex_step)
      (use wk_session [of ex_open 7 ex_session, OF _ _ refl, of ping_unpack ?pk s1 "[ch_up]" False] top in
        \<open>simp_all add: ex_open_state ch_up_fits\<close>)
  then have "ex_reach (?w s2)"
    by (rule ex_step) (use wk_session [of "?w s1" 7 s1, OF _ _ refl, of ping_unpack ?pk s2 "[ch_up]" False] read in
        \<open>simp_all add: ex_open_state ch_up_fits\<close>)
  then have "ex_reach (ex_open\<lparr>wk_sessions := [7 \<mapsto> s3], wk_pool := [ch_asked]\<rparr>)"
    by (rule ex_step) (use wk_session [of "?w s2" 7 s2, OF _ _ refl, of ping_unpack ?pk s3 "[ch_asked]" False] forward in
        \<open>simp_all add: ex_open_state ch_asked_state\<close>)
  then show thesis
    by (rule that [where s = s3]) (simp_all add: s3_def s2_def s1_def st ex_open_state)
qed

section \<open>The reply\<close>

lemma ex_channel_step:
  assumes "ex_reach w" and "wk_pool w = [ch]" and "ch_step ping_unpack remdups ch cbs ch'"
    and "deliver_all cbs (wk_sessions w, [ch']) = Some (ss, [ch''])" and "pool_fits [ch'']"
  shows "ex_reach (w\<lparr>wk_sessions := ss, wk_pool := [ch'']\<rparr>)"
  using assms(1)
proof (rule ex_step)
  show "wk_step ping_unpack (\<lambda>e. CHR ''-'' # e) remdups (\<lambda>_. True) (\<lambda>_. False) w (w\<lparr>wk_sessions := ss, wk_pool := [ch'']\<rparr>)"
    by (rule wk_channel [where j = 0 and cbs = cbs and ch = ch']) (use assms in simp_all)
qed (use assms(5) in simp)

lemma ex_channel_quiet:
  assumes "ex_reach w" and "wk_pool w = [ch]" and "ch_step ping_unpack remdups ch [] ch'" and "pool_fits [ch']"
  shows "ex_reach (w\<lparr>wk_pool := [ch']\<rparr>)"
proof -
  have "ex_reach (w\<lparr>wk_sessions := wk_sessions w, wk_pool := [ch']\<rparr>)"
    by (rule ex_channel_step [OF assms(1-3)]) (use assms(4) in simp_all)
  then show ?thesis by simp
qed

definition ch_sending :: "nat channel" where
  "ch_sending = reader_round (writer_round ch_asked)"

lemma ch_sending_state:
  "writer_round ch_asked = ch_asked\<lparr>ch_write := [], ch_pending := [\<lparr>pb_owner = Some 7, pb_remaining = 1\<rparr>],
     ch_run := Run_writing, ch_wire := [\<lparr>rb_owner = Some 7, rb_bytes = ping_frame, rb_count = 1\<rparr>]\<rparr>"
  "isHealthy ch_sending" "ch_sent ch_sending = [Some 7]" "ch_unsent ch_sending = []" "ch_reader ch_sending = Rd_reading"
  "14 \<le> p_max_frame_bytes (ch_parser ch_sending)" "ch_in ch_sending = []"
  "ch_pending ch_sending = [\<lparr>pb_owner = Some 7, pb_remaining = 1\<rparr>]" "ch_write ch_sending = []"
proof -
  have a: "ch_write ch_asked = [\<lparr>rb_owner = Some 7, rb_bytes = ping_frame, rb_count = 1\<rparr>]" "ch_state ch_asked = CS_kReady"
    "ch_pending ch_asked = []" "ch_wire ch_asked = []" "ch_in ch_asked = []"
    by (simp_all add: ch_asked_def submit_def isHealthy_def ch_notify_def ch_up_state)
      (simp add: ch_example_defs)
  show w: "writer_round ch_asked = ch_asked\<lparr>ch_write := [], ch_pending := [\<lparr>pb_owner = Some 7, pb_remaining = 1\<rparr>],
     ch_run := Run_writing, ch_wire := [\<lparr>rb_owner = Some 7, rb_bytes = ping_frame, rb_count = 1\<rparr>]\<rparr>"
    by (simp add: writer_round_def isHealthy_def a)
  show "isHealthy ch_sending" "ch_sent ch_sending = [Some 7]" "ch_unsent ch_sending = []" "ch_reader ch_sending = Rd_reading"
    "ch_in ch_sending = []" "ch_pending ch_sending = [\<lparr>pb_owner = Some 7, pb_remaining = 1\<rparr>]" "ch_write ch_sending = []"
    by (simp_all add: ch_sending_def w reader_round_def isHealthy_def a ch_sent_def ch_unsent_def)
  show "14 \<le> p_max_frame_bytes (ch_parser ch_sending)"
    by (simp add: ch_sending_def w reader_round_def isHealthy_def a ch_asked_def submit_def ch_notify_def ch_example_defs
        parser_setLimits_def Config_default_def RespParser_new_def SIZE_MAX_def)
qed

lemma ex_sending:
  obtains w s where "ex_reach w" "wk_sessions w = [7 \<mapsto> s]" "wk_pool w = [ch_sending]" "ss_state s = SS_kOpen"
    "ss_pending s = 1" "ss_current s = Some 0" "ss_asked s = [Forwarded]" "ss_given s = []" "ss_reader s = SR_reading"
    "ss_writer s = SW_top" "ss_out s = []" "ss_final s = []" "ss_wrote s = []" "ss_loops s = 2" "ss_in s = []"
    "wk_rules w = CommandRules_Default" "wk_finished w = []" "wk_main w = MP_poll" "\<not> wk_has_pending w"
proof -
  obtain w s where w: "ex_reach w" "wk_sessions w = [7 \<mapsto> s]" "wk_pool w = [ch_asked]" "ss_state s = SS_kOpen"
    "ss_pending s = 1" "ss_current s = Some 0" "ss_asked s = [Forwarded]" "ss_given s = []" "ss_reader s = SR_reading"
    "ss_writer s = SW_top" "ss_out s = []" "ss_final s = []" "ss_wrote s = []" "ss_loops s = 2" "ss_in s = []"
    "wk_rules w = CommandRules_Default" "wk_finished w = []" "wk_main w = MP_poll" "\<not> wk_has_pending w"
    by (rule ex_waiting)
  define c1 where "c1 = writer_round ch_asked"
  have fits: "pool_fits [c1]" "pool_fits [ch_sending]"
    by (simp_all add: pool_fits_def c1_def ch_sending_state ch_sent_def ch_unsent_def)
  have q: "ch_run ch_asked = Run_write" by (simp add: ch_asked_def submit_def isHealthy_def ch_notify_def ch_up_state)
  have "ch_step ping_unpack remdups ch_asked [] c1" unfolding c1_def by (rule run_writes [OF q])
  from ex_channel_quiet [OF w(1,3) this fits(1)] have r1: "ex_reach (w\<lparr>wk_pool := [c1]\<rparr>)" .
  have "ch_step ping_unpack remdups c1 [] ch_sending"
    unfolding ch_sending_def c1_def by (rule reader_loops) (simp add: ch_sending_state(1) ch_asked_state)
  from ex_channel_quiet [OF r1 _ this fits(2)] have r2: "ex_reach (w\<lparr>wk_pool := [ch_sending]\<rparr>)" by simp
  show thesis by (rule that [OF r2, of s]) (simp_all add: w)
qed

lemma ex_answered:
  obtains w s ch where "ex_reach w" "wk_sessions w = [7 \<mapsto> s]" "wk_pool w = [ch]" "pool_fits [ch]"
    "ss_state s = SS_kOpen" "ss_pending s = 0" "ss_current s = None" "ss_asked s = [Forwarded]"
    "ss_given s = [Answered ping_frame]" "ss_reader s = SR_reading" "ss_writer s = SW_top" "ss_out s = [ping_frame]"
    "ss_final s = []" "ss_wrote s = []" "ss_loops s = 2" "ss_in s = []" "wk_rules w = CommandRules_Default"
    "wk_finished w = []" "wk_main w = MP_poll" "\<not> wk_has_pending w"
proof -
  obtain w s where w: "ex_reach w" "wk_sessions w = [7 \<mapsto> s]" "wk_pool w = [ch_sending]" "ss_state s = SS_kOpen"
    "ss_pending s = 1" "ss_current s = Some 0" "ss_asked s = [Forwarded]" "ss_given s = []" "ss_reader s = SR_reading"
    "ss_writer s = SW_top" "ss_out s = []" "ss_final s = []" "ss_wrote s = []" "ss_loops s = 2" "ss_in s = []"
    "wk_rules w = CommandRules_Default" "wk_finished w = []" "wk_main w = MP_poll" "\<not> wk_has_pending w"
    by (rule ex_sending)
  define c3 where "c3 = ch_sending\<lparr>ch_in := ping_frame, ch_reader := Rd_parse\<rparr>"
  have fits: "pool_fits [c3]" by (simp add: pool_fits_def c3_def ch_sending_state ch_sent_def ch_unsent_def)
  have "reader_read remdups Status_Ok ping_frame ch_sending = (c3, [])"
    using ch_sending_state by (simp add: reader_read_def isHealthy_def c3_def status_ok_def Status_Ok_def)
  then have "ch_step ping_unpack remdups ch_sending [] c3"
    by (rule reader_reads [where st = Status_Ok and d = ping_frame, rotated 2])
      (simp_all add: ch_sending_state status_ok_def Status_Ok_def ping_frame_nonempty)
  from ex_channel_quiet [OF w(1,3) this fits] have r3: "ex_reach (w\<lparr>wk_pool := [c3]\<rparr>)" .
  obtain n where n: "next_reply_bytes ping_unpack (\<lambda>_. True) (ch_parser c3) (ch_in c3) =
      Some (PS_kOk, ping_frame, (ch_parser c3)\<lparr>p_scratch := n\<rparr>, [])"
    using unpack_ping [of "ch_parser c3" "[]"] by (auto simp: next_reply_bytes_def c3_def ch_sending_state)
  define c4 where "c4 = c3\<lparr>ch_parser := (ch_parser c3)\<lparr>p_scratch := n\<rparr>, ch_in := [], ch_pending := [],
    ch_queued := ch_queued c3 - 1, ch_answered := ch_answered c3 + 1\<rparr>"
  have "reader_parse ping_unpack remdups (\<lambda>_. True) c3 = Some (c4, [Reply 7 ping_frame])"
    using n ch_sending_state by (simp add: reader_parse_def c4_def c3_def isHealthy_def dispatchReply_def)
  then have p: "ch_step ping_unpack remdups c3 [Reply 7 ping_frame] c4"
    by (intro reader_parses) (simp add: c3_def)
  have f4: "pool_fits [c4]" by (simp add: pool_fits_def c4_def c3_def ch_sending_state ch_sent_def ch_unsent_def)
  have "ex_reach ((w\<lparr>wk_pool := [c3]\<rparr>)\<lparr>wk_sessions := [7 \<mapsto> onBackendReply ping_frame s], wk_pool := [c4]\<rparr>)"
    by (rule ex_channel_step [OF r3 _ p]) (use f4 w(2) in simp_all)
  then show thesis
    by (rule that [where s = "onBackendReply ping_frame s" and ch = c4]) (simp_all add: w f4, simp add: onBackendReply_def w ss_notify_defs)
qed

section \<open>The end of the session\<close>

lemma ex_session_step:
  assumes "ex_reach w" and "wk_sessions w = [7 \<mapsto> s]" and "wk_pool w = [ch]" and "wk_rules w = CommandRules_Default"
    and "ss_step ping_unpack (\<lambda>e. CHR ''-'' # e) CommandRules_Default 7 s [ch] (s', [ch'], fin)" and "pool_fits [ch']"
  shows "ex_reach (if fin then session_finished (\<lambda>_. True) 7 (w\<lparr>wk_sessions := [7 \<mapsto> s'], wk_pool := [ch']\<rparr>)
    else w\<lparr>wk_sessions := [7 \<mapsto> s'], wk_pool := [ch']\<rparr>)" (is "ex_reach ?w'")
  using assms(1)
proof (rule ex_step)
  show "wk_step ping_unpack (\<lambda>e. CHR ''-'' # e) remdups (\<lambda>_. True) (\<lambda>_. False) w ?w'"
    by (rule wk_session [where i = 7 and s = s and s' = s' and chs = "[ch']"]) (use assms in simp_all)
qed (use assms(6) in \<open>simp add: session_finished_def\<close>)

lemma ex_draining:
  obtains w s ch where "ex_reach w" "wk_sessions w = [7 \<mapsto> s]" "wk_pool w = [ch]" "pool_fits [ch]"
    "ss_state s = SS_kDraining" "ss_pending s = 0" "ss_asked s = [Forwarded]" "ss_given s = [Answered ping_frame]"
    "ss_reader s = SR_none" "ss_writer s = SW_top" "ss_out s = [ping_frame]" "ss_final s = []" "ss_wrote s = []"
    "ss_loops s = 1" "wk_rules w = CommandRules_Default" "wk_finished w = []" "wk_main w = MP_poll" "\<not> wk_has_pending w"
proof -
  obtain w s ch where w: "ex_reach w" "wk_sessions w = [7 \<mapsto> s]" "wk_pool w = [ch]" "pool_fits [ch]"
    "ss_state s = SS_kOpen" "ss_pending s = 0" "ss_current s = None" "ss_asked s = [Forwarded]"
    "ss_given s = [Answered ping_frame]" "ss_reader s = SR_reading" "ss_writer s = SW_top" "ss_out s = [ping_frame]"
    "ss_final s = []" "ss_wrote s = []" "ss_loops s = 2" "ss_in s = []" "wk_rules w = CommandRules_Default"
    "wk_finished w = []" "wk_main w = MP_poll" "\<not> wk_has_pending w"
    by (rule ex_answered)
  define s1 where "s1 = (ss_drain [] (s\<lparr>ss_in := []\<rparr>))\<lparr>ss_reader := SR_none, ss_loops := 1\<rparr>"
  have eof: "ss_step ping_unpack (\<lambda>e. CHR ''-'' # e) CommandRules_Default 7 s [ch] (s1, [ch], False)"
    using sr_reads [of s "Status_Closed ''eof''" "[]" ping_unpack "\<lambda>e. CHR ''-'' # e" CommandRules_Default 7 "[ch]"]
    by (simp add: ss_reader_read_def w s1_def reader_finish_def finishLoop_def ss_drain_def notify_out_def
        status_ok_def Status_Closed_def)
  have "ex_reach (w\<lparr>wk_sessions := [7 \<mapsto> s1], wk_pool := [ch]\<rparr>)" using ex_session_step [OF w(1-3,17) eof w(4)] by simp
  then show thesis
    by (rule that) (simp_all add: w, simp_all add: s1_def ss_drain_def notify_out_def w)
qed

lemma ex_closed:
  obtains w s where "ex_reach w" "wk_sessions w = [7 \<mapsto> s]" "wk_finished w = [7]" "ss_state s = SS_kDraining"
    "ss_asked s = [Forwarded]" "ss_given s = [Answered ping_frame]" "ss_wrote s = ping_frame"
    "wk_main w = MP_poll" "\<not> wk_has_pending w"
proof -
  obtain w s1 ch where w: "ex_reach w" "wk_sessions w = [7 \<mapsto> s1]" "wk_pool w = [ch]" "pool_fits [ch]"
    "ss_state s1 = SS_kDraining" "ss_pending s1 = 0" "ss_asked s1 = [Forwarded]" "ss_given s1 = [Answered ping_frame]"
    "ss_reader s1 = SR_none" "ss_writer s1 = SW_top" "ss_out s1 = [ping_frame]" "ss_final s1 = []" "ss_wrote s1 = []"
    "ss_loops s1 = 1" "wk_rules w = CommandRules_Default" "wk_finished w = []" "wk_main w = MP_poll" "\<not> wk_has_pending w"
    by (rule ex_draining)
  let ?step = "ss_step ping_unpack (\<lambda>e. CHR ''-'' # e) CommandRules_Default 7"
  define s2 where "s2 = writer_send s1"
  define s3 where "s3 = s2\<lparr>ss_writer := SW_top\<rparr>"
  define s4 where "s4 = s3\<lparr>ss_writer := SW_none, ss_loops := 0, ss_socket := sock_close (ss_socket s3)\<rparr>"
  have send: "?step s1 [ch] (s2, [ch], False)"
    using sw_top [of s1 ping_unpack "\<lambda>e. CHR ''-'' # e" CommandRules_Default 7 "[ch]"]
    by (simp add: ss_writer_top_def s2_def w)
  have sent: "?step s2 [ch] (s3, [ch], False)"
    using sw_written [of s2 ping_unpack "\<lambda>e. CHR ''-'' # e" CommandRules_Default 7 "[ch]" Status_Ok]
    by (simp add: ss_writer_written_def s3_def s2_def writer_send_def status_ok_def Status_Ok_def)
  have finish: "?step s3 [ch] (s4, [detachOwner (Some 7) ch], True)"
    using sw_top [of s3 ping_unpack "\<lambda>e. CHR ''-'' # e" CommandRules_Default 7 "[ch]"]
    by (simp add: ss_writer_top_def s4_def s3_def s2_def writer_send_def w writer_finish_def finishLoop_def pool_detachOwner_def)
  let ?w = "\<lambda>s. w\<lparr>wk_sessions := [7 \<mapsto> s], wk_pool := [ch]\<rparr>"
  have 2: "ex_reach (?w s2)" using ex_session_step [OF w(1-3,15) send w(4)] by simp
  have 3: "ex_reach (?w s3)" using ex_session_step [OF 2 _ _ _ sent w(4)] w(15) by simp
  have 4: "ex_reach (session_finished (\<lambda>_. True) 7 (w\<lparr>wk_sessions := [7 \<mapsto> s4], wk_pool := [detachOwner (Some 7) ch]\<rparr>))"
    using ex_session_step [OF 3 _ _ _ finish] detach_fits [OF w(4), of "Some 7"] w(15) by (simp add: pool_detachOwner_def)
  show thesis
    by (rule that [OF 4]) (simp_all add: session_finished_def w, simp_all add: s4_def s3_def s2_def writer_send_def w)
qed

theorem worker_no_fd_lost_witness:
  "\<exists>w. ex_reach w \<and> wk_main w = MP_poll \<and> \<not> wk_notifier w \<and> wk_dispatched w = [9] \<and> wk_pending_fds w = [] \<and>
     wk_finished w = []"
proof -
  let ?w = "main_head (main_polled (\<lambda>_. False) 1 ex_open)"
  have "ex_reach (main_polled (\<lambda>_. False) 1 ex_open)"
    using ex_reach_open by (rule ex_step) (rule wk_polled, simp_all add: ex_open_state main_polled_def ch_up_fits)
  then have r: "ex_reach ?w"
    by (rule ex_step) (rule wk_heads, simp_all add: ex_open_state main_polled_def main_head_def reapSessions_def ch_up_fits)
  have "wk_main ?w = MP_poll" "wk_dispatch ?w = DP_idle" "\<not> wk_notifier ?w" "wk_dispatched ?w = [9]"
    by (simp_all add: ex_open_state main_polled_def main_head_def reapSessions_def)
  with worker_no_fd_lost [OF ex_env_ok r] r show ?thesis by blast
qed

text \<open>The connection breaks while the reply is outstanding.\<close>

lemma ex_breaks:
  "\<exists>ch cbs. ch_step ping_unpack remdups ch_sending cbs ch \<and> \<not> isHealthy ch \<and>
     cbs = [Failure 7 (Status_IoError ''reset'')]"
proof -
  let ?st = "Status_IoError ''reset''"
  obtain ch cbs where r: "reader_read remdups ?st [] ch_sending = (ch, cbs)" by fastforce
  then have "ch_step ping_unpack remdups ch_sending cbs ch"
    by (rule reader_reads [where st = ?st and d = "[]", rotated 2])
      (simp_all add: ch_sending_state status_ok_def Status_IoError_def)
  moreover have "\<not> isHealthy ch" "cbs = [Failure 7 ?st]"
    using r ch_sending_state by (auto simp: reader_read_def failConnection_def isHealthy_def batch_owners_def reader_exit_def
        ch_notify_def status_ok_def Status_IoError_def Let_def List.map_filter_simps)
  ultimately show ?thesis by blast
qed

end
