(* ===== verification/Wire_Safety.thy ===== *)
theory Wire_Safety
  imports Worker_Run
begin

text \<open>
  What reaches Redis: the batches that sessions submit, that channels queue and that
  they hand to their sockets. Replies are matched to commands by counting alone, so a
  batch must hold exactly as many commands as it is counted for, and because Redis runs
  what it is sent, each must be one the rules accept.
\<close>

section \<open>Batches\<close>

text \<open>
  A batch as it must be: its bytes are the first frames of what its client had sent,
  each complete and accepted by the rules, as many as it is counted for.
\<close>

definition wire_ok :: "unpacker \<Rightarrow> command_rules \<Rightarrow> nat request_batch \<Rightarrow> bool" where
  "wire_ok up rules b \<longleftrightarrow>
     (\<exists>alloc inp p infos p1. batch_frames up alloc rules inp p 0 0 infos p1 \<and>
        length infos = unat (rb_count b) \<and> 0 < length infos \<and>
        sum_list (map fi_consumed infos) \<le> length inp \<and>
        rb_bytes b = take (sum_list (map fi_consumed infos)) inp)"

text \<open>The batches a channel has queued or handed to its socket, and those of all channels.\<close>

definition ch_batches :: "nat channel \<Rightarrow> nat request_batch set" where
  "ch_batches ch = set (ch_write ch) \<union> set (ch_wire ch)"

definition pool_batches :: "nat pool \<Rightarrow> nat request_batch set" where
  "pool_batches chs = \<Union> (ch_batches ` set chs)"

lemma pool_batches_update: "pool_batches (chs[j := ch]) \<subseteq> pool_batches chs \<union> ch_batches ch"
  by (auto simp: pool_batches_def dest: set_update_subset_insert [THEN subsetD])

lemma pool_batches_nth: "j < length chs \<Longrightarrow> ch_batches (chs ! j) \<subseteq> pool_batches chs"
  by (auto simp: pool_batches_def intro: nth_mem)

section \<open>No operation but submit adds one\<close>

lemma submit_batches:
  "submit own d n ch = (ok, ch') \<Longrightarrow>
     ch_batches ch' \<subseteq> insert \<lparr>rb_owner = own, rb_bytes = d, rb_count = n\<rparr> (ch_batches ch)"
  by (auto simp: submit_def ch_batches_def ch_notify_def split: if_splits)

lemma detach_batches: "ch_batches (detachOwner own ch) \<subseteq> ch_batches ch"
  using detach_writes_spec [of own "ch_write ch" "ch_queued ch"]
  by (auto simp: detachOwner_def ch_batches_def split: prod.splits)

lemma fail_batches: "failConnection order st ch = (ch', cbs) \<Longrightarrow> ch_batches ch' \<subseteq> ch_batches ch"
  by (auto simp: failConnection_def ch_batches_def ch_notify_def Let_def split: if_splits)

lemma dispatch_batches: "dispatchReply order r ch = (ch', cbs) \<Longrightarrow> ch_batches ch' \<subseteq> ch_batches ch"
  using fail_batches by (fastforce simp: dispatchReply_def ch_batches_def Let_def split: list.splits)

lemma halt_batches: "ch_halt order ch = (ch', cbs) \<Longrightarrow> ch_batches ch' \<subseteq> ch_batches ch"
  by (auto simp: ch_halt_def failConnection_def ch_batches_def ch_notify_def Let_def split: if_splits)

lemma start_batches: "pool_batches (pool_start cfg chs) = pool_batches chs"
proof -
  have "ch_batches (ch_start cfg ch) = ch_batches ch" for ch by (simp add: ch_start_def ch_batches_def)
  then show ?thesis by (simp add: pool_batches_def pool_start_def image_image)
qed

lemma ch_step_batches: "ch_step up order ch cbs ch' \<Longrightarrow> ch_batches ch' \<subseteq> ch_batches ch"
proof (induction rule: ch_step.induct)
  case (run_written ch st ch' cbs)
  then show ?case
    using fail_batches [of order st "ch\<lparr>ch_run := Run_write\<rparr>" ch' cbs]
    by (auto simp: writer_written_def ch_batches_def Let_def split: if_splits)
next
  case (reader_reads ch st d ch' cbs)
  then show ?case
    using fail_batches [of order st "ch\<lparr>ch_in := ch_in ch @ d\<rparr>"]
    by (auto simp: reader_read_def ch_batches_def reader_exit_def ch_notify_def Let_def split: if_splits prod.splits)
next
  case (reader_parses ch alloc ch' cbs)
  have "ch_batches (ch\<lparr>ch_parser := p, ch_in := d\<rparr>) = ch_batches ch"
    "ch_batches (ch\<lparr>ch_parser := p, ch_in := d, ch_reader := x\<rparr>) = ch_batches ch"
    "ch_batches (ch\<lparr>ch_reader := x\<rparr>) = ch_batches ch" for p d x
    by (simp_all add: ch_batches_def)
  with reader_parses fail_batches dispatch_batches show ?case
    by (fastforce simp: reader_parse_def bind_Some_iff Let_def split: if_splits)
qed (auto simp: run_begin_eq run_connected_def run_cleanup_def ch_woken_def join_round_def ch_wait_def writer_round_def
    reader_round_def reader_exit_def ch_notify_def ch_batches_def Let_def split: if_splits list.splits)

lemma pool_detach_batches: "pool_batches (pool_detachOwner own chs) \<subseteq> pool_batches chs"
  using detach_batches by (fastforce simp: pool_batches_def pool_detachOwner_def)

lemma abort_batches: "ss_abort self s chs = (s', chs') \<Longrightarrow> pool_batches chs' \<subseteq> pool_batches chs"
  using pool_detach_batches by (auto simp: ss_abort_def split: if_splits)

lemma finish_batches:
  "finishLoop self s chs = (s', chs', fin) \<Longrightarrow> pool_batches chs' \<subseteq> pool_batches chs"
  "reader_finish self s chs = (s', chs', fin) \<Longrightarrow> pool_batches chs' \<subseteq> pool_batches chs"
  "writer_finish self s chs = (s', chs', fin) \<Longrightarrow> pool_batches chs' \<subseteq> pool_batches chs"
  using pool_detach_batches [of "Some self" chs]
  by (auto simp: reader_finish_def writer_finish_def finishLoop_def Let_def split: if_splits)

lemma reader_after_batches:
  "reader_after self b s chs = (s', chs', fin) \<Longrightarrow> pool_batches chs' \<subseteq> pool_batches chs"
  by (auto simp: reader_after_def split: if_splits dest: finish_batches(2) [THEN subsetD])

section \<open>What a session submits\<close>

lemma pool_submit_batches:
  "pool_submit own cur d n chs = Some (r, chs') \<Longrightarrow>
     pool_batches chs' \<subseteq> insert \<lparr>rb_owner = own, rb_bytes = d, rb_count = n\<rparr> (pool_batches chs)"
proof -
  assume a: "pool_submit own cur d n chs = Some (r, chs')"
  consider "chs' = chs" | i where "i < length chs" "chs' = chs[i := snd (submit own d n (chs ! i))]"
  proof -
    assume same: "chs' = chs \<Longrightarrow> thesis"
      and new: "\<And>i. i < length chs \<Longrightarrow> chs' = chs[i := snd (submit own d n (chs ! i))] \<Longrightarrow> thesis"
    from a consider "chs' = chs" | i where "chs' = chs[i := snd (submit own d n (chs ! i))]"
      by (auto simp: pool_submit_def case_prod_beta Let_def split: option.splits)
    then show thesis
    proof cases
      case (2 i)
      then show ?thesis using same new [of i] by (cases "i < length chs") (simp_all add: list_update_beyond)
    qed (rule same)
  qed
  then show ?thesis
  proof cases
    case 2
    from submit_batches [of own d n "chs ! i"] pool_batches_nth [OF 2(1)]
    have "ch_batches (snd (submit own d n (chs ! i))) \<subseteq> insert \<lparr>rb_owner = own, rb_bytes = d, rb_count = n\<rparr> (pool_batches chs)"
      by (metis prod.collapse insert_mono order_trans)
    with pool_batches_update [of chs i] 2(2) show ?thesis by blast
  qed auto
qed

lemma submitBatch_batches:
  assumes "submitBatch self d n s chs = Some (ok, s1, chs1)"
  shows "pool_batches chs1 \<subseteq> insert \<lparr>rb_owner = Some self, rb_bytes = d, rb_count = n\<rparr> (pool_batches chs)"
proof (cases "n = 0")
  case True
  with assms show ?thesis by (auto simp: submitBatch_def)
next
  case False
  with assms obtain r chs0 where p: "pool_submit (Some self) (ss_current s) d n chs = Some (r, chs0)"
    by (auto simp: submitBatch_def split: option.splits)
  have "pool_batches chs1 \<subseteq> pool_batches chs0"
  proof (cases r)
    case None
    with assms False p obtain s2 where "ss_abort self s chs0 = (s2, chs1)"
      by (auto simp: submitBatch_def split: prod.splits)
    then show ?thesis by (rule abort_batches)
  qed (use assms False p in \<open>simp add: submitBatch_def\<close>)
  with pool_submit_batches [OF p] show ?thesis by blast
qed

lemma reader_top_batches:
  assumes "unpack_bounds up" and "cf_max_pipeline (ss_config s) < 2 ^ 32"
    and "ss_reader_top up alloc rules self s chs = Some (s', chs', fin)"
  shows "pool_batches chs' \<subseteq> pool_batches chs \<union> Collect (wire_ok up rules)"
proof (cases "ss_state s = SS_kOpen")
  case False
  with assms(3) finish_batches(2) show ?thesis by (fastforce simp: ss_reader_top_def)
next
  case True
  with assms(3) obtain b ok s1 chs1 where
    b: "parse_batch up alloc rules (cf_max_pipeline (ss_config s)) (ss_in s) (ss_parser s) 0 0 PS_kNeedMore = Some b"
      "reader_submit self b (s\<lparr>ss_parser := ba_parser b\<rparr>) chs = Some (ok, s1, chs1)"
      "(s', chs', fin) = (if \<not> ok then reader_finish self s1 chs1 else reader_after self b s1 chs1)"
    by (auto simp: ss_reader_top_def bind_Some_iff)
  obtain infos p1 where f: "batch_frames up alloc rules (ss_in s) (ss_parser s) 0 0 infos p1"
    "ba_parsed b = length infos" "ba_parsed b \<le> cf_max_pipeline (ss_config s)"
    "ba_consumed b = sum_list (map fi_consumed infos)" "ba_consumed b \<le> length (ss_in s)"
    using parse_batch_spec [OF assms(1), of 0 "cf_max_pipeline (ss_config s)" 0 "ss_in s" alloc rules "ss_parser s" PS_kNeedMore] b(1)
    by auto
  let ?b = "\<lparr>rb_owner = Some self, rb_bytes = take (ba_consumed b) (ss_in s), rb_count = of_nat (ba_parsed b)\<rparr>"
  have "pool_batches chs1 \<subseteq> pool_batches chs \<union> Collect (wire_ok up rules)"
  proof (cases "ba_parsed b = 0")
    case True
    with b(2) show ?thesis by (auto simp: reader_submit_def)
  next
    case False
    have "unat (rb_count ?b) = length infos" using f(2,3) assms(2) by (simp add: unat_of_nat)
    with f False have "wire_ok up rules ?b" unfolding wire_ok_def
      by (intro exI [of _ alloc] exI [of _ "ss_in s"] exI [of _ "ss_parser s"] exI [of _ infos] exI [of _ p1]) simp
    moreover have "pool_batches chs1 \<subseteq> insert ?b (pool_batches chs)"
      using b(2) False by (auto simp: reader_submit_def dest!: submitBatch_batches)
    ultimately show ?thesis by blast
  qed
  moreover have "pool_batches chs' \<subseteq> pool_batches chs1"
    using b(3) finish_batches(2) [of self s1 chs1 s' chs' fin] reader_after_batches [of self b s1 chs1 s' chs' fin]
    by (simp split: if_splits)
  ultimately show ?thesis by blast
qed

lemma ss_step_batches:
  assumes "ss_step up pack rules self s chs (s', chs', fin)" and "unpack_bounds up"
    and "cf_max_pipeline (ss_config s) < 2 ^ 32"
  shows "pool_batches chs' \<subseteq> pool_batches chs \<union> Collect (wire_ok up rules)"
  using assms(1)
proof cases
  case (sr_top alloc)
  then show ?thesis using reader_top_batches [OF assms(2,3)] by simp
next
  case (sr_reply e)
  then have "pool_batches chs' \<subseteq> pool_batches chs"
    using finish_batches(2) [of self s chs s' chs' fin] by (auto simp: ss_reader_reply_def split: if_splits)
  then show ?thesis by blast
next
  case (sr_reads st d)
  let ?s = "s\<lparr>ss_in := ss_in s @ d\<rparr>"
  obtain s2 chs2 where a: "ss_abort self ?s chs = (s2, chs2)" by fastforce
  from sr_reads have "pool_batches chs' \<subseteq> pool_batches chs"
    using finish_batches(2) [of self _ _ s' chs' fin] abort_batches [OF a] a
    by (fastforce simp: ss_reader_read_def Let_def split: if_splits)
  then show ?thesis by blast
next
  case sw_top
  then have "pool_batches chs' \<subseteq> pool_batches chs"
    using finish_batches(3) [of self s chs s' chs' fin] by (auto simp: ss_writer_top_def split: if_splits)
  then show ?thesis by blast
next
  case (sw_written st)
  obtain s2 chs2 where a: "ss_abort self s chs = (s2, chs2)" by fastforce
  from sw_written have "pool_batches chs' \<subseteq> pool_batches chs"
    using finish_batches(3) [of self _ _ s' chs' fin] abort_batches [OF a] a
    by (fastforce simp: ss_writer_written_def split: if_splits)
  then show ?thesis by blast
qed auto

section \<open>Callbacks and the worker\<close>

lemma deliver_all_batches: "deliver_all cbs w = Some w' \<Longrightarrow> pool_batches (snd w') \<subseteq> pool_batches (snd w)"
proof (induction cbs arbitrary: w)
  case (Cons cb cbs)
  from Cons.prems obtain w1 where w1: "deliver cb w = Some w1" "deliver_all cbs w1 = Some w'"
    by (auto simp: bind_Some_iff)
  have "pool_batches (snd w1) \<subseteq> pool_batches (snd w)"
    using w1(1) abort_batches
    by (cases cb; cases w) (auto simp: onBackendFailure_def split: option.splits prod.splits; blast)+
  with Cons.IH [OF w1(2)] show ?case by simp
qed simp

lemma pool_stop_batches:
  "pool_stop order js w = Some w' \<Longrightarrow> pool_batches (snd w') \<subseteq> pool_batches (snd w)"
proof (induction js arbitrary: w)
  case (Cons j js)
  obtain ss chs where w: "w = (ss, chs)" by fastforce
  obtain ch cbs where h: "ch_halt order (chs ! j) = (ch, cbs)" by fastforce
  from Cons.prems w h obtain w1 where
    1: "deliver_all cbs (ss, chs[j := ch]) = Some w1" "pool_stop order js w1 = Some w'"
    by (auto simp: bind_Some_iff)
  have "pool_batches (chs[j := ch]) \<subseteq> pool_batches chs"
    using pool_batches_update [of chs j ch] halt_batches [OF h] pool_batches_nth [of j chs]
    by (cases "j < length chs") (auto simp: list_update_beyond)
  with deliver_all_batches [OF 1(1)] Cons.IH [OF 1(2)] w show ?case by simp
qed simp

text \<open>Whatever a step adds to the channels is as it must be; the rules stay.\<close>

lemma wk_step_batches:
  assumes "wk_step up pack order ntf drn w w'" and "env_ok up order ntf rd" and "wk_inv pack rd w"
  shows "wk_rules w' = wk_rules w \<and>
    pool_batches (wk_pool w') \<subseteq> pool_batches (wk_pool w) \<union> Collect (wire_ok up (wk_rules w))"
  using assms(1)
proof cases
  case wk_runs
  then show ?thesis by (simp add: wk_run_def start_batches)
next
  case (wk_channel j cbs ch ss chs)
  have "pool_batches chs \<subseteq> pool_batches ((wk_pool w)[j := ch])" using deliver_all_batches [OF wk_channel(4)] by simp
  also have "\<dots> \<subseteq> pool_batches (wk_pool w)"
    using pool_batches_update [of "wk_pool w" j ch] ch_step_batches [OF wk_channel(3)] pool_batches_nth [OF wk_channel(2)]
    by blast
  finally show ?thesis using wk_channel(1) by auto
next
  case (wk_session i s s' chs fin w1)
  have "sys_ok pack {} (wk_sessions w) (wk_pool w)" using assms(3) by (simp add: wk_inv_def)
  from sys_okD [OF this wk_session(2)] have "cf_max_pipeline (ss_config s) < 2 ^ 32"
    by (simp add: ss_inv_def ss_control_ok_def)
  with ss_step_batches [OF wk_session(3)] assms(2) wk_session(1,4) show ?thesis
    by (simp add: env_ok_def session_finished_def)
next
  case (wk_stops ss chs)
  from pool_stop_batches [OF wk_stops(2)] wk_stops(1) show ?thesis by (auto simp: list_all_iff)
qed (auto simp: dispatch_push_def dispatch_flag_def dispatch_notify_def main_head_def main_swap_def main_polled_def
    reapFds_def reapSessions_def)

text \<open>
  C2 Only accepted commands reach Redis, and they are counted right: in every reachable
  state of a worker each batch that a channel has queued or handed to its socket is a run
  of complete frames from the front of one client's input, each accepted by the worker's
  rules, and holds exactly as many commands as replies are expected for it.
\<close>

theorem only_accepted_commands_reach_redis:
  assumes "env_ok up order ntf rd" and "reach wk_init (wk_next up pack order ntf drn) w"
  shows "\<forall>ch \<in> set (wk_pool w). \<forall>b \<in> set (ch_write ch) \<union> set (ch_wire ch). wire_ok up (wk_rules w) b"
proof -
  have "\<forall>b \<in> pool_batches (wk_pool w). wire_ok up (wk_rules w) b"
    using assms(2)
  proof (rule wk_sys.reach_rel [where rd = rd])
    fix t :: "'a worker"
    assume "wk_init t"
    then show "\<forall>b \<in> pool_batches (wk_pool t). wire_ok up (wk_rules t) b"
      by (auto simp: wk_init_def Worker_new_def BackendPool_new_def BackendChannel_new_def pool_batches_def ch_batches_def)
  next
    fix t u
    assume i: "env_ok up order ntf rd \<longrightarrow> wk_inv pack rd t" and b: "\<forall>b \<in> pool_batches (wk_pool t). wire_ok up (wk_rules t) b"
      and s: "wk_next up pack order ntf drn t u"
    have "wk_step up pack order ntf drn t u" using s by (simp add: wk_next_def)
    from wk_step_batches [OF this assms(1)] i assms(1) b
    show "\<forall>b \<in> pool_batches (wk_pool u). wire_ok up (wk_rules u) b" by auto
  qed
  then show ?thesis by (auto simp: pool_batches_def ch_batches_def)
qed

theorem only_accepted_commands_reach_redis_witness:
  "\<exists>w. ex_reach w \<and> wk_pool w = [ch_sending] \<and>
     ch_wire ch_sending = [\<lparr>rb_owner = Some 7, rb_bytes = ping_frame, rb_count = 1\<rparr>] \<and>
     wire_ok ping_unpack CommandRules_Default \<lparr>rb_owner = Some 7, rb_bytes = ping_frame, rb_count = 1\<rparr>"
proof -
  obtain w where w: "ex_reach w" "wk_pool w = [ch_sending]" "wk_rules w = CommandRules_Default"
    by (rule ex_sending) blast
  have c: "ch_wire ch_sending = [\<lparr>rb_owner = Some 7, rb_bytes = ping_frame, rb_count = 1\<rparr>]"
    by (simp add: ch_sending_def ch_sending_state(1) reader_round_def reader_exit_def ch_notify_def)
  with only_accepted_commands_reach_redis [OF ex_env_ok w(1)] w show ?thesis by auto
qed

end
