(* ===== verification/Session_End.thy ===== *)
theory Session_End
  imports Worker_Run
begin

text \<open>
  A session that is to end does end: once it is aborted, or drains with no reply
  outstanding, its own steps bring both coroutines to their ends in a bounded number,
  provided that the calls they are suspended in return.
\<close>

section \<open>Runs of one session\<close>

text \<open>
  A coroutine of the session is at its end or can be resumed: where it waits for a signal,
  the signal has been notified.
\<close>

definition ss_runnable :: "session \<Rightarrow> bool" where
  "ss_runnable s \<longleftrightarrow>
     (ss_reader s \<noteq> SR_none \<or> ss_writer s \<noteq> SW_none) \<and>
     (ss_writer s = SW_wait \<longrightarrow> sg_pending (ss_out_signal s)) \<and>
     (\<forall>e. ss_reader s = SR_reply_wait e \<longrightarrow> sg_pending (ss_reply_signal s))"

text \<open>
  However the session's coroutines are scheduled and whatever their calls return, the
  session calls \<^verbatim>\<open>on_finished_\<close> by its \<open>n\<close>-th step, and until then no coroutine is stuck.
\<close>

primrec ss_ends_within ::
  "unpacker \<Rightarrow> (string \<Rightarrow> bytes) \<Rightarrow> command_rules \<Rightarrow> nat \<Rightarrow> nat \<Rightarrow> session \<Rightarrow> nat pool \<Rightarrow> bool" where
  "ss_ends_within up pack rules self 0 s chs \<longleftrightarrow> False"
| "ss_ends_within up pack rules self (Suc n) s chs \<longleftrightarrow>
     ss_runnable s \<and>
     (\<forall>s' chs' fin. ss_step up pack rules self s chs (s', chs', fin) \<longrightarrow>
        fin \<or> ss_ends_within up pack rules self n s' chs')"

fun reader_rank :: "sr_point \<Rightarrow> nat" where
  "reader_rank SR_none = 0"
| "reader_rank (SR_reply_wait e) = 2"
| "reader_rank SR_pause = 2"
| "reader_rank _ = 1"

fun writer_rank :: "sw_point \<Rightarrow> nat" where
  "writer_rank SW_none = 0"
| "writer_rank SW_top = 1"
| "writer_rank _ = 2"

definition ss_rank :: "session \<Rightarrow> nat" where
  "ss_rank s = reader_rank (ss_reader s) + writer_rank (ss_writer s) + 2 * length (ss_out s) +
     (if ss_final s = [] then 0 else 2)"

definition ss_closing :: "session \<Rightarrow> bool" where
  "ss_closing s \<longleftrightarrow> ss_state s = SS_kAborted \<or> ss_state s = SS_kDraining \<and> ss_pending s = 0"

section \<open>Each step comes closer\<close>

lemma finish_fields:
  assumes "finishLoop self s chs = (s', chs', fin)"
  shows "ss_state s' = ss_state s" "ss_pending s' = ss_pending s" "ss_reader s' = ss_reader s" "ss_writer s' = ss_writer s"
    "ss_out s' = ss_out s" "ss_final s' = ss_final s" "chs' = chs \<or> chs' = pool_detachOwner (Some self) chs"
  using assms by (auto simp: finishLoop_def Let_def split: if_splits)

text \<open>What a step of a session that is to end achieves.\<close>

definition progress :: "session \<Rightarrow> nat pool \<Rightarrow> session \<times> nat pool \<times> bool \<Rightarrow> bool" where
  "progress s chs r =
     (case r of (s', chs', fin) \<Rightarrow> ss_closing s' \<and> ss_rank s' < ss_rank s \<and> (pool_fits chs \<longrightarrow> pool_fits chs'))"

lemma reader_finish_progress:
  assumes "ss_closing s" and "ss_reader s \<noteq> SR_none" and "ss_reader s0 = ss_reader s" and "ss_state s0 = ss_state s"
    and "ss_pending s0 = ss_pending s" and "ss_writer s0 = ss_writer s" and "ss_out s0 = ss_out s" and "ss_final s0 = ss_final s"
  shows "progress s chs (reader_finish self s0 chs)"
proof -
  obtain s' chs' fin where f: "reader_finish self s0 chs = (s', chs', fin)" by (metis prod_cases3)
  have "0 < reader_rank (ss_reader s)" using assms(2) by (cases "ss_reader s") simp_all
  with finish_fields [OF f [unfolded reader_finish_def]] assms detach_fits show ?thesis
    by (auto simp: f progress_def ss_closing_def ss_rank_def)
qed

lemma writer_finish_progress:
  assumes "ss_closing s0" and "ss_writer s \<noteq> SW_none" and "ss_reader s0 = ss_reader s"
    and "length (ss_out s0) \<le> length (ss_out s)" and "ss_final s0 = ss_final s" and "pool_fits chs \<longrightarrow> pool_fits chs0"
  shows "progress s chs (writer_finish self s0 chs0)"
proof -
  obtain s' chs' fin where f: "writer_finish self s0 chs0 = (s', chs', fin)" by (metis prod_cases3)
  have "0 < writer_rank (ss_writer s)" using assms(2) by (cases "ss_writer s") simp_all
  with finish_fields [OF f [unfolded writer_finish_def]] assms detach_fits show ?thesis
    by (auto simp: f progress_def ss_closing_def ss_rank_def)
qed

lemma send_progress:
  assumes "ss_closing s" and "ss_writer s = SW_top" and "ss_out s \<noteq> []"
  shows "progress s chs (writer_send s, chs, False)"
proof -
  have "length (drop 64 (ss_out s)) + 1 \<le> length (ss_out s)" using assms(3) by (cases "ss_out s") simp_all
  with assms show ?thesis by (simp add: progress_def writer_send_def ss_closing_def ss_rank_def)
qed

lemma final_progress:
  assumes "ss_closing s" and "ss_writer s = SW_top" and "ss_out s = []" and "ss_final s \<noteq> []"
  shows "progress s chs (writer_send (s\<lparr>ss_out := [b], ss_given := g, ss_final := []\<rparr>), chs, False)"
  using assms by (simp add: progress_def writer_send_def ss_closing_def ss_rank_def)

lemma writer_top_progress:
  assumes "ss_closing s" and "ss_writer s = SW_top"
  shows "progress s chs (ss_writer_top pack self s chs)"
  using assms writer_finish_progress [OF assms(1), of s] send_progress final_progress
  by (auto simp: ss_writer_top_def ss_closing_def)

lemma writer_written_progress:
  assumes "ss_closing s" and "ss_writer s = SW_writing"
  shows "progress s chs (ss_writer_written st self s chs)"
proof (cases "status_ok st")
  case True
  with assms show ?thesis by (simp add: ss_writer_written_def progress_def ss_closing_def ss_rank_def)
next
  case False
  obtain s1 chs1 where a: "ss_abort self s chs = (s1, chs1)" by fastforce
  then have "ss_closing s1" "ss_reader s1 = ss_reader s" "length (ss_out s1) \<le> length (ss_out s)" "ss_final s1 = ss_final s"
    "pool_fits chs \<longrightarrow> pool_fits chs1"
    by (auto simp: ss_abort_def ss_closing_def notify_reply_def notify_out_def detach_fits split: if_splits)
  with writer_finish_progress [of s1 s chs chs1] assms(2) False a show ?thesis by (simp add: ss_writer_written_def)
qed

lemma step_progress:
  assumes "ss_step up pack rules self s chs r" and "ss_closing s"
  shows "progress s chs r"
  using assms(1)
proof cases
  case (sr_top alloc)
  with reader_finish_progress [OF assms(2), of s] assms(2) show ?thesis
    by (auto simp: ss_reader_top_def ss_closing_def)
next
  case (sr_reply e)
  with reader_finish_progress [OF assms(2), of s] assms(2) show ?thesis
    by (auto simp: ss_reader_reply_def ss_closing_def)
next
  case (sr_reads st d)
  with reader_finish_progress [OF assms(2), of "s\<lparr>ss_in := ss_in s @ d\<rparr>"] assms(2) show ?thesis
    by (auto simp: ss_reader_read_def ss_closing_def Let_def)
next
  case sw_top
  with writer_top_progress assms(2) show ?thesis by blast
next
  case (sw_written st)
  with writer_written_progress assms(2) show ?thesis by blast
qed (use assms(2) in \<open>simp_all add: progress_def ss_closing_def ss_rank_def ss_reader_woken_def ss_writer_woken_def\<close>)

lemma closing_runnable:
  assumes "ss_inv pack s" and "ss_closing s" and "ss_reader s \<noteq> SR_none \<or> ss_writer s \<noteq> SW_none"
  shows "ss_runnable s"
  using assms by (auto simp: ss_runnable_def ss_inv_def ss_signals_ok_def ss_closing_def)

lemma closing_ends:
  assumes "ss_inv pack s" and "ss_link self s chs" and "list_all ch_inv chs" and "pool_fits chs" and "unpack_bounds up"
    and "ss_closing s" and "ss_reader s \<noteq> SR_none \<or> ss_writer s \<noteq> SW_none" and "ss_rank s \<le> n"
  shows "ss_ends_within up pack rules self n s chs"
  using assms(1-4,6-8)
proof (induction n arbitrary: s chs)
  case 0
  then show ?case by (cases "ss_reader s"; cases "ss_writer s") (simp_all add: ss_rank_def)
next
  case (Suc n)
  have "ss_ends_within up pack rules self n s' chs'"
    if st: "ss_step up pack rules self s chs (s', chs', fin)" and "\<not> fin" for s' chs' fin
  proof -
    have pr: "ss_closing s'" "ss_rank s' \<le> n" "pool_fits chs'"
      using step_progress [OF st Suc.prems(5)] Suc.prems(4,7) by (auto simp: progress_def)
    have ok: "ss_inv pack s'" "ss_link self s' chs'" "list_all ch_inv chs'" "ss_reader s' \<noteq> SR_none \<or> ss_writer s' \<noteq> SW_none"
      using ss_step_ok [OF st assms(5) Suc.prems(1,3,2) pr(3)] that(2) by (auto simp: ss_ok_def pool_frame_def)
    show ?thesis by (rule Suc.IH [OF ok(1-3) pr(3,1) ok(4) pr(2)])
  qed
  with closing_runnable [OF Suc.prems(1,5,6)] show ?case unfolding ss_ends_within.simps by blast
qed

lemma rank_bound: "ss_rank s \<le> 2 * length (ss_out s) + 6"
proof -
  have "reader_rank p \<le> 2" for p by (cases p) simp_all
  moreover have "writer_rank p \<le> 2" for p by (cases p) simp_all
  ultimately have "reader_rank (ss_reader s) + writer_rank (ss_writer s) \<le> 2 + 2" by (intro add_mono)
  then show ?thesis by (simp add: ss_rank_def)
qed

text \<open>
  C9 A session that is to end does end: in every reachable state of a worker, a session
  that was aborted, or that drains with no reply outstanding, and has not reported its end
  yet reports it after a bounded number of its own steps, however its coroutines are
  scheduled and whatever their reads and writes return; on the way no coroutine of it
  waits for a signal that was not notified.
\<close>

theorem closing_session_ends:
  assumes "env_ok up order ntf rd" and "reach wk_init (wk_next up pack order ntf drn) w" and "wk_sessions w i = Some s"
    and "ss_state s = SS_kAborted \<or> ss_state s = SS_kDraining \<and> ss_pending s = 0"
    and "ss_reader s \<noteq> SR_none \<or> ss_writer s \<noteq> SW_none"
  shows "ss_ends_within up pack (wk_rules w) i (2 * length (ss_out s) + 6) s (wk_pool w)"
proof -
  have sys: "sys_ok pack {} (wk_sessions w) (wk_pool w)" using reach_wk_inv [OF assms(1,2)] by (simp add: wk_inv_def)
  with sys_okD [OF sys assms(3)] have "ss_inv pack s" "ss_link i s (wk_pool w)" "list_all ch_inv (wk_pool w)"
    by (simp_all add: sys_ok_def)
  then show ?thesis
    using closing_ends reach_fits [OF assms(2)] assms(1,4,5) rank_bound by (simp add: ss_closing_def env_ok_def)
qed

theorem closing_session_ends_witness:
  "\<exists>w s. ex_reach w \<and> wk_sessions w 7 = Some s \<and> ss_out s = [ping_frame] \<and>
     ss_ends_within ping_unpack (\<lambda>e. CHR ''-'' # e) CommandRules_Default 7 8 s (wk_pool w)"
proof -
  obtain w s ch where w: "ex_reach w" "wk_sessions w = [7 \<mapsto> s]" "ss_state s = SS_kDraining" "ss_pending s = 0"
    "ss_writer s = SW_top" "ss_out s = [ping_frame]" "wk_rules w = CommandRules_Default"
    by (rule ex_draining) blast
  from closing_session_ends [OF ex_env_ok w(1), of 7 s] w show ?thesis by (intro exI [of _ w] exI [of _ s]) simp
qed

end
