(* ===== verification/Proxy_Server.thy ===== *)
theory Proxy_Server
  imports Worker
begin

text \<open>
  \<^verbatim>\<open>ProxyServer\<close> of \<^verbatim>\<open>src/proxy_server.cpp\<close> and \<^verbatim>\<open>main\<close>: reading the configuration,
  opening the listening socket, starting the workers and distributing the accepted
  connections. What \<^verbatim>\<open>CreateTcpListenSocket\<close> and \<^verbatim>\<open>co_accept\<close> return is an argument. Here
  \<^verbatim>\<open>dispatchFd\<close> is one step; \<^verbatim>\<open>Worker\<close> interleaves its parts with the worker's thread.
\<close>

section \<open>Operations\<close>

record 'n server =
  sv_config :: config
  sv_rules :: command_rules
  sv_listen_fd :: int
  sv_workers :: "'n worker list"
  sv_next :: nat

definition ProxyServer_new :: "config \<Rightarrow> 'n server" where
  "ProxyServer_new cfg =
     \<lparr>sv_config = cfg, sv_rules = CommandRules_Default, sv_listen_fd = -1, sv_workers = [], sv_next = 0\<rparr>"

text \<open>Up to the accept loop, with the notifiers in state \<open>n\<close>; \<^const>\<open>Inl\<close> is an exit code.\<close>

definition server_run :: "int \<Rightarrow> 'n \<Rightarrow> 'n server \<Rightarrow> int + 'n server" where
  "server_run listen_fd n sv =
     (if listen_fd < 0 then Inl 1
      else Inr (sv\<lparr>sv_listen_fd := listen_fd,
        sv_workers := map (\<lambda>i. Worker_new (int i) (sv_config sv) (sv_rules sv) n) [0..<nat (cf_workers (sv_config sv))]\<rparr>))"

text \<open>
  One round of the accept loop, \<open>fd\<close> being what \<^verbatim>\<open>co_accept\<close> returned; \<^const>\<open>None\<close> is an
  access outside the vector or a remainder by zero.
\<close>

definition accept_round :: "('n \<Rightarrow> 'n) \<Rightarrow> int \<Rightarrow> 'n server \<Rightarrow> 'n server option" where
  "accept_round ntf fd sv =
     (if fd < 0 then Some sv
      else if length (sv_workers sv) \<le> sv_next sv then None
      else Some (sv\<lparr>sv_workers := (sv_workers sv)[sv_next sv := dispatchFd ntf fd (sv_workers sv ! sv_next sv)],
                    sv_next := (sv_next sv + 1) mod length (sv_workers sv)\<rparr>))"

fun acceptLoop :: "('n \<Rightarrow> 'n) \<Rightarrow> int list \<Rightarrow> 'n server \<Rightarrow> 'n server option" where
  "acceptLoop ntf [] sv = Some sv"
| "acceptLoop ntf (fd # rest) sv = do { sv1 \<leftarrow> accept_round ntf fd sv; acceptLoop ntf rest sv1 }"

definition proxy_main ::
  "endpoint_parser \<Rightarrow> (string \<Rightarrow> string option) \<Rightarrow> string list \<Rightarrow> int \<Rightarrow> 'n \<Rightarrow> int + 'n server" where
  "proxy_main ep files args listen_fd n =
     (case LoadConfigFromArgs ep files args Config_default of
        (ok, cfg) \<Rightarrow> if \<not> ok then Inl 2 else server_run listen_fd n (ProxyServer_new cfg))"

section \<open>Round robin\<close>

text \<open>The descriptors at the positions of the list that are congruent to \<open>k\<close>.\<close>

definition every_nth :: "nat \<Rightarrow> nat \<Rightarrow> 'a list \<Rightarrow> 'a list" where
  "every_nth n k xs = map (nth xs) (filter (\<lambda>m. m mod n = k) [0..<length xs])"

lemma every_nth_snoc: "every_nth n k (xs @ [x]) = every_nth n k xs @ (if length xs mod n = k then [x] else [])"
  by (auto simp: every_nth_def nth_append intro: map_cong)

lemma dispatch_round:
  assumes "0 < length (sv_workers sv)" and "sv_next sv < length (sv_workers sv)" and "0 \<le> fd"
  obtains sv' where "accept_round ntf fd sv = Some sv'" "length (sv_workers sv') = length (sv_workers sv)"
    "sv_next sv' = (sv_next sv + 1) mod length (sv_workers sv)"
    "\<And>k. k < length (sv_workers sv) \<Longrightarrow> wk_dispatched (sv_workers sv' ! k) =
       wk_dispatched (sv_workers sv ! k) @ (if k = sv_next sv then [fd] else [])"
  using assms
  by (auto simp: accept_round_def nth_list_update dispatchFd_def dispatch_push_def dispatch_flag_def dispatch_notify_def)

lemma acceptLoop_append:
  "acceptLoop ntf (xs @ ys) sv = acceptLoop ntf xs sv \<bind> acceptLoop ntf ys"
proof (induction xs arbitrary: sv)
  case (Cons fd xs)
  then show ?case by (cases "accept_round ntf fd sv") simp_all
qed simp

text \<open>
  C20 Connections are spread evenly: starting from any configuration that was accepted,
  whatever \<^verbatim>\<open>co_accept\<close> returns the loop never leaves the vector of workers, and the
  \<open>m\<close>-th accepted connection goes to worker \<open>m\<close> modulo the number of workers, in order;
  failed calls change nothing.
\<close>

theorem accept_round_robin:
  assumes "server_run listen_fd n (ProxyServer_new cfg) = Inr sv" and "1 \<le> cf_workers cfg"
  shows "\<exists>sv'. acceptLoop ntf results sv = Some sv' \<and> length (sv_workers sv') = nat (cf_workers cfg) \<and>
    (\<forall>k < nat (cf_workers cfg). wk_dispatched (sv_workers sv' ! k) =
       every_nth (nat (cf_workers cfg)) k (filter (\<lambda>fd. 0 \<le> fd) results))"
proof -
  let ?n = "nat (cf_workers cfg)"
  have sv: "length (sv_workers sv) = ?n" "sv_next sv = 0" "0 < ?n"
      "\<And>k. k < ?n \<Longrightarrow> wk_dispatched (sv_workers sv ! k) = []"
    using assms by (auto simp: server_run_def ProxyServer_new_def Worker_new_def split: if_splits)
  have "\<exists>sv'. acceptLoop ntf results sv = Some sv' \<and> length (sv_workers sv') = ?n \<and>
      sv_next sv' = length (filter (\<lambda>fd. 0 \<le> fd) results) mod ?n \<and>
      (\<forall>k < ?n. wk_dispatched (sv_workers sv' ! k) = every_nth ?n k (filter (\<lambda>fd. 0 \<le> fd) results))"
  proof (induction results rule: rev_induct)
    case Nil
    then show ?case using sv by (simp add: every_nth_def)
  next
    case (snoc fd results)
    then obtain sv1 where 1: "acceptLoop ntf results sv = Some sv1" "length (sv_workers sv1) = ?n"
      "sv_next sv1 = length (filter (\<lambda>fd. 0 \<le> fd) results) mod ?n"
      "\<And>k. k < ?n \<Longrightarrow> wk_dispatched (sv_workers sv1 ! k) = every_nth ?n k (filter (\<lambda>fd. 0 \<le> fd) results)"
      by blast
    show ?case
    proof (cases "0 \<le> fd")
      case True
      have "0 < length (sv_workers sv1)" "sv_next sv1 < length (sv_workers sv1)" using 1 sv(3) by simp_all
      from dispatch_round [OF this True, of ntf] obtain sv2 where
        2: "accept_round ntf fd sv1 = Some sv2" "length (sv_workers sv2) = ?n" "sv_next sv2 = (sv_next sv1 + 1) mod ?n"
          "\<And>k. k < ?n \<Longrightarrow> wk_dispatched (sv_workers sv2 ! k) =
             wk_dispatched (sv_workers sv1 ! k) @ (if k = sv_next sv1 then [fd] else [])"
        using 1(2) by metis
      show ?thesis
        using 1 2 True by (intro exI [of _ sv2]) (simp add: acceptLoop_append every_nth_snoc mod_Suc_eq)
    next
      case False
      with 1 show ?thesis by (intro exI [of _ sv1]) (simp add: acceptLoop_append accept_round_def)
    qed
  qed
  then show ?thesis by blast
qed

theorem accept_round_robin_witness:
  "\<exists>sv sv'. server_run 3 False (ProxyServer_new (Config_default\<lparr>cf_workers := 2\<rparr>)) = Inr sv \<and>
     acceptLoop (\<lambda>_. True) [10, -1, 11, 12] sv = Some sv' \<and> wk_dispatched (sv_workers sv' ! 0) = [10, 12] \<and>
     wk_dispatched (sv_workers sv' ! 1) = [11]"
proof -
  obtain sv where sv: "server_run 3 False (ProxyServer_new (Config_default\<lparr>cf_workers := 2\<rparr>)) = Inr sv"
    by (simp add: server_run_def)
  from accept_round_robin [OF sv, of "\<lambda>_. True" "[10, -1, 11, 12]"] sv show ?thesis
    by (auto simp: every_nth_def upt_rec)
qed

text \<open>
  Start-up: a command line that is refused ends with code 2 and a socket that cannot be
  opened with code 1; otherwise there is at least one worker, each with its own number,
  the given configuration and the default rules, nothing has been dispatched, and the
  accept loop starts at the first.
\<close>

lemma proxy_main_starts:
  "case proxy_main ep files args listen_fd n of
     Inl code \<Rightarrow> (if fst (LoadConfigFromArgs ep files args Config_default) then listen_fd < 0 \<and> code = 1 else code = 2)
   | Inr sv \<Rightarrow> 0 \<le> listen_fd \<and> sv_listen_fd sv = listen_fd \<and> 1 \<le> length (sv_workers sv) \<and> sv_next sv = 0 \<and>
       int (length (sv_workers sv)) = cf_workers (sv_config sv) \<and>
       sv_workers sv = map (\<lambda>k. Worker_new (int k) (sv_config sv) CommandRules_Default n) [0..<length (sv_workers sv)]"
proof (cases "load_args ep files args Config_default")
  case None
  then show ?thesis by (simp add: proxy_main_def LoadConfigFromArgs_def)
next
  case (Some cfg)
  from load_args_ok [OF Some config_default_ok] have "1 \<le> cf_workers cfg"
    by (auto simp: ValidateConfig_def split: if_splits)
  then have "1 \<le> nat (cf_workers cfg)" "0 \<le> cf_workers cfg" by linarith+
  with Some show ?thesis
    by (simp add: proxy_main_def LoadConfigFromArgs_def server_run_def ProxyServer_new_def)
qed

end
