(* ===== verification/Bench_Driver.thy ===== *)
theory Bench_Driver
  imports Resp_Parser Proxy_Config
begin

text \<open>
  The load generator of \<^verbatim>\<open>bench/proxy_bench.cpp\<close>: its command line, the blocking
  connection, the reply counter, the loop of one client thread and the sum over the
  threads. \<^verbatim>\<open>redis::UnpackOne\<close> and the default limits are the parameters \<open>up\<close> and
  \<open>lim\<close>, \<^verbatim>\<open>redis::PackCommand\<close>, which appends to its output, is \<open>pk\<close>. The answers of
  the system calls and of the clock are arguments. The counts of replies, an \<^verbatim>\<open>int\<close> in
  the code, are natural numbers, and the sum in the loop of a thread is \<^const>\<open>None\<close> where the
  addition of \<^verbatim>\<open>int\<close>s overflows, which is then shown not to happen. The quotient and the
  line that \<^verbatim>\<open>main\<close> prints are left out: the model ends with the total.
\<close>

section \<open>The command line\<close>

record options =
  op_port :: int
  op_clients :: int
  op_pipeline :: int
  op_seconds :: int
  op_command :: string

definition Options_default :: options where
  "Options_default =
     \<lparr>op_port = 6379, op_clients = 1, op_pipeline = 1, op_seconds = 10, op_command = ''PING''\<rparr>"

text \<open>The C library's \<^verbatim>\<open>atoi\<close>, which is undefined outside the range of \<^verbatim>\<open>int\<close>.\<close>

definition atoi :: "string \<Rightarrow> int option" where
  "atoi s = (let v = fst (strtol (c_str s)) in if - (2 ^ 31) \<le> v \<and> v < 2 ^ 31 then Some v else None)"

text \<open>The loop over the arguments behind the program's name; \<open>value\<close> is \<open>hd (rest @ [[]])\<close>.\<close>

fun Parse_loop :: "string list \<Rightarrow> options \<Rightarrow> options option" where
  "Parse_loop [] opts = Some opts"
| "Parse_loop (arg # rest) opts =
     (if arg = ''--port''
      then do { v \<leftarrow> atoi (hd (rest @ [[]])); Parse_loop (drop 1 rest) (opts\<lparr>op_port := v\<rparr>) }
      else if arg = ''--clients''
      then do { v \<leftarrow> atoi (hd (rest @ [[]])); Parse_loop (drop 1 rest) (opts\<lparr>op_clients := v\<rparr>) }
      else if arg = ''--pipeline''
      then do { v \<leftarrow> atoi (hd (rest @ [[]])); Parse_loop (drop 1 rest) (opts\<lparr>op_pipeline := v\<rparr>) }
      else if arg = ''--seconds''
      then do { v \<leftarrow> atoi (hd (rest @ [[]])); Parse_loop (drop 1 rest) (opts\<lparr>op_seconds := v\<rparr>) }
      else if arg = ''--command''
      then Parse_loop (drop 1 rest) (opts\<lparr>op_command := hd (rest @ [[]])\<rparr>)
      else Parse_loop rest opts)"

definition Parse :: "string list \<Rightarrow> options option" where
  "Parse args = Parse_loop args Options_default"

section \<open>Connect\<close>

text \<open>The calls on the descriptor whose order matters, and the answers of the system.\<close>

datatype bench_call =
  BC_reuseaddr int | BC_linger int | BC_setfl int int | BC_connect int nat | BC_close int

record bench_connect =
  bc_socket :: int
  bc_flags :: int
  bc_connect :: int
  bc_in_progress :: bool
  bc_poll :: int
  bc_getsockopt :: int
  bc_so_error :: int

definition O_NONBLOCK :: int where
  "O_NONBLOCK = 2048"

text \<open>
  \<open>bc_in_progress\<close> is whether \<^verbatim>\<open>errno\<close> is \<^verbatim>\<open>EINPROGRESS\<close> behind \<^verbatim>\<open>connect\<close>; a call that
  succeeds leaves there what was there before. \<^verbatim>\<open>htons\<close> takes the low 16 bits.
\<close>

definition Connect :: "bench_connect \<Rightarrow> int \<Rightarrow> int \<times> bench_call list" where
  "Connect a port =
     (let fd = bc_socket a;
          calls = [BC_reuseaddr fd, BC_linger fd, BC_setfl fd (or (bc_flags a) O_NONBLOCK),
                   BC_connect fd (nat (port mod 2 ^ 16))]
      in if fd < 0 then (-1, [])
         else if bc_connect a < 0 \<and> \<not> bc_in_progress a then (-1, calls @ [BC_close fd])
         else if bc_in_progress a \<and> bc_poll a \<le> 0 then (-1, calls @ [BC_close fd])
         else if bc_in_progress a \<and> (bc_getsockopt a < 0 \<or> bc_so_error a \<noteq> 0) then (-1, calls @ [BC_close fd])
         else (fd, calls @ [BC_setfl fd (bc_flags a)]))"

section \<open>CountReplies\<close>

partial_function (option) count_loop :: "unpacker \<Rightarrow> RespLimits \<Rightarrow> bytes \<Rightarrow> nat \<Rightarrow> (nat \<times> bytes) option" where
  "count_loop up lim pending replies =
     (let result = up pending 256 lim
      in if rr_status result = RS_kNeedMore then Some (replies, pending)
         else if rr_status result \<noteq> RS_kOk then Some (replies, [])
         else count_loop up lim (drop (rr_consumed result) pending) (replies + 1))"

text \<open>The number of replies and what \<^verbatim>\<open>*pending\<close> holds then.\<close>

definition CountReplies :: "unpacker \<Rightarrow> RespLimits \<Rightarrow> bytes \<Rightarrow> bytes \<Rightarrow> (nat \<times> bytes) option" where
  "CountReplies up lim pending data = count_loop up lim (pending @ data) 0"

section \<open>MakeRequest\<close>

definition bench_command :: "string \<Rightarrow> string list" where
  "bench_command command =
     (if command = ''PING'' then [''PING'']
      else if command = ''GET'' then [''GET'', ''bench:key'']
      else [''SET'', ''bench:key'', ''0123456789abcdef''])"

definition MakeRequest :: "(string list \<Rightarrow> bytes \<Rightarrow> bytes) \<Rightarrow> string \<Rightarrow> int \<Rightarrow> bytes" where
  "MakeRequest pk command pipeline = (pk (bench_command command) ^^ nat pipeline) []"

section \<open>The client threads\<close>

text \<open>
  A round of the outer loop, entered before the end time: what \<^verbatim>\<open>write\<close> returned, and
  what the calls of \<^verbatim>\<open>read\<close> return, \<^const>\<open>None\<close> being an error and no bytes the end of
  the stream. Once the list of rounds is used up the end time has come; a round whose
  reads are used up waits in \<^verbatim>\<open>read\<close>.
\<close>

record bench_round =
  br_wrote :: int
  br_reads :: "bytes option list"

datatype read_end = Replied bytes | Read_failed | Read_waits

text \<open>
  The inner loop. \<^const>\<open>None\<close>: the sum of the replies, and with it the count just returned,
  does not fit an \<^verbatim>\<open>int\<close>, or the counter does not return.
\<close>

fun read_loop :: "unpacker \<Rightarrow> RespLimits \<Rightarrow> int \<Rightarrow> bytes option list \<Rightarrow> bytes \<Rightarrow> nat \<Rightarrow> read_end option" where
  "read_loop up lim pipeline reads pending replies =
     (if int replies < pipeline
      then (case reads of
              [] \<Rightarrow> Some Read_waits
            | None # rs \<Rightarrow> Some Read_failed
            | Some d # rs \<Rightarrow>
                if d = [] then Some Read_failed
                else (case CountReplies up lim pending (take (1024 * 1024) d) of
                        None \<Rightarrow> None
                      | Some (k, pending') \<Rightarrow>
                          if replies + k < 2 ^ 31 then read_loop up lim pipeline rs pending' (replies + k) else None))
      else Some (Replied pending))"

declare read_loop.simps [simp del]

datatype thread_end = Returned u64 | Waits

fun rounds_loop ::
  "unpacker \<Rightarrow> RespLimits \<Rightarrow> int \<Rightarrow> bytes \<Rightarrow> bench_round list \<Rightarrow> bytes \<Rightarrow> u64 \<Rightarrow> thread_end option" where
  "rounds_loop up lim pipeline req [] pending local = Some (Returned local)"
| "rounds_loop up lim pipeline req (r # rs) pending local =
     (if br_wrote r \<noteq> int (length req) then Some (Returned local)
      else (case read_loop up lim pipeline (br_reads r) pending 0 of
             None \<Rightarrow> None
           | Some Read_waits \<Rightarrow> Some Waits
           | Some Read_failed \<Rightarrow> Some (Returned local)
           | Some (Replied pending') \<Rightarrow> rounds_loop up lim pipeline req rs pending' (local + of_int pipeline)))"

text \<open>
  The thread function, \<open>ops\<close> being what \<^verbatim>\<open>*ops\<close> held: how it ends, and the calls it made
  on its descriptor.
\<close>

definition bench_Worker ::
  "unpacker \<Rightarrow> RespLimits \<Rightarrow> (string list \<Rightarrow> bytes \<Rightarrow> bytes) \<Rightarrow> options \<Rightarrow> bench_connect \<Rightarrow> bench_round list \<Rightarrow> u64 \<Rightarrow>
     (thread_end \<times> bench_call list) option" where
  "bench_Worker up lim pk opts a rounds ops =
     (case Connect a (op_port opts) of (fd, calls) \<Rightarrow>
        if fd < 0 then Some (Returned ops, calls)
        else (case rounds_loop up lim (op_pipeline opts) (MakeRequest pk (op_command opts) (op_pipeline opts)) rounds [] 0 of
               None \<Rightarrow> None
             | Some Waits \<Rightarrow> Some (Waits, calls)
             | Some (Returned local) \<Rightarrow> Some (Returned local, calls @ [BC_close fd])))"

text \<open>
  \<^verbatim>\<open>main\<close> up to the total; the scripts of the threads are a function of their number.
  \<^const>\<open>None\<close>: the vector cannot have a negative size, a thread's counter does not
  return or overflows, or a thread that waits is joined.
\<close>

fun join_all :: "(thread_end \<times> bench_call list) option list \<Rightarrow> u64 \<Rightarrow> u64 option" where
  "join_all [] tot = Some tot"
| "join_all (Some (Returned n, calls) # ts) tot = join_all ts (tot + n)"
| "join_all (_ # ts) tot = None"

definition bench_main ::
  "unpacker \<Rightarrow> RespLimits \<Rightarrow> (string list \<Rightarrow> bytes \<Rightarrow> bytes) \<Rightarrow> (nat \<Rightarrow> bench_connect \<times> bench_round list) \<Rightarrow>
     string list \<Rightarrow> u64 option" where
  "bench_main up lim pk scripts args = do {
     opts \<leftarrow> Parse args;
     if op_clients opts < 0 then None
     else join_all (map (\<lambda>i. bench_Worker up lim pk opts (fst (scripts i)) (snd (scripts i)) 0) [0..<nat (op_clients opts)]) 0
   }"

section \<open>The command line, read back\<close>

definition show_int :: "int \<Rightarrow> string" where
  "show_int v = (if v < 0 then CHR ''-'' # decimal (nat (- v)) else decimal (nat v))"

definition show_options :: "options \<Rightarrow> string list" where
  "show_options opts =
     [''--port'', show_int (op_port opts), ''--clients'', show_int (op_clients opts),
      ''--pipeline'', show_int (op_pipeline opts), ''--seconds'', show_int (op_seconds opts),
      ''--command'', op_command opts]"

definition int_range :: "int \<Rightarrow> bool" where
  "int_range v \<longleftrightarrow> - (2 ^ 31) \<le> v \<and> v < 2 ^ 31"

lemma atoi_show [simp]: "int_range v \<Longrightarrow> atoi (show_int v) = Some v"
  by (simp add: atoi_def show_int_def strtol_def c_scan_decimal int_range_def Let_def) linarith

text \<open>
  Options written on the command line are the options the driver runs with, negative
  numbers included: \<^verbatim>\<open>Parse\<close> inverts the printing of any options whose numbers fit an
  \<^verbatim>\<open>int\<close>, and arguments it does not know change nothing.
\<close>

lemma Parse_roundtrip:
  assumes "int_range (op_port opts)" and "int_range (op_clients opts)" and "int_range (op_pipeline opts)"
    and "int_range (op_seconds opts)"
    and "\<forall>arg \<in> set junk. arg \<notin> {''--port'', ''--clients'', ''--pipeline'', ''--seconds'', ''--command''}"
  shows "Parse (junk @ show_options opts) = Some opts"
proof -
  have "Parse_loop (junk @ args) opts0 = Parse_loop args opts0" for args opts0
    using assms(5) by (induction junk arbitrary: opts0) simp_all
  with assms show ?thesis by (simp add: Parse_def show_options_def Options_default_def)
qed

section \<open>The descriptor\<close>

text \<open>
  The driver's connection does not leak: \<^verbatim>\<open>Connect\<close> returns either the new descriptor,
  open and with its original flags set last, or -1, and then a descriptor that was
  created has been closed exactly once, by the last call.
\<close>

lemma Connect_closes_on_failure:
  "case Connect a port of (fd, calls) \<Rightarrow>
     if fd < 0
     then fd = -1 \<and> (if bc_socket a < 0 then calls = []
                     else count_list calls (BC_close (bc_socket a)) = 1 \<and> last calls = BC_close (bc_socket a))
     else fd = bc_socket a \<and> (\<forall>d. count_list calls (BC_close d) = 0) \<and> last calls = BC_setfl fd (bc_flags a)"
  by (simp add: Connect_def Let_def)

section \<open>Counting does not depend on how the stream is cut\<close>

text \<open>A prefix of an input that the decoder does not refuse is not refused.\<close>

definition unpack_stream :: "unpacker \<Rightarrow> bool" where
  "unpack_stream up \<longleftrightarrow>
     (\<forall>input more n lim. rr_status (up (input @ more) n lim) \<in> {RS_kOk, RS_kNeedMore} \<longrightarrow>
        rr_status (up input n lim) \<in> {RS_kOk, RS_kNeedMore})"

text \<open>The input is \<open>k\<close> complete replies and then \<open>rest\<close>, the beginning of another.\<close>

inductive replies_in :: "unpacker \<Rightarrow> RespLimits \<Rightarrow> nat \<Rightarrow> bytes \<Rightarrow> bytes \<Rightarrow> bool"
  for up :: unpacker and lim :: RespLimits
where
  replies_none: "rr_status (up s 256 lim) = RS_kNeedMore \<Longrightarrow> replies_in up lim 0 s s"
| replies_more: "rr_status (up s 256 lim) = RS_kOk \<Longrightarrow> replies_in up lim k (drop (rr_consumed (up s 256 lim)) s) rest \<Longrightarrow>
    replies_in up lim (Suc k) s rest"

text \<open>Calls of \<^verbatim>\<open>CountReplies\<close> on one chunk after the other, with the replies added up.\<close>

fun count_chunks :: "unpacker \<Rightarrow> RespLimits \<Rightarrow> bytes \<Rightarrow> bytes list \<Rightarrow> (nat \<times> bytes) option" where
  "count_chunks up lim pending [] = Some (0, pending)"
| "count_chunks up lim pending (d # ds) = do {
     (k, pending') \<leftarrow> CountReplies up lim pending d;
     (n, pending'') \<leftarrow> count_chunks up lim pending' ds;
     Some (k + n, pending'')
   }"

lemma count_loop_replies: "replies_in up lim k s rest \<Longrightarrow> count_loop up lim s n = Some (n + k, rest)"
proof (induction arbitrary: n rule: replies_in.induct)
  case (replies_none s)
  then show ?case by (simp add: count_loop.simps)
next
  case (replies_more s k rest)
  then show ?case by (simp add: count_loop.simps [of up lim s])
qed

lemma count_loop_total:
  assumes "unpack_bounds up"
  shows "\<exists>k rest. count_loop up lim s n = Some (n + k, rest) \<and> k + length rest \<le> length s \<and>
    rr_status (up rest 256 lim) \<noteq> RS_kOk"
proof (induction "length s" arbitrary: s n rule: less_induct)
  case less
  show ?case
  proof (cases "rr_status (up s 256 lim) = RS_kOk")
    case True
    let ?s = "drop (rr_consumed (up s 256 lim)) s"
    note b = unpack_boundsD(1,2) [OF assms True]
    then have "length ?s < length s" by simp
    from less [OF this, of "n + 1"] obtain k rest where
      "count_loop up lim ?s (n + 1) = Some (n + 1 + k, rest)" "k + length rest \<le> length ?s"
      "rr_status (up rest 256 lim) \<noteq> RS_kOk" by blast
    with True b show ?thesis
      by (intro exI [of _ "Suc k"] exI [of _ rest]) (simp add: count_loop.simps [of up lim s])
  next
    case False
    have "rr_status (up [] 256 lim) \<noteq> RS_kOk" using unpack_boundsD(1,2) [OF assms, of "[]" 256 lim] by auto
    with False show ?thesis by (intro exI [of _ 0]) (simp add: count_loop.simps [of up lim s] Let_def)
  qed
qed

text \<open>The replies that are complete in a part of the stream, and what remains.\<close>

lemma replies_prefix:
  assumes "unpack_bounds up" and "unpack_prefix up" and "unpack_stream up" and "replies_in up lim k (s @ ys) rest"
  obtains j r where "j \<le> k" "replies_in up lim j s r" "replies_in up lim (k - j) (r @ ys) rest"
proof -
  have "\<exists>j r. j \<le> k \<and> replies_in up lim j s r \<and> replies_in up lim (k - j) (r @ ys) rest"
    using assms(4)
  proof (induction k arbitrary: s)
    case 0
    then have "rr_status (up (s @ ys) 256 lim) = RS_kNeedMore" by (auto elim: replies_in.cases)
    moreover have "rr_status (up s 256 lim) \<noteq> RS_kOk"
      using assms(2) calculation unfolding unpack_prefix_def by (metis RespStatus.distinct(1))
    moreover have "rr_status (up s 256 lim) \<in> {RS_kOk, RS_kNeedMore}"
      using assms(3) calculation(1) unfolding unpack_stream_def by blast
    ultimately show ?case using 0 by (auto intro: replies_none)
  next
    case (Suc k)
    then have ok: "rr_status (up (s @ ys) 256 lim) = RS_kOk"
      and tail: "replies_in up lim k (drop (rr_consumed (up (s @ ys) 256 lim)) (s @ ys)) rest"
      by (auto elim: replies_in.cases)
    have "rr_status (up s 256 lim) \<in> {RS_kOk, RS_kNeedMore}" using assms(3) ok unfolding unpack_stream_def by blast
    then show ?case
    proof
      assume s: "rr_status (up s 256 lim) = RS_kOk"
      with assms(2) have eq: "up (s @ ys) 256 lim = up s 256 lim" by (simp add: unpack_prefix_def)
      let ?s = "drop (rr_consumed (up s 256 lim)) s"
      have "replies_in up lim k (?s @ ys) rest" using tail eq unpack_boundsD(2) [OF assms(1) s] by simp
      with Suc.IH obtain j r where "j \<le> k" "replies_in up lim j ?s r" "replies_in up lim (k - j) (r @ ys) rest" by blast
      with s show ?case by (intro exI [of _ "Suc j"] exI [of _ r]) (auto intro: replies_more)
    next
      assume "rr_status (up s 256 lim) \<in> {RS_kNeedMore}"
      with Suc.prems show ?case by (intro exI [of _ 0] exI [of _ s]) (auto intro: replies_none)
    qed
  qed
  with that show thesis by blast
qed

lemma count_chunks_replies:
  assumes "unpack_bounds up" and "unpack_prefix up" and "unpack_stream up"
  shows "replies_in up lim k (pending @ concat ds) rest \<Longrightarrow> replies_in up lim 0 pending pending \<Longrightarrow>
    count_chunks up lim pending ds = Some (k, rest)"
proof (induction ds arbitrary: pending k)
  case Nil
  then show ?case using count_loop_replies [of up lim k pending rest 0] count_loop_replies [of up lim 0 pending pending 0] by simp
next
  case (Cons d ds)
  then have "replies_in up lim k ((pending @ d) @ concat ds) rest" by simp
  then obtain j r where j: "j \<le> k" "replies_in up lim j (pending @ d) r" "replies_in up lim (k - j) (r @ concat ds) rest"
    by (rule replies_prefix [OF assms])
  have "replies_in up lim 0 r r" using j(2) by (induction rule: replies_in.induct) (auto intro: replies_none)
  with Cons.IH [OF j(3)] j(1) count_loop_replies [OF j(2), of 0] show ?case by (simp add: CountReplies_def)
qed

text \<open>
  C27 The counter of the benchmark is exact whatever the reads return: when a stream is
  \<open>k\<close> complete replies and the beginning of another, feeding it to \<^verbatim>\<open>CountReplies\<close> in
  any chunks counts \<open>k\<close> and leaves that beginning pending, as one call on all of it does.
\<close>

theorem CountReplies_chunking:
  assumes "unpack_bounds up" and "unpack_prefix up" and "unpack_stream up"
    and "replies_in up lim k (concat ds) rest"
  shows "count_chunks up lim [] ds = Some (k, rest) \<and> CountReplies up lim [] (concat ds) = Some (k, rest)"
proof
  have "replies_in up lim k ([] @ concat ds) rest" using assms(4) by simp
  then obtain j r where j: "replies_in up lim j [] r" by (rule replies_prefix [OF assms(1-3)]) blast
  then have "replies_in up lim 0 [] []"
    using unpack_boundsD(1,2) [OF assms(1)] by cases (fastforce intro: replies_none)+
  with count_chunks_replies [OF assms(1-3), of lim k "[]" ds rest] assms(4)
  show "count_chunks up lim [] ds = Some (k, rest)" by simp
  show "CountReplies up lim [] (concat ds) = Some (k, rest)"
    using count_loop_replies [OF assms(4), of 0] by (simp add: CountReplies_def)
qed

lemma ping_unpack_stream: "unpack_stream ping_unpack"
proof -
  have "rr_status (ping_unpack a n lim) \<in> {RS_kOk, RS_kNeedMore}"
    if ab: "rr_status (ping_unpack (a @ b) n lim) \<in> {RS_kOk, RS_kNeedMore}" for a b n lim
  proof (cases "14 \<le> length a")
    case True
    have "b = []" if "a @ b = ping_frame" using arg_cong [OF that, of length] True by (cases b) simp_all
    with True ab show ?thesis by (auto simp: ping_unpack_def split: if_splits)
  next
    case False
    have "a = take (length a) ping_frame"
    proof (cases "take 14 (a @ b) = ping_frame")
      case True
      with False have "take (length a) ping_frame = take (length a) (take 14 (a @ b))" by simp
      with False show ?thesis by simp
    next
      case neq: False
      with ab have "a @ b = take (length (a @ b)) ping_frame" by (auto simp: ping_unpack_def split: if_splits)
      then have "take (length a) (a @ b) = take (length a) (take (length (a @ b)) ping_frame)" by (rule arg_cong)
      then show ?thesis by (simp add: min_def)
    qed
    moreover have "take 14 a \<noteq> ping_frame" using False ping_take_length by blast
    ultimately show ?thesis by (simp add: ping_unpack_def)
  qed
  then show ?thesis by (auto simp: unpack_stream_def)
qed

theorem CountReplies_chunking_witness:
  "count_chunks ping_unpack (p_limits RespParser_new) [] [take 5 ping_frame, drop 5 ping_frame @ take 3 ping_frame] =
     Some (1, take 3 ping_frame)"
proof -
  let ?ds = "[take 5 ping_frame, drop 5 ping_frame @ take 3 ping_frame]" and ?lim = "p_limits RespParser_new"
  have c: "concat ?ds = ping_frame @ take 3 ping_frame" by (simp flip: append_assoc)
  have "take 14 (take 3 ping_frame) \<noteq> ping_frame" using ping_take_length by fastforce
  then have "replies_in ping_unpack ?lim 0 (take 3 ping_frame) (take 3 ping_frame)"
    by (intro replies_none) (simp add: ping_unpack_def)
  then have "replies_in ping_unpack ?lim (Suc 0) (concat ?ds) (take 3 ping_frame)"
    unfolding c by (intro replies_more) (simp_all add: ping_unpack_def)
  from CountReplies_chunking [OF ping_unpack_ok(1,3) ping_unpack_stream this] show ?thesis by simp
qed

section \<open>What a client thread reports\<close>

text \<open>
  The reads that answer a request, where \<open>replies\<close> were counted before: some first of them
  all return bytes, in which, cut at the buffer's size, \<open>pipeline\<close> replies are counted, and
  fewer of them do not do.
\<close>

definition reads_done ::
  "unpacker \<Rightarrow> RespLimits \<Rightarrow> int \<Rightarrow> bytes \<Rightarrow> nat \<Rightarrow> bytes option list \<Rightarrow> bytes \<Rightarrow> bool" where
  "reads_done up lim pipeline pending replies reads pending' \<longleftrightarrow>
     (\<exists>ds rest n. reads = map Some ds @ rest \<and> [] \<notin> set ds \<and>
        count_chunks up lim pending (map (take (1024 * 1024)) ds) = Some (n, pending') \<and> pipeline \<le> int (replies + n) \<and>
        (\<forall>i < length ds. \<exists>m p. count_chunks up lim pending (map (take (1024 * 1024)) (take i ds)) = Some (m, p) \<and>
           int (replies + m) < pipeline))"

text \<open>A completed round: the whole request was written and answered. The first \<open>k\<close> rounds are completed.\<close>

definition round_done ::
  "unpacker \<Rightarrow> RespLimits \<Rightarrow> int \<Rightarrow> bytes \<Rightarrow> bytes \<Rightarrow> bench_round \<Rightarrow> bytes \<Rightarrow> bool" where
  "round_done up lim pipeline req pending r pending' \<longleftrightarrow>
     br_wrote r = int (length req) \<and> reads_done up lim pipeline pending 0 (br_reads r) pending'"

inductive rounds_done ::
  "unpacker \<Rightarrow> RespLimits \<Rightarrow> int \<Rightarrow> bytes \<Rightarrow> bytes \<Rightarrow> bench_round list \<Rightarrow> nat \<Rightarrow> bytes \<Rightarrow> bool"
  for up :: unpacker and lim :: RespLimits and pipeline :: int and req :: bytes
where
  done_none: "rounds_done up lim pipeline req pending rounds 0 pending"
| done_more: "round_done up lim pipeline req pending r p \<Longrightarrow> rounds_done up lim pipeline req p rounds k p' \<Longrightarrow>
    rounds_done up lim pipeline req pending (r # rounds) (Suc k) p'"

text \<open>A reply does not depend on the bytes behind it: the decoder accepts it alone.\<close>

definition unpack_exact :: "unpacker \<Rightarrow> bool" where
  "unpack_exact up \<longleftrightarrow>
     (\<forall>input n lim. rr_status (up input n lim) = RS_kOk \<longrightarrow>
        rr_status (up (take (rr_consumed (up input n lim)) input) n lim) = RS_kOk)"

lemma reads_done_enough:
  "pipeline \<le> int replies \<Longrightarrow> reads_done up lim pipeline pending replies reads p \<longleftrightarrow> p = pending"
  unfolding reads_done_def by (rule iffI) (force, intro exI [of _ "[]"] exI [of _ reads], simp)

lemma reads_done_none:
  "int replies < pipeline \<Longrightarrow> reads = [] \<or> hd reads = None \<or> hd reads = Some [] \<Longrightarrow>
     \<not> reads_done up lim pipeline pending replies reads p"
  unfolding reads_done_def
proof (intro notI, elim exE conjE)
  fix ds rest n
  assume "int replies < pipeline" "reads = [] \<or> hd reads = None \<or> hd reads = Some []" "reads = map Some ds @ rest" "[] \<notin> set ds"
    "count_chunks up lim pending (map (take (1024 * 1024)) ds) = Some (n, p)" "pipeline \<le> int (replies + n)"
  then show False by (cases ds) auto
qed

lemma reads_done_more:
  assumes "int replies < pipeline" and "d \<noteq> []" and "CountReplies up lim pending (take (1024 * 1024) d) = Some (k, p1)"
  shows "reads_done up lim pipeline pending replies (Some d # reads) p \<longleftrightarrow>
    reads_done up lim pipeline p1 (replies + k) reads p"
proof
  assume "reads_done up lim pipeline pending replies (Some d # reads) p"
  then obtain ds rest n where r: "Some d # reads = map Some ds @ rest" "[] \<notin> set ds"
    "count_chunks up lim pending (map (take (1024 * 1024)) ds) = Some (n, p)" "pipeline \<le> int (replies + n)"
    "\<forall>i < length ds. \<exists>m p. count_chunks up lim pending (map (take (1024 * 1024)) (take i ds)) = Some (m, p) \<and>
       int (replies + m) < pipeline"
    unfolding reads_done_def by blast
  have "ds \<noteq> []" using r(3,4) assms(1) by auto
  with r(1) obtain es where es: "ds = d # es" "reads = map Some es @ rest" by (cases ds) auto
  from r(3) es(1) assms(3) obtain n' where n: "n = k + n'" "count_chunks up lim p1 (map (take (1024 * 1024)) es) = Some (n', p)"
    by (auto simp: bind_Some_iff)
  have "\<exists>m p. count_chunks up lim p1 (map (take (1024 * 1024)) (take i es)) = Some (m, p) \<and> int (replies + k + m) < pipeline"
    if "i < length es" for i
    using spec [OF r(5), of "Suc i"] that es(1) assms(3) by (auto simp: bind_Some_iff)
  with es(2) n r(2,4) es(1) show "reads_done up lim pipeline p1 (replies + k) reads p"
    unfolding reads_done_def by (intro exI [of _ es] exI [of _ rest] exI [of _ n']) (simp add: add.assoc)
next
  assume "reads_done up lim pipeline p1 (replies + k) reads p"
  then obtain ds rest n where r: "reads = map Some ds @ rest" "[] \<notin> set ds"
    "count_chunks up lim p1 (map (take (1024 * 1024)) ds) = Some (n, p)" "pipeline \<le> int (replies + k + n)"
    "\<forall>i < length ds. \<exists>m p. count_chunks up lim p1 (map (take (1024 * 1024)) (take i ds)) = Some (m, p) \<and>
       int (replies + k + m) < pipeline"
    unfolding reads_done_def by blast
  have "\<exists>m p. count_chunks up lim pending (map (take (1024 * 1024)) (take i (d # ds))) = Some (m, p) \<and> int (replies + m) < pipeline"
    if "i < length (d # ds)" for i
    using r(5) that assms(1,3) by (cases i) (fastforce simp: add.assoc)+
  with r(1-4) assms(2,3) show "reads_done up lim pipeline pending replies (Some d # reads) p"
    unfolding reads_done_def by (intro exI [of _ "d # ds"] exI [of _ rest] exI [of _ "k + n"]) (simp add: add.assoc)
qed

lemma read_loop_done:
  "read_loop up lim pipeline reads pending replies = Some e \<Longrightarrow>
     reads_done up lim pipeline pending replies reads p \<longleftrightarrow> e = Replied p"
proof (induction reads arbitrary: pending replies)
  case Nil
  then show ?case
    using reads_done_none [of replies pipeline "[]"] reads_done_enough [of pipeline replies]
    by (auto simp: read_loop.simps split: if_splits)
next
  case (Cons r reads)
  consider "pipeline \<le> int replies" | "int replies < pipeline" "r = None \<or> r = Some []"
    | d where "int replies < pipeline" "r = Some d" "d \<noteq> []" by (cases r) fastforce+
  then show ?case
  proof cases
    case 1
    with Cons.prems show ?thesis using reads_done_enough by (auto simp: read_loop.simps)
  next
    case 2
    with Cons.prems show ?thesis using reads_done_none [OF 2(1), of "r # reads"] by (auto simp: read_loop.simps)
  next
    case 3
    with Cons.prems obtain k p1 where k: "CountReplies up lim pending (take (1024 * 1024) d) = Some (k, p1)"
      "read_loop up lim pipeline reads p1 (replies + k) = Some e"
      by (auto simp: read_loop.simps [of up lim pipeline "Some d # reads"] split: option.splits if_splits)
    from Cons.IH [OF k(2)] reads_done_more [OF 3(1,3) k(1)] 3(2) show ?thesis by simp
  qed
qed

lemma rounds_loop_done:
  assumes "rounds_loop up lim pipeline req rounds pending local = Some e"
  shows "\<exists>k p. rounds_done up lim pipeline req pending rounds k p \<and>
    (k < length rounds \<longrightarrow> (\<nexists>p'. round_done up lim pipeline req p (rounds ! k) p')) \<and>
    (case e of Returned n \<Rightarrow> n = local + of_nat k * of_int pipeline | Waits \<Rightarrow> k < length rounds)"
  using assms
proof (induction rounds arbitrary: pending local)
  case Nil
  then show ?case by (intro exI [of _ 0] exI [of _ pending]) (auto intro: done_none)
next
  case (Cons r rounds)
  show ?case
  proof (cases "\<exists>p1. round_done up lim pipeline req pending r p1")
    case True
    then obtain p1 where p1: "round_done up lim pipeline req pending r p1" by blast
    then have "br_wrote r = int (length req)" "reads_done up lim pipeline pending 0 (br_reads r) p1"
      by (simp_all add: round_done_def)
    with Cons.prems read_loop_done have "rounds_loop up lim pipeline req rounds p1 (local + of_int pipeline) = Some e"
      by (auto split: option.splits)
    from Cons.IH [OF this] obtain k p where k: "rounds_done up lim pipeline req p1 rounds k p"
      "k < length rounds \<longrightarrow> (\<nexists>p'. round_done up lim pipeline req p (rounds ! k) p')"
      "case e of Returned n \<Rightarrow> n = local + of_int pipeline + of_nat k * of_int pipeline | Waits \<Rightarrow> k < length rounds" by blast
    from done_more [OF p1 k(1)] k(2,3) show ?thesis
      by (intro exI [of _ "Suc k"] exI [of _ p]) (auto simp: algebra_simps split: thread_end.splits)
  next
    case False
    have "e = Returned local \<or> e = Waits"
    proof (cases "br_wrote r = int (length req)")
      case True
      with False Cons.prems read_loop_done show ?thesis
        by (fastforce simp: round_done_def split: option.splits read_end.splits)
    qed (use Cons.prems in simp)
    with False show ?thesis by (intro exI [of _ 0] exI [of _ pending]) (auto intro: done_none)
  qed
qed

text \<open>The sum of the replies does not overflow: what is pending has no complete reply.\<close>

lemma CountReplies_bound:
  assumes "unpack_bounds up" and "unpack_prefix up" and "unpack_exact up" and "rr_status (up pending 256 lim) \<noteq> RS_kOk"
  obtains k rest where "CountReplies up lim pending d = Some (k, rest)" "k \<le> length d"
    "rr_status (up rest 256 lim) \<noteq> RS_kOk"
proof (cases "rr_status (up (pending @ d) 256 lim) = RS_kOk")
  case True
  let ?c = "rr_consumed (up (pending @ d) 256 lim)" and ?s = "pending @ d"
  have "length pending < ?c"
  proof (rule ccontr)
    assume "\<not> length pending < ?c"
    then have "take ?c ?s @ drop ?c pending = pending" by simp
    moreover have "rr_status (up (take ?c ?s) 256 lim) = RS_kOk" using assms(3) True unfolding unpack_exact_def by blast
    ultimately show False using assms(2,4) unfolding unpack_prefix_def by metis
  qed
  moreover obtain k rest where "count_loop up lim (drop ?c ?s) 1 = Some (1 + k, rest)" "k + length rest \<le> length (drop ?c ?s)"
    "rr_status (up rest 256 lim) \<noteq> RS_kOk" using count_loop_total [OF assms(1), of lim "drop ?c ?s" 1] by blast
  moreover have "?c \<le> length ?s" using unpack_boundsD(2) [OF assms(1) True] .
  ultimately show thesis
    using True by (intro that [of "Suc k" rest]) (auto simp: CountReplies_def count_loop.simps [of up lim ?s])
next
  case False
  obtain k rest where "count_loop up lim (pending @ d) 0 = Some (k, rest)" "rr_status (up rest 256 lim) \<noteq> RS_kOk"
    using count_loop_total [OF assms(1), of lim "pending @ d" 0] by auto
  with False show thesis
    by (intro that [of k rest]) (auto simp: CountReplies_def count_loop.simps [of up lim "pending @ d"] Let_def split: if_splits)
qed

lemma read_loop_total:
  assumes "unpack_bounds up" and "unpack_prefix up" and "unpack_exact up" and "pipeline \<le> 2 ^ 31 - 2 ^ 20"
    and "rr_status (up pending 256 lim) \<noteq> RS_kOk"
  shows "\<exists>e. read_loop up lim pipeline reads pending replies = Some e \<and>
    (\<forall>p. e = Replied p \<longrightarrow> rr_status (up p 256 lim) \<noteq> RS_kOk)"
  using assms(5)
proof (induction reads arbitrary: pending replies)
  case Nil
  then show ?case by (simp add: read_loop.simps)
next
  case (Cons r reads)
  show ?case
  proof (cases "int replies < pipeline \<and> r \<noteq> None \<and> r \<noteq> Some []")
    case True
    then obtain d where d: "r = Some d" "d \<noteq> []" by auto
    obtain k rest where k: "CountReplies up lim pending (take (1024 * 1024) d) = Some (k, rest)"
      "k \<le> length (take (1024 * 1024) d)" "rr_status (up rest 256 lim) \<noteq> RS_kOk"
      by (rule CountReplies_bound [OF assms(1-3) Cons.prems])
    have "replies + k < 2 ^ 31" using True k(2) assms(4) by simp
    with True d k Cons.IH [OF k(3), of "replies + k"] show ?thesis
      by (simp add: read_loop.simps [of up lim pipeline "Some d # reads"])
  next
    case False
    with Cons.prems show ?thesis by (auto simp: read_loop.simps [of up lim pipeline "r # reads"])
  qed
qed

lemma rounds_loop_total:
  assumes "unpack_bounds up" and "unpack_prefix up" and "unpack_exact up" and "pipeline \<le> 2 ^ 31 - 2 ^ 20"
    and "rr_status (up pending 256 lim) \<noteq> RS_kOk"
  shows "\<exists>e. rounds_loop up lim pipeline req rounds pending local = Some e"
  using assms(5)
proof (induction rounds arbitrary: pending local)
  case (Cons r rounds)
  from read_loop_total [OF assms(1-4) Cons.prems] obtain e where
    "read_loop up lim pipeline (br_reads r) pending 0 = Some e" "\<And>p. e = Replied p \<Longrightarrow> rr_status (up p 256 lim) \<noteq> RS_kOk" by blast
  with Cons.IH show ?case by (cases e) auto
qed simp

text \<open>
  C28 A client thread reports exactly its completed rounds: when it ends, it has written
  the whole request and counted \<open>pipeline\<close> replies to it in each of the first \<open>k\<close> rounds,
  the next round, if there is one, does not get that far, and \<^verbatim>\<open>*ops\<close> is \<open>k * pipeline\<close>
  modulo \<open>2 ^ 64\<close>. A thread that does not end waits in \<^verbatim>\<open>read\<close>. Counting neither loops nor
  overflows an \<^verbatim>\<open>int\<close>, for every \<open>pipeline\<close> that leaves room for one buffer of replies. A
  thread that ends closes its descriptor exactly once; one that gets no connection leaves
  its result alone.
\<close>

theorem bench_Worker_reports:
  assumes "unpack_bounds up" and "unpack_prefix up" and "unpack_exact up" and "op_pipeline opts \<le> 2 ^ 31 - 2 ^ 20"
    and "req = MakeRequest pk (op_command opts) (op_pipeline opts)"
  shows "\<exists>e calls. bench_Worker up lim pk opts a rounds ops = Some (e, calls) \<and>
    (if fst (Connect a (op_port opts)) < 0 then e = Returned ops
     else count_list calls (BC_close (bc_socket a)) = (if e = Waits then 0 else 1) \<and>
       (\<exists>k p. rounds_done up lim (op_pipeline opts) req [] rounds k p \<and>
          (k < length rounds \<longrightarrow> (\<nexists>p'. round_done up lim (op_pipeline opts) req p (rounds ! k) p')) \<and>
          (case e of Returned n \<Rightarrow> n = of_int (int k * op_pipeline opts) | Waits \<Rightarrow> k < length rounds)))"
proof -
  obtain fd calls where c: "Connect a (op_port opts) = (fd, calls)" by fastforce
  have fd: "fd = bc_socket a \<and> count_list calls (BC_close fd) = 0" if "0 \<le> fd"
    using c that by (auto simp: Connect_def Let_def split: if_splits)
  have "rr_status (up [] 256 lim) \<noteq> RS_kOk" using unpack_boundsD(1,2) [OF assms(1), of "[]" 256 lim] by auto
  from rounds_loop_total [OF assms(1-4) this] obtain e where
    e: "rounds_loop up lim (op_pipeline opts) req rounds [] 0 = Some e" by blast
  from rounds_loop_done [OF e] obtain k p where k: "rounds_done up lim (op_pipeline opts) req [] rounds k p"
    "k < length rounds \<longrightarrow> (\<nexists>p'. round_done up lim (op_pipeline opts) req p (rounds ! k) p')"
    "case e of Returned n \<Rightarrow> n = 0 + of_nat k * of_int (op_pipeline opts) | Waits \<Rightarrow> k < length rounds" by blast
  have w: "case e of Returned n \<Rightarrow> n = of_int (int k * op_pipeline opts) | Waits \<Rightarrow> k < length rounds"
    using k(3) by (simp split: thread_end.splits)
  show ?thesis
  proof (cases "fd < 0")
    case True
    with c show ?thesis by (simp add: bench_Worker_def)
  next
    case False
    then obtain cs where "bench_Worker up lim pk opts a rounds ops = Some (e, cs)"
      "count_list cs (BC_close (bc_socket a)) = (if e = Waits then 0 else 1)"
      using c e fd assms(5) by (cases e) (auto simp: bench_Worker_def)
    with False c k(1,2) w show ?thesis by (intro exI [of _ e] exI [of _ cs]) (simp, blast)
  qed
qed

lemma ping_unpack_exact: "unpack_exact ping_unpack"
  using ping_take_length by (fastforce simp: unpack_exact_def ping_unpack_def)

theorem bench_Worker_reports_witness:
  "\<exists>calls. bench_Worker ping_unpack (p_limits RespParser_new) (\<lambda>args req. req @ ping_frame) Options_default
       \<lparr>bc_socket = 5, bc_flags = 2, bc_connect = -1, bc_in_progress = True, bc_poll = 1, bc_getsockopt = 0, bc_so_error = 0\<rparr>
       [\<lparr>br_wrote = 14, br_reads = [Some (take 5 ping_frame), Some (drop 5 ping_frame)]\<rparr>] 0 = Some (Returned 1, calls) \<and>
     count_list calls (BC_close 5) = 1"
proof -
  let ?a = "\<lparr>bc_socket = 5, bc_flags = 2, bc_connect = -1, bc_in_progress = True, bc_poll = 1, bc_getsockopt = 0, bc_so_error = 0\<rparr>"
  let ?rs = "[\<lparr>br_wrote = 14, br_reads = [Some (take 5 ping_frame), Some (drop 5 ping_frame)]\<rparr>]"
  let ?pk = "\<lambda>args req. req @ ping_frame" and ?lim = "p_limits RespParser_new"
  have n: "take 14 (take 5 ping_frame) \<noteq> ping_frame" "take 14 [] \<noteq> ping_frame" "take 5 ping_frame \<noteq> []" "drop 5 ping_frame \<noteq> []"
    by (simp_all add: ping_frame_def)
  have 1: "CountReplies ping_unpack ?lim [] (take 5 ping_frame) = Some (0, take 5 ping_frame)"
    using n by (simp add: CountReplies_def count_loop.simps ping_unpack_def)
  have 2: "CountReplies ping_unpack ?lim (take 5 ping_frame) (drop 5 ping_frame) = Some (1, [])"
    by (simp add: CountReplies_def count_loop.simps [of _ _ ping_frame] count_loop.simps [of _ _ "[]"] ping_unpack_def n(2) [simplified])
  have "take 1048576 (take 5 ping_frame) = take 5 ping_frame" "take 1048576 (drop 5 ping_frame) = drop 5 ping_frame" by simp_all
  then have "read_loop ping_unpack ?lim 1 (br_reads (hd ?rs)) [] 0 = Some (Replied [])"
    using 1 2 n by (simp add: read_loop.simps)
  then have "\<exists>calls. bench_Worker ping_unpack ?lim ?pk Options_default ?a ?rs 0 = Some (Returned 1, calls)"
    by (simp add: bench_Worker_def Options_default_def MakeRequest_def Connect_def)
  moreover have "0 \<le> fst (Connect ?a 6379)" "op_pipeline Options_default \<le> 2 ^ 31 - 2 ^ 20" "op_port Options_default = 6379"
    by (simp_all add: Connect_def Options_default_def)
  ultimately show ?thesis
    using bench_Worker_reports [OF ping_unpack_ok(1,3) ping_unpack_exact _ refl, of Options_default ?lim ?pk ?a ?rs 0]
    by auto
qed

lemma join_all_sum:
  "join_all ts tot = Some r \<Longrightarrow>
     \<exists>ns. list_all2 (\<lambda>t n. \<exists>calls. t = Some (Returned n, calls)) ts ns \<and> r = tot + sum_list ns"
proof (induction ts tot rule: join_all.induct)
  case (2 n calls ts tot)
  then obtain ns where "list_all2 (\<lambda>t n. \<exists>calls. t = Some (Returned n, calls)) ts ns" "r = tot + n + sum_list ns" by auto
  then show ?case by (intro exI [of _ "n # ns"]) (auto simp: add.assoc)
qed auto

text \<open>The total is the completed rounds of all threads, \<open>pipeline\<close> operations each.\<close>

lemma bench_main_total:
  assumes "Parse args = Some opts" and "bench_main up lim pk scripts args = Some r"
    and "req = MakeRequest pk (op_command opts) (op_pipeline opts)"
  shows "\<exists>ks. length ks = nat (op_clients opts) \<and>
    (\<forall>i < length ks. \<exists>p. rounds_done up lim (op_pipeline opts) req [] (snd (scripts i)) (ks ! i) p) \<and>
    r = of_int (int (sum_list ks) * op_pipeline opts)"
proof -
  let ?t = "\<lambda>i. bench_Worker up lim pk opts (fst (scripts i)) (snd (scripts i)) 0" and ?m = "nat (op_clients opts)"
  let ?d = "\<lambda>i k. \<exists>p. rounds_done up lim (op_pipeline opts) req [] (snd (scripts i)) k p"
  have "join_all (map ?t [0..<?m]) 0 = Some r" using assms(1,2) by (simp add: bench_main_def split: if_splits)
  from join_all_sum [OF this] obtain ns where ns: "length ns = ?m" "r = sum_list ns"
    "\<And>i. i < ?m \<Longrightarrow> \<exists>calls. ?t i = Some (Returned (ns ! i), calls)"
    by (auto simp: list_all2_conv_all_nth)
  have "\<exists>k. ?d i k \<and> ns ! i = of_int (int k * op_pipeline opts)" if i: "i < ?m" for i
  proof -
    obtain calls where t: "?t i = Some (Returned (ns ! i), calls)" using ns(3) [OF i] by blast
    show ?thesis
    proof (cases "fst (Connect (fst (scripts i)) (op_port opts)) < 0")
      case True
      with t show ?thesis by (intro exI [of _ 0]) (auto simp: bench_Worker_def intro: done_none split: prod.splits)
    next
      case False
      with t assms(3) have "rounds_loop up lim (op_pipeline opts) req (snd (scripts i)) [] 0 = Some (Returned (ns ! i))"
        by (auto simp: bench_Worker_def split: prod.splits option.splits thread_end.splits)
      from rounds_loop_done [OF this] show ?thesis by auto
    qed
  qed
  then obtain f where f: "\<And>i. i < ?m \<Longrightarrow> ?d i (f i) \<and> ns ! i = of_int (int (f i) * op_pipeline opts)" by metis
  have "ns = map (\<lambda>i. of_int (int (f i) * op_pipeline opts)) [0..<?m]" using ns(1) f by (intro nth_equalityI) simp_all
  moreover have "sum_list (map (\<lambda>i. of_int (int (f i) * op_pipeline opts)) xs) =
      (of_int (int (sum_list (map f xs)) * op_pipeline opts) :: u64)" for xs
    by (induction xs) (simp_all add: algebra_simps)
  ultimately show ?thesis using f ns(2) by (intro exI [of _ "map f [0..<?m]"]) simp
qed

text \<open>
  A negative \<^verbatim>\<open>--pipeline\<close> is accepted: its request is empty, every write of no bytes
  completes a round without a reply, and each of them is added as \<open>2 ^ 64 - p\<close> operations.
\<close>

lemma negative_pipeline_wraps:
  assumes "pipeline < 0" and "list_all (\<lambda>r. br_wrote r = 0) rounds"
  shows "MakeRequest pk command pipeline = [] \<and>
    rounds_loop up lim pipeline [] rounds pending local = Some (Returned (local - of_nat (length rounds) * of_int (- pipeline)))"
  using assms(2)
proof (induction rounds arbitrary: local)
  case (Cons r rounds)
  then show ?case using assms(1) by (simp add: MakeRequest_def read_loop.simps algebra_simps)
qed (use assms(1) in \<open>simp add: MakeRequest_def\<close>)

end
