(* ===== verification/Spec2Isabelle.thy ===== *)
theory Spec2Isabelle
  imports Command_Rules Resp_Parser Buffer_Pipe Co_Socket Coroutine_Signal Proxy_Config Channel_Stop Worker_Run Wire_Safety Session_End
    Proxy_Server Bench_Driver
begin

text \<open>
  A verification of \<^verbatim>\<open>redis_proxy\<close>, a proxy that accepts Redis clients, checks their
  commands against a table of rules and forwards them, pipelined, over a few connections
  per worker thread to one Redis server.

  \<^bold>\<open>The program.\<close> \<^verbatim>\<open>main\<close> reads the configuration (\<^verbatim>\<open>src/config.cpp\<close>) and runs a
  \<^verbatim>\<open>ProxyServer\<close> (\<^verbatim>\<open>src/proxy_server.cpp\<close>), which accepts connections and hands them round
  robin to its \<^verbatim>\<open>Worker\<close> threads (\<^verbatim>\<open>src/worker.cpp\<close>). A worker turns each descriptor into a
  \<^verbatim>\<open>ClientSession\<close> (\<^verbatim>\<open>src/client_session.cpp\<close>) and owns a \<^verbatim>\<open>BackendPool\<close>
  (\<^verbatim>\<open>src/backend_pool.cpp\<close>) of \<^verbatim>\<open>BackendChannel\<close>s (\<^verbatim>\<open>src/backend_channel.cpp\<close>). A session is
  two coroutines: the reader parses frames (\<^verbatim>\<open>src/resp_parser.cpp\<close>), asks the rules
  (\<^verbatim>\<open>src/command_rules.cpp\<close>) and submits batches to a channel; the writer sends what the
  channel's callbacks queued. A channel has a coroutine that connects and writes and one
  that reads replies and returns them to the owners in order. They wait for each other on
  \<^verbatim>\<open>CoroutineSignal\<close>s (\<^verbatim>\<open>src/coroutine_signal.cpp\<close>), do their I/O through \<^verbatim>\<open>CoSocket\<close>
  (\<^verbatim>\<open>src/co_socket.cpp\<close>) and share bytes without copying in reference-counted blocks
  (\<^verbatim>\<open>src/buffer.cpp\<close>). \<^verbatim>\<open>bench/proxy_bench.cpp\<close> is the load generator.

  \<^bold>\<open>The theories.\<close>
  \<^item> \<^verbatim>\<open>Proxy_Prelude\<close>: the basic types, \<open>reach\<close> and the interface \<open>invariant_system\<close> that
    every state machine below instantiates; \<^verbatim>\<open>Proxy_Status\<close>: \<^verbatim>\<open>status.h\<close>.
  \<^item> \<^verbatim>\<open>Buffer_Heap\<close>, \<^verbatim>\<open>Io_Buffer\<close>, \<^verbatim>\<open>Buffer_Pipe\<close>: blocks, pool, slices, chains and \<^verbatim>\<open>IoBuffer\<close> on
    an explicit heap with 32-bit reference counts. The owners are a multiset, and the
    invariant says that every count is the number of owners. \<^verbatim>\<open>IoBuffer\<close> refines a byte
    list (the interface \<open>byte_queue\<close> of \<^verbatim>\<open>Byte_Queue\<close>), live chains never change, bytes are
    conserved from \<^verbatim>\<open>read\<close> to \<^verbatim>\<open>writev\<close>, nothing is used after it was freed and nothing leaks.
  \<^item> \<^verbatim>\<open>Resp_Parser\<close>: \<^verbatim>\<open>RespParser\<close>. Its retry loop ends, equals one call of the decoder with the
    largest arena, respects the frame limit, and over shared blocks refines the parser
    over byte strings (\<open>peek_bytes\<close>, \<open>next_reply_bytes\<close>) that the theories above use.
  \<^item> \<^verbatim>\<open>Command_Rules\<close>: the table and \<^verbatim>\<open>validate\<close>; exactly which commands are accepted.
  \<^item> \<^verbatim>\<open>Coroutine_Signal\<close>, \<^verbatim>\<open>Co_Socket\<close>: no notification is lost; reads append and writes send
    exactly the right bytes; descriptors are closed exactly once.
  \<^item> \<^verbatim>\<open>Proxy_Config\<close>: the C library's number parsers, the loaders and the validation.
  \<^item> \<^verbatim>\<open>Reply_Fifo\<close>, \<^verbatim>\<open>Backend_Channel\<close>, \<^verbatim>\<open>Channel_Stop\<close>, \<^verbatim>\<open>Backend_Pool\<close>: a channel as a step relation
    \<open>ch_step\<close> whose steps run from one suspension point to the next and return the
    callbacks made. It implements the interface \<open>reply_fifo\<close>: replies reach the owners in
    the order of the commands. A failure notifies each waiting owner once, a stop
    completes, and the pool selects the least loaded healthy channel.
  \<^item> \<^verbatim>\<open>Client_Session\<close>, \<^verbatim>\<open>Session_Invariant\<close>: a session as the step relation \<open>ss_step\<close>, and its
    invariant \<open>ss_inv\<close> with the link \<open>ss_link\<close> between its counter and the channels.
  \<^item> \<^verbatim>\<open>Proxy_System\<close>: sessions and channels together, callbacks delivered to the sessions.
  \<^item> \<^verbatim>\<open>Worker\<close>, \<^verbatim>\<open>Worker_Run\<close>: the worker's thread and the accepting thread interleaved
    (\<open>wk_step\<close>), the invariant \<open>wk_inv\<close> of all reachable states, and a concrete run from
    an accepted connection to its closing, on which the examples rest.
  \<^item> \<^verbatim>\<open>Wire_Safety\<close>: only accepted commands are queued for or written to Redis.
    \<^verbatim>\<open>Session_End\<close>: a session that is to end does, in a bounded number of its steps.
  \<^item> \<^verbatim>\<open>Proxy_Server\<close>: start-up, exit codes and the accept loop.
  \<^item> \<^verbatim>\<open>Bench_Driver\<close>: the load generator; its counter does not depend on how the stream is
    cut, and what a thread reports is its completed rounds.
  \<^item> This theory: the properties of a worker as a whole.

  \<^bold>\<open>How code becomes definitions.\<close> Classes are records with the fields of the code,
  methods are functions on them that keep their names (with a prefix such as \<open>ch_\<close> or
  \<open>io_\<close> where several classes share one). A coroutine is a field naming the suspension
  point it is at, and one function per stretch of code between two of them. Undefined
  behaviour, and a loop that does not return, is \<^const>\<open>None\<close>; the theorems show that it
  does not happen. Some records have history fields (\<open>ss_asked\<close>, \<open>ss_given\<close>, \<open>ss_wrote\<close>,
  \<open>ch_wire\<close>, \<open>wk_dispatched\<close> and others) that operations extend and none reads. From the
  channel upwards chains and buffers are byte strings, which \<^verbatim>\<open>Buffer_Pipe\<close> and
  \<open>parser_refines_bytes\<close> justify.

  \<^bold>\<open>Parameters and hypotheses.\<close> Code that is not in the repository is a parameter:
  \<^verbatim>\<open>redis::UnpackOne\<close> (\<open>up\<close>, with \<open>unpack_bounds\<close> and where named \<open>unpack_arena\<close>,
  \<open>unpack_prefix\<close>, \<open>unpack_stream\<close>), \<^verbatim>\<open>PackError\<close> (\<open>pack\<close>), \<^verbatim>\<open>PackCommand\<close> (\<open>pk\<close>),
  \<^verbatim>\<open>Endpoint::parse\<close> (\<open>ep\<close>), the condition variable and the notifier (\<open>ntf\<close>, \<open>drn\<close>: a
  notified notifier is readable), and the answers of system calls, which are scripts or
  arbitrary arguments of a step. \<open>hash_order\<close>: an \<^verbatim>\<open>unordered_set\<close> is visited once per
  element, in any order. \<open>env_ok\<close> collects what the theorems on a worker need. The
  decoder \<open>ping_unpack\<close> satisfies all of it in the examples.

  \<^bold>\<open>Bounds.\<close> \<open>pool_fits\<close>, a condition on the steps of a worker, says that a channel holds
  fewer than \<open>2 ^ 64\<close> commands, so that the 64-bit counters are exact: each takes memory.
  \<open>cf_max_pipeline < 2 ^ 32\<close>, a condition on the initial state, keeps the 32-bit count of
  a batch exact; the default is \<open>2 ^ 20\<close>. No definition uses fuel: loops are structural,
  have a termination proof, or are \<open>partial_function\<close>s shown to return. The steps
  \<open>sr_wakes\<close> and \<open>sw_wakes\<close> also allow wake-ups without a notification. That only adds
  behaviours, and \<open>ss_ends_within\<close> therefore demands the notification as well.
  \<open>closing_session_ends\<close> counts a session's own steps: that the runtime resumes a
  coroutine whose call has returned or whose signal was notified is assumed of it.

  \<^bold>\<open>Not modelled.\<close> The decoder and the other code of the submodules, and the scheduler
  of the coroutine library, since their sources are not here. Threads appear as the
  interleaving of the steps of \<^verbatim>\<open>Worker\<close>; the C++ memory model, and so the mutex itself, does
  not. Elapsed time: a timeout is an answer of a call. Plain accessors without a decision
  have no definition of their own; record selectors stand for them. Of the load generator,
  the division and the printed line (floating point and output) are left out. The tests
  and the scripts are not part of the program.
\<close>

section \<open>The properties of a worker as a whole\<close>

text \<open>
  C1 Pipelining is kept in order through the whole proxy: in every reachable state of a
  worker, what a client has asked is, in this order, what it has been answered, one
  outstanding reply per forwarded command, and the refusal still to be queued, if any;
  what has gone to its socket and what is queued for it are exactly those answers' bytes;
  and the outstanding replies it counts are the commands the channels hold for it, all
  of them on its current channel.
\<close>

theorem answers_in_order:
  assumes "env_ok up order ntf rd" and "reach wk_init (wk_next up pack order ntf drn) w"
    and "wk_sessions w i = Some s" and "ss_state s \<noteq> SS_kAborted"
  shows "ss_asked s = map answer_to (ss_given s) @ replicate (unat (ss_pending s)) Forwarded @ ss_held s \<and>
    ss_wrote s @ concat (ss_out s) = concat (map (answer_bytes pack) (ss_given s)) \<and>
    (\<forall>j < length (wk_pool w). ch_owed (wk_pool w ! j) i =
       (if ss_current s = Some j then unat (ss_pending s) else 0))"
proof -
  have "sys_ok pack {} (wk_sessions w) (wk_pool w)" using reach_wk_inv [OF assms(1,2)] by (simp add: wk_inv_def)
  from sys_okD [OF this assms(3)] assms(4) show ?thesis by (simp add: ss_inv_def ss_history_ok_def ss_link_def)
qed

theorem answers_in_order_witness:
  "\<exists>w s. ex_reach w \<and> wk_sessions w 7 = Some s \<and> ss_asked s = [Forwarded] \<and> ss_given s = [] \<and>
     ss_pending s = 1 \<and> wk_pool w = [ch_asked] \<and> ch_owed ch_asked 7 = 1"
proof -
  obtain w s where w: "ex_reach w" "wk_sessions w = [7 \<mapsto> s]" "wk_pool w = [ch_asked]" "ss_state s = SS_kOpen"
    "ss_pending s = 1" "ss_current s = Some 0" "ss_asked s = [Forwarded]" "ss_given s = []"
    by (rule ex_waiting) blast
  have "ch_owed (wk_pool w ! 0) 7 = 1"
    using answers_in_order [OF ex_env_ok w(1), of 7 s] w by simp
  with w show ?thesis by (intro exI [of _ w] exI [of _ s]) simp
qed

text \<open>
  C3 No callback ever reaches a destroyed session and no session ever uses a channel that
  does not exist: whatever a channel's step or \<^verbatim>\<open>BackendPool::stop\<close> reports is delivered to
  live sessions only, and a session's reader always finishes its round. Addresses of
  destroyed sessions may be used again.
\<close>

theorem callbacks_reach_live_sessions:
  assumes "env_ok up order ntf rd" and "reach wk_init (wk_next up pack order ntf drn) w"
  shows "(\<forall>j cbs ch. j < length (wk_pool w) \<and> ch_step up order (wk_pool w ! j) cbs ch \<longrightarrow>
      deliver_all cbs (wk_sessions w, (wk_pool w)[j := ch]) \<noteq> None) \<and>
    pool_stop order [0..<length (wk_pool w)] (wk_sessions w, wk_pool w) \<noteq> None \<and>
    (\<forall>i s alloc. wk_sessions w i = Some s \<longrightarrow> ss_reader_top up alloc (wk_rules w) i s (wk_pool w) \<noteq> None)"
proof -
  have e: "hash_order order" "unpack_bounds up" using assms(1) by (simp_all add: env_ok_def)
  have sys: "sys_ok pack {} (wk_sessions w) (wk_pool w)" using reach_wk_inv [OF assms] by (simp add: wk_inv_def)
  have "deliver_all cbs (wk_sessions w, (wk_pool w)[j := ch]) \<noteq> None"
    if j: "j < length (wk_pool w)" and st: "ch_step up order (wk_pool w ! j) cbs ch" for j cbs ch
  proof -
    have "ch_inv (wk_pool w ! j)" using sys j by (simp add: sys_ok_def list_all_length)
    from effect_delivered [OF sys j ch_step_effect [OF e(1) this st]] show ?thesis by auto
  qed
  moreover have "pool_stop order [0..<length (wk_pool w)] (wk_sessions w, wk_pool w) \<noteq> None"
    using pool_stop_ok [OF e(1) sys, of "[0..<length (wk_pool w)]"] by (auto simp: list_all_iff)
  moreover have "ss_reader_top up alloc (wk_rules w) i s (wk_pool w) \<noteq> None" if "wk_sessions w i = Some s" for i s alloc
    using sys_okD [OF sys that] sys reader_top_total [OF e(2)] by (simp add: sys_ok_def)
  ultimately show ?thesis by blast
qed

theorem callbacks_reach_live_sessions_witness:
  "\<exists>w cbs ch. ex_reach w \<and> wk_pool w = [ch_sending] \<and> ch_step ping_unpack remdups ch_sending cbs ch \<and>
     cbs = [Failure 7 (Status_IoError ''reset'')] \<and> deliver_all cbs (wk_sessions w, [ch]) \<noteq> None"
proof -
  obtain w where w: "ex_reach w" "wk_pool w = [ch_sending]" by (rule ex_sending) blast
  from ex_breaks obtain ch cbs where
    c: "ch_step ping_unpack remdups ch_sending cbs ch" "cbs = [Failure 7 (Status_IoError ''reset'')]" by blast
  have "deliver_all cbs (wk_sessions w, (wk_pool w)[0 := ch]) \<noteq> None"
    using callbacks_reach_live_sessions [OF ex_env_ok w(1)] c(1) w(2) by (metis length_Cons nth_Cons_0 zero_less_Suc)
  with w c show ?thesis by auto
qed

text \<open>
  C8 A session is destroyed only when both of its coroutines have ended and no channel
  holds its address any more; until then it stays.
\<close>

theorem sessions_destroyed_safely:
  assumes "env_ok up order ntf rd" and "reach wk_init (wk_next up pack order ntf drn) w"
    and "wk_next up pack order ntf drn w w'" and "wk_sessions w i = Some s" and "wk_sessions w' i = None"
  shows "ss_reader s = SR_none \<and> ss_writer s = SW_none \<and> (\<forall>j < length (wk_pool w). ch_owed (wk_pool w ! j) i = 0)"
proof -
  note inv = reach_wk_inv [OF assms(1,2)]
  have "wk_step up pack order ntf drn w w'" using assms(3) by (simp add: wk_next_def)
  from destroyed_finished [OF assms(1) inv this assms(4,5)] have "i \<in> set (wk_finished w)" .
  then have p: "ss_reader s = SR_none" "ss_writer s = SW_none"
    using inv assms(4) by (auto simp: wk_inv_def finished_ok_def ss_points_def)
  have "sys_ok pack {} (wk_sessions w) (wk_pool w)" using inv by (simp add: wk_inv_def)
  note s = sys_okD [OF this assms(4)]
  from closed_idle(1) [of pack s, OF _ p] s have "ss_current s = None" by simp
  with s p show ?thesis by (simp add: ss_link_def)
qed

text \<open>
  C6 A client that closes its side after complete commands gets everything: a session that
  ends without having been aborted has answered every request, each in its place, and
  handed all of those bytes to the socket.
\<close>

theorem graceful_close:
  assumes "env_ok up order ntf rd" and "reach wk_init (wk_next up pack order ntf drn) w"
    and "i \<in> set (wk_finished w)" and "wk_sessions w i = Some s" and "ss_state s \<noteq> SS_kAborted"
  shows "ss_asked s = map answer_to (ss_given s) \<and> ss_wrote s = concat (map (answer_bytes pack) (ss_given s)) \<and>
    ss_out s = [] \<and> ss_pending s = 0"
proof -
  note inv = reach_wk_inv [OF assms(1,2)]
  have p: "ss_reader s = SR_none" "ss_writer s = SW_none"
    using inv assms(3,4) by (auto simp: wk_inv_def finished_ok_def ss_points_def)
  have "sys_ok pack {} (wk_sessions w) (wk_pool w)" using inv by (simp add: wk_inv_def)
  from sys_okD [OF this assms(4)] have "ss_inv pack s" by simp
  from closed_idle [OF this p] assms(5) show ?thesis by simp
qed

theorem graceful_close_witness:
  "\<exists>w s. ex_reach w \<and> wk_finished w = [7] \<and> wk_sessions w 7 = Some s \<and> ss_asked s = [Forwarded] \<and>
     ss_wrote s = concat (map (answer_bytes (\<lambda>e. CHR ''-'' # e)) (ss_given s)) \<and> ss_out s = []"
proof -
  obtain w s where w: "ex_reach w" "wk_sessions w = [7 \<mapsto> s]" "wk_finished w = [7]" "ss_state s = SS_kDraining"
    "ss_asked s = [Forwarded]" by (rule ex_closed) blast
  from graceful_close [OF ex_env_ok w(1), of 7 s] w show ?thesis by (intro exI [of _ w] exI [of _ s]) simp
qed

theorem sessions_destroyed_safely_witness:
  "\<exists>w w' s. ex_reach w \<and> ex_next w w' \<and> wk_sessions w 7 = Some s \<and> wk_sessions w' 7 = None \<and>
     ss_reader s = SR_none \<and> ss_writer s = SW_none"
proof -
  obtain w s where w: "ex_reach w" "wk_sessions w = [7 \<mapsto> s]" "wk_finished w = [7]" "wk_main w = MP_poll" "\<not> wk_has_pending w"
    by (rule ex_closed) blast
  let ?w1 = "main_polled (\<lambda>_. False) 1 w"
  have f: "pool_fits (wk_pool w)" using ex_reach_fits [OF w(1)] .
  have 1: "ex_reach ?w1" using w(1) by (rule ex_step) (rule wk_polled, simp_all add: w f main_polled_def)
  have 2: "ex_next ?w1 (main_head ?w1)"
    unfolding wk_next_def by (rule conjI, rule wk_heads) (simp_all add: main_polled_def main_head_def reapSessions_def f w)
  have s: "wk_sessions ?w1 7 = Some s" "wk_sessions (main_head ?w1) 7 = None"
    using w by (simp_all add: main_polled_def main_head_def reapSessions_def)
  from sessions_destroyed_safely [OF ex_env_ok 1 2 s] 1 2 s show ?thesis by blast
qed

text \<open>
  C10 No session sleeps on work: while a session's writer is suspended without a
  notification it has nothing to send and is not to end, and while its reader so waits
  for earlier replies the session is open; a reply that is waited for is owed by a channel
  that is up.
\<close>

theorem session_no_lost_wakeup:
  assumes "env_ok up order ntf rd" and "reach wk_init (wk_next up pack order ntf drn) w" and "wk_sessions w i = Some s"
  shows "(ss_writer s = SW_wait \<and> \<not> sg_pending (ss_out_signal s) \<longrightarrow>
      ss_out s = [] \<and> (ss_state s = SS_kOpen \<or> ss_state s = SS_kDraining \<and> ss_pending s \<noteq> 0)) \<and>
    (\<forall>e. ss_reader s = SR_reply_wait e \<and> \<not> sg_pending (ss_reply_signal s) \<longrightarrow>
      ss_state s = SS_kOpen \<and> ss_pending s \<noteq> 0) \<and>
    (ss_pending s \<noteq> 0 \<longrightarrow> (\<exists>j < length (wk_pool w). isHealthy (wk_pool w ! j) \<and> 0 < ch_owed (wk_pool w ! j) i))"
proof -
  have sys: "sys_ok pack {} (wk_sessions w) (wk_pool w)" using reach_wk_inv [OF assms(1,2)] by (simp add: wk_inv_def)
  note s = sys_okD [OF sys assms(3)]
  have "\<exists>j < length (wk_pool w). isHealthy (wk_pool w ! j) \<and> 0 < ch_owed (wk_pool w ! j) i" if "ss_pending s \<noteq> 0"
    using waiting_channel [OF sys assms(3) that] by blast
  with s show ?thesis by (simp add: ss_inv_def ss_signals_ok_def)
qed

theorem session_no_lost_wakeup_witness:
  "\<exists>w s. ex_reach w \<and> wk_sessions w 7 = Some s \<and> ss_pending s = 1 \<and>
     (\<exists>j < length (wk_pool w). isHealthy (wk_pool w ! j) \<and> 0 < ch_owed (wk_pool w ! j) 7)"
proof -
  obtain w s where w: "ex_reach w" "wk_sessions w = [7 \<mapsto> s]" "ss_pending s = 1" by (rule ex_waiting) blast
  from session_no_lost_wakeup [OF ex_env_ok w(1), of 7 s] w show ?thesis by (intro exI [of _ w] exI [of _ s]) simp
qed

text \<open>
  C7 A broken connection is contained: when a channel goes down, every session that waited
  for it is aborted at once, none of them is left attached to any channel, and every
  other session is untouched.
\<close>

theorem backend_failure_contained:
  assumes "env_ok up order ntf rd" and "reach wk_init (wk_next up pack order ntf drn) w"
    and "j < length (wk_pool w)" and "ch_step up order (wk_pool w ! j) cbs ch" and "\<not> isHealthy ch"
    and "deliver_all cbs (wk_sessions w, (wk_pool w)[j := ch]) = Some (ss, chs)"
  shows "\<forall>i. if 0 < ch_owed (wk_pool w ! j) i
    then (\<exists>s. ss i = Some s \<and> ss_state s = SS_kAborted) \<and> (\<forall>k < length chs. ch_owed (chs ! k) i = 0)
    else ss i = wk_sessions w i"
proof -
  have sys: "sys_ok pack {} (wk_sessions w) (wk_pool w)" and e: "hash_order order"
    using reach_wk_inv [OF assms(1,2)] assms(1) by (simp_all add: wk_inv_def env_ok_def)
  then have "ch_inv (wk_pool w ! j)" using assms(3) by (simp add: sys_ok_def list_all_length)
  from failure_delivered [OF e sys assms(3) ch_step_effect [OF e this assms(4)] assms(5,6)] show ?thesis .
qed

theorem backend_failure_contained_witness:
  "\<exists>w cbs ch ss chs. ex_reach w \<and> wk_pool w = [ch_sending] \<and> ch_step ping_unpack remdups ch_sending cbs ch \<and>
     deliver_all cbs (wk_sessions w, [ch]) = Some (ss, chs) \<and> (\<exists>s. ss 7 = Some s \<and> ss_state s = SS_kAborted)"
proof -
  obtain w s where w: "ex_reach w" "wk_sessions w = [7 \<mapsto> s]" "wk_pool w = [ch_sending]" by (rule ex_sending) blast
  from ex_breaks obtain ch cbs where
    c: "ch_step ping_unpack remdups ch_sending cbs ch" "\<not> isHealthy ch" "cbs = [Failure 7 (Status_IoError ''reset'')]" by blast
  obtain ss chs where d: "deliver_all cbs (wk_sessions w, [ch]) = Some (ss, chs)"
    using w(2) c(3) by (cases "onBackendFailure 7 s [ch]") simp
  have "0 < ch_owed ch_sending 7" by (simp add: ch_owed_def ch_sending_state)
  with backend_failure_contained [OF ex_env_ok w(1), of 0 cbs ch ss chs] c d w
  have "\<exists>s. ss 7 = Some s \<and> ss_state s = SS_kAborted" by (auto dest: spec [of _ 7])
  with w c d show ?thesis by blast
qed

text \<open>
  C12 \<^verbatim>\<open>BackendPool::stop\<close> leaves nobody waiting: it returns, and afterwards every channel is
  told to stop, is down and holds no command; every session that waited for a reply is
  aborted, and every session that waited for none is what it was before.
\<close>

theorem stop_leaves_no_waiter:
  assumes "env_ok up order ntf rd" and "reach wk_init (wk_next up pack order ntf drn) w"
  shows "\<exists>ss chs. pool_stop order [0..<length (wk_pool w)] (wk_sessions w, wk_pool w) = Some (ss, chs) \<and>
    length chs = length (wk_pool w) \<and>
    (\<forall>ch \<in> set chs. ch_stop ch \<and> \<not> isHealthy ch \<and> (\<forall>i. ch_owed ch i = 0)) \<and>
    (\<forall>i. if \<exists>s. wk_sessions w i = Some s \<and> ss_pending s \<noteq> 0
         then \<exists>s'. ss i = Some s' \<and> ss_state s' = SS_kAborted
         else ss i = wk_sessions w i)"
proof -
  have sys: "sys_ok pack {} (wk_sessions w) (wk_pool w)" and e: "hash_order order"
    using reach_wk_inv [OF assms] assms(1) by (simp_all add: wk_inv_def env_ok_def)
  have inv: "list_all ch_inv (wk_pool w)" and js: "list_all (\<lambda>j. j < length (wk_pool w)) [0..<length (wk_pool w)]"
    using sys by (simp_all add: sys_ok_def list_all_iff)
  from pool_stop_ok [OF e sys js] obtain ss chs where
    d: "pool_stop order [0..<length (wk_pool w)] (wk_sessions w, wk_pool w) = Some (ss, chs)"
    and ok: "sys_ok pack {} ss chs" by blast
  note p = pool_stop_spec [OF e inv js d]
  then have h: "\<forall>ch \<in> set chs. halted ch" by (auto simp: in_set_conv_nth)
  have "\<exists>s'. ss i = Some s' \<and> ss_state s' = SS_kAborted" if s: "wk_sessions w i = Some s" "ss_pending s \<noteq> 0" for i s
  proof (rule ccontr)
    assume "\<nexists>s'. ss i = Some s' \<and> ss_state s' = SS_kAborted"
    with p s(1) have "ss i = Some s" by metis
    from waiting_channel [OF ok this s(2)] h show False by (auto simp: halted_def)
  qed
  then have "if \<exists>s. wk_sessions w i = Some s \<and> ss_pending s \<noteq> 0
    then \<exists>s'. ss i = Some s' \<and> ss_state s' = SS_kAborted else ss i = wk_sessions w i" for i
    using pool_stop_idle [OF e sys js d, of i] by auto
  with d p h show ?thesis by (auto simp: halted_def)
qed

theorem stop_leaves_no_waiter_witness:
  "\<exists>w s ss chs. ex_reach w \<and> wk_sessions w = [7 \<mapsto> s] \<and> ss_pending s = 1 \<and>
     pool_stop remdups [0..<length (wk_pool w)] (wk_sessions w, wk_pool w) = Some (ss, chs) \<and>
     (\<exists>s'. ss 7 = Some s' \<and> ss_state s' = SS_kAborted) \<and> ss 8 = None"
proof -
  obtain w s where w: "ex_reach w" "wk_sessions w = [7 \<mapsto> s]" "ss_pending s = 1" by (rule ex_waiting) blast
  from stop_leaves_no_waiter [OF ex_env_ok w(1)] obtain ss chs where
    p: "pool_stop remdups [0..<length (wk_pool w)] (wk_sessions w, wk_pool w) = Some (ss, chs)"
    and i: "\<forall>i. if \<exists>s. wk_sessions w i = Some s \<and> ss_pending s \<noteq> 0
         then \<exists>s'. ss i = Some s' \<and> ss_state s' = SS_kAborted else ss i = wk_sessions w i" by blast
  from i w(2,3) have "\<exists>s'. ss 7 = Some s' \<and> ss_state s' = SS_kAborted" "ss 8 = None"
    by (auto dest: spec [of _ 7] spec [of _ 8])
  with w p show ?thesis by blast
qed

end
